(* ===== verification/Prelude.thy ===== *)
theory Prelude
  imports Main "HOL-Library.Word" "HOL-Library.Signed_Division" "HOL-Library.Multiset"
begin

text \<open>
  Shared vocabulary of the development: how C values are read in HOL, the result type of
  operations that may stop the kernel, and generic lemmas on lists, folds over index ranges
  and searches that the component theories use.

  \<^item> A C \<^verbatim>\<open>char\<close> is a HOL \<^typ>\<open>char\<close> (eight bits). On this target plain \<^verbatim>\<open>char\<close> is signed:
    \<open>schar\<close> is its value after integer promotion, \<open>to_char\<close> the conversion of an \<^verbatim>\<open>int\<close> back to
    \<^verbatim>\<open>char\<close>, which keeps the low eight bits.
  \<^item> A C \<^verbatim>\<open>int\<close> used as a coordinate, counter or command is an \<^typ>\<open>int\<close>; values that are
    allowed to wrap around are words.
  \<^item> \<open>c_error\<close> names the ways a call does not come back with a value.
\<close>

named_theorems frame_simps \<open>fields an operation leaves alone\<close>
named_theorems inv_intros \<open>preservation of component invariants\<close>

subsection \<open>Characters\<close>

definition schar :: "char \<Rightarrow> int" where
  "schar c = (let n = of_char c in if n < 128 then n else n - 256)"

definition to_char :: "int \<Rightarrow> char" where
  "to_char i = char_of i"

abbreviation NUL :: char where
  "NUL \<equiv> CHR 0x00"

subsection \<open>Results of calls that may fail\<close>

datatype c_error =
    Assertion_failed  \<comment> \<open>\<^verbatim>\<open>ASSERT\<close> fails and the kernel panics\<close>
  | Panic             \<comment> \<open>\<^verbatim>\<open>PANIC\<close> is called, or \<^verbatim>\<open>NOT_REACHED\<close> is reached\<close>
  | No_return         \<comment> \<open>the call never comes back\<close>
  | Out_of_bounds     \<comment> \<open>an array access outside the array: undefined behaviour\<close>
  | Signed_overflow   \<comment> \<open>an \<^verbatim>\<open>int\<close> operation whose value does not fit: undefined behaviour\<close>
  | Divide_error      \<comment> \<open>a division by zero, or one whose quotient does not fit the register\<close>

type_synonym 'a result = "c_error + 'a"

definition rbind :: "'a result \<Rightarrow> ('a \<Rightarrow> 'b result) \<Rightarrow> 'b result" where
  "rbind r f = (case r of Inl e \<Rightarrow> Inl e | Inr x \<Rightarrow> f x)"

definition c_assert :: "bool \<Rightarrow> 'a result \<Rightarrow> 'a result" where
  "c_assert b r = (if b then r else Inl Assertion_failed)"

definition returns :: "'a result option \<Rightarrow> 'a result" where
  "returns x = (case x of None \<Rightarrow> Inl No_return | Some r \<Rightarrow> r)"

text \<open>The value of an \<^verbatim>\<open>int\<close> expression, where the mathematical value may not fit.\<close>

definition c_int :: "int \<Rightarrow> int result" where
  "c_int v = (if - (2 ^ 31) \<le> v \<and> v < 2 ^ 31 then Inr v else Inl Signed_overflow)"

definition c_int64 :: "int \<Rightarrow> int result" where
  "c_int64 v = (if - (2 ^ 63) \<le> v \<and> v < 2 ^ 63 then Inr v else Inl Signed_overflow)"

text \<open>Arithmetic on \<^verbatim>\<open>size_t\<close>, which has 32 bits on this target, wraps around.\<close>

definition size_t :: "nat \<Rightarrow> nat" where
  "size_t n = n mod 2 ^ 32"

text \<open>A \<^verbatim>\<open>for\<close> loop whose body may stop the kernel.\<close>

primrec rfold :: "('a \<Rightarrow> 's \<Rightarrow> 's result) \<Rightarrow> 'a list \<Rightarrow> 's \<Rightarrow> 's result" where
  "rfold f [] s = Inr s"
| "rfold f (x # xs) s = rbind (f x s) (rfold f xs)"

text \<open>A loop that may run forever is an option-valued partial function; \<open>None\<close> is not returning.\<close>

definition of_loop :: "'a option \<Rightarrow> 'a result" where
  "of_loop x = (case x of None \<Rightarrow> Inl No_return | Some y \<Rightarrow> Inr y)"

text \<open>A call inside such a loop: its failure ends the loop.\<close>

definition obind :: "'a result \<Rightarrow> ('a \<Rightarrow> 'b result option) \<Rightarrow> 'b result option" where
  "obind r f = (case r of Inl e \<Rightarrow> Some (Inl e) | Inr x \<Rightarrow> f x)"

lemma obind_simps [simp]: "obind (Inl e) f = Some (Inl e)" "obind (Inr x) f = f x"
  by (simp_all add: obind_def)

lemma obind_mono [partial_function_mono]:
  "(\<And>y. mono_option (\<lambda>f. B f y)) \<Longrightarrow> mono_option (\<lambda>f. obind r (\<lambda>y. B f y))"
  unfolding obind_def by (cases r) (auto simp: monotone_def flat_ord_def fun_ord_def)

lemma of_loop_simps [simp]: "of_loop None = Inl No_return" "of_loop (Some y) = Inr y"
  by (simp_all add: of_loop_def)

lemma rbind_Inl [simp]: "rbind (Inl e) f = Inl e"
  by (simp add: rbind_def)

lemma rbind_Inr [simp]: "rbind (Inr x) f = f x"
  by (simp add: rbind_def)

lemma rbind_eq_Inr: "rbind r f = Inr y \<longleftrightarrow> (\<exists>x. r = Inr x \<and> f x = Inr y)"
  by (cases r) simp_all

lemma c_assert_True [simp]: "c_assert True r = r"
  by (simp add: c_assert_def)

lemma c_assert_False [simp]: "c_assert False r = Inl Assertion_failed"
  by (simp add: c_assert_def)

lemma c_assert_Inr: "c_assert b r = Inr x \<longleftrightarrow> b \<and> r = Inr x"
  by (simp add: c_assert_def)

lemma returns_simps [simp]: "returns None = Inl No_return" "returns (Some r) = r"
  by (simp_all add: returns_def)

lemma size_t_id [simp]: "n < 2 ^ 32 \<Longrightarrow> size_t n = n"
  by (simp add: size_t_def)

lemma size_t_less [simp]: "size_t n < 2 ^ 32"
  by (simp add: size_t_def)

lemma rfold_append: "rfold f (xs @ ys) s = rbind (rfold f xs s) (rfold f ys)"
  by (induction xs arbitrary: s) (auto simp: rbind_def split: sum.split)

lemma rfold_fold:
  assumes "P s" "\<And>x s. x \<in> set xs \<Longrightarrow> P s \<Longrightarrow> f x s = Inr (g x s) \<and> P (g x s)"
  shows "rfold f xs s = Inr (fold g xs s)"
  using assms by (induction xs arbitrary: s) auto

subsection \<open>Decimal notation\<close>

text \<open>The text that \<^verbatim>\<open>%d\<close> prints.\<close>

fun show_nat :: "nat \<Rightarrow> string" where
  "show_nat n = (if n < 10 then [char_of (48 + n)] else show_nat (n div 10) @ [char_of (48 + n mod 10)])"

declare show_nat.simps [simp del]

definition show_int :: "int \<Rightarrow> string" where
  "show_int i = (if i < 0 then CHR ''-'' # show_nat (nat (- i)) else show_nat (nat i))"

subsection \<open>Character arithmetic\<close>

lemma schar_bounds: "-128 \<le> schar c" "schar c < 128"
proof -
  have "(of_char c :: int) mod 256 = of_char c"
    by simp
  then have "(of_char c :: int) < 256" "0 \<le> (of_char c :: int)"
    using pos_mod_bound [of 256 "of_char c"] pos_mod_sign [of 256 "of_char c"] by simp_all
  then show "-128 \<le> schar c" "schar c < 128"
    by (simp_all add: schar_def Let_def)
qed

lemma to_char_schar [simp]: "to_char (schar c) = c"
proof -
  have "schar c mod 256 = of_char c mod 256"
    by (simp add: schar_def Let_def)
  then have "char_of (schar c) = char_of (of_char c :: int)"
    by (metis char_of_mod_256)
  then show ?thesis by (simp add: to_char_def)
qed

lemma schar_to_char:
  assumes "-128 \<le> i" "i < 128"
  shows "schar (to_char i) = i"
proof -
  have "(of_char (char_of i) :: int) = i mod 256"
    by simp
  moreover have "i mod 256 = (if i < 0 then i + 256 else i)"
    using assms mod_add_self2 [of i 256] by (auto simp: mod_pos_pos_trivial simp del: mod_add_self2)
  ultimately show ?thesis
    using assms by (simp add: schar_def to_char_def Let_def)
qed

subsection \<open>Division\<close>

text \<open>C division truncates towards zero; on non-negative operands it is \<open>div\<close> and \<open>mod\<close>.\<close>

lemma sdiv_nonneg: "0 \<le> (a :: int) \<Longrightarrow> 0 < b \<Longrightarrow> a sdiv b = a div b"
  by (cases "a = 0") (simp_all add: signed_divide_int_def)

lemma smod_nonneg: "0 \<le> (a :: int) \<Longrightarrow> 0 < b \<Longrightarrow> a smod b = a mod b"
  by (cases "a = 0") (simp_all add: signed_modulo_int_def)

subsection \<open>Loops over index ranges\<close>

text \<open>
  A loop \<^verbatim>\<open>for (i = 0; i < n; i++)\<close> whose body rewrites entry \<open>i\<close> of an array from old data is
  \<open>fold\<close> over \<^term>\<open>[0..<n]\<close>; its effect is given pointwise.
\<close>

lemma fold_invariant:
  assumes "P s" "\<And>x s. x \<in> set xs \<Longrightarrow> P s \<Longrightarrow> P (f x s)"
  shows "P (fold f xs s)"
  using assms by (induction xs arbitrary: s) auto

lemma fold_frame:
  assumes "\<And>x s. x \<in> set xs \<Longrightarrow> g (f x s) = g s"
  shows "g (fold f xs s) = g s"
  using assms by (induction xs arbitrary: s) auto

lemma fold_upt_snoc: "fold f [0..<Suc n] s = f n (fold f [0..<n] s)"
  by simp

lemma list_all_upt: "list_all P [0..<n] \<longleftrightarrow> (\<forall>i<n. P i)"
  by (auto simp: list_all_iff)

end
