(* ===== verification/C_String.thy ===== *)
theory C_String
  imports Prelude
begin

text \<open>
  The string library, \<^verbatim>\<open>lib/string.c\<close>. Memory is a function from addresses to bytes and a
  pointer is its address, with 0 for \<^verbatim>\<open>NULL\<close>. A function that writes memory returns the new
  memory beside its value. The loops over a counted block are primitive recursive in the count;
  the loops that run to a terminating null byte need not stop, so they are partial functions
  whose result \<open>None\<close> becomes \<^const>\<open>No_return\<close>, and the lemmas show that they do return on a
  null-terminated string. Every \<^verbatim>\<open>ASSERT\<close> of the source is a branch.

  The predicate \<open>cstr m p s\<close> says that the C string \<open>s\<close> lies at address \<open>p\<close>.
\<close>

type_synonym mem = "nat \<Rightarrow> char"

abbreviation uchar :: "char \<Rightarrow> nat" where
  "uchar \<equiv> of_char"

subsection \<open>Counted blocks\<close>

primrec copy_up :: "nat \<Rightarrow> mem \<Rightarrow> nat \<Rightarrow> nat \<Rightarrow> mem \<times> nat" where
  "copy_up 0 m dst src = (m, dst)"
| "copy_up (Suc sz) m dst src = copy_up sz (m(dst := m src)) (dst + 1) (src + 1)"

primrec copy_down :: "nat \<Rightarrow> mem \<Rightarrow> nat \<Rightarrow> nat \<Rightarrow> mem \<times> nat" where
  "copy_down 0 m dst src = (m, dst)"
| "copy_down (Suc sz) m dst src =
     copy_down sz (m(dst - 1 := m (src - 1))) (dst - 1) (src - 1)"

definition memcpy :: "mem \<Rightarrow> nat \<Rightarrow> nat \<Rightarrow> nat \<Rightarrow> (mem \<times> nat) result" where
  "memcpy m dst0 src0 sz =
     c_assert (dst0 \<noteq> 0 \<or> sz = 0)
      (c_assert (src0 \<noteq> 0 \<or> sz = 0)
        (Inr (fst (copy_up sz m dst0 src0), dst0)))"

definition memmove :: "mem \<Rightarrow> nat \<Rightarrow> nat \<Rightarrow> nat \<Rightarrow> (mem \<times> nat) result" where
  "memmove m dst0 src0 sz =
     c_assert (dst0 \<noteq> 0 \<or> sz = 0)
      (c_assert (src0 \<noteq> 0 \<or> sz = 0)
        (if dst0 < src0 then Inr (copy_up sz m dst0 src0)
         else Inr (copy_down sz m (dst0 + sz) (src0 + sz))))"

primrec memcmp_loop :: "nat \<Rightarrow> mem \<Rightarrow> nat \<Rightarrow> nat \<Rightarrow> int" where
  "memcmp_loop 0 m a b = 0"
| "memcmp_loop (Suc sz) m a b =
     (if m a \<noteq> m b then (if uchar (m a) > uchar (m b) then 1 else - 1)
      else memcmp_loop sz m (a + 1) (b + 1))"

definition memcmp :: "mem \<Rightarrow> nat \<Rightarrow> nat \<Rightarrow> nat \<Rightarrow> int result" where
  "memcmp m a0 b0 sz =
     c_assert (a0 \<noteq> 0 \<or> sz = 0)
      (c_assert (b0 \<noteq> 0 \<or> sz = 0) (Inr (memcmp_loop sz m a0 b0)))"

primrec memchr_loop :: "nat \<Rightarrow> mem \<Rightarrow> nat \<Rightarrow> char \<Rightarrow> nat" where
  "memchr_loop 0 m block ch = 0"
| "memchr_loop (Suc sz) m block ch =
     (if m block = ch then block else memchr_loop sz m (block + 1) ch)"

definition memchr :: "mem \<Rightarrow> nat \<Rightarrow> int \<Rightarrow> nat \<Rightarrow> nat result" where
  "memchr m block0 ch0 sz =
     c_assert (block0 \<noteq> 0 \<or> sz = 0) (Inr (memchr_loop sz m block0 (to_char ch0)))"

primrec memset_loop :: "nat \<Rightarrow> mem \<Rightarrow> nat \<Rightarrow> char \<Rightarrow> mem" where
  "memset_loop 0 m dst v = m"
| "memset_loop (Suc sz) m dst v = memset_loop sz (m(dst := v)) (dst + 1) v"

definition memset :: "mem \<Rightarrow> nat \<Rightarrow> int \<Rightarrow> nat \<Rightarrow> (mem \<times> nat) result" where
  "memset m dst0 value sz =
     c_assert (dst0 \<noteq> 0 \<or> sz = 0) (Inr (memset_loop sz m dst0 (to_char value), dst0))"

subsection \<open>Null-terminated strings\<close>

partial_function (option) strcmp_loop :: "mem \<Rightarrow> nat \<Rightarrow> nat \<Rightarrow> int result option" where
  "strcmp_loop m a b =
     (if m a \<noteq> NUL \<and> m a = m b then strcmp_loop m (a + 1) (b + 1)
      else Some (Inr (if uchar (m a) < uchar (m b) then - 1
                      else if uchar (m a) > uchar (m b) then 1 else 0)))"

definition strcmp :: "mem \<Rightarrow> nat \<Rightarrow> nat \<Rightarrow> int result" where
  "strcmp m a0 b0 =
     c_assert (a0 \<noteq> 0) (c_assert (b0 \<noteq> 0) (returns (strcmp_loop m a0 b0)))"

partial_function (option) strchr_loop :: "mem \<Rightarrow> nat \<Rightarrow> char \<Rightarrow> nat result option" where
  "strchr_loop m string c =
     (if m string = c then Some (Inr string)
      else if m string = NUL then Some (Inr 0)
      else strchr_loop m (string + 1) c)"

definition strchr :: "mem \<Rightarrow> nat \<Rightarrow> char \<Rightarrow> nat result" where
  "strchr m string c = c_assert (string \<noteq> 0) (returns (strchr_loop m string c))"

partial_function (option) strcspn_loop :: "mem \<Rightarrow> nat \<Rightarrow> nat \<Rightarrow> nat \<Rightarrow> nat result option" where
  "strcspn_loop m string stop len =
     (if m (string + len) \<noteq> NUL then
        (case strchr m stop (m (string + len)) of
           Inl e \<Rightarrow> Some (Inl e)
         | Inr p \<Rightarrow> if p \<noteq> 0 then Some (Inr len) else strcspn_loop m string stop (len + 1))
      else Some (Inr len))"

definition strcspn :: "mem \<Rightarrow> nat \<Rightarrow> nat \<Rightarrow> nat result" where
  "strcspn m string stop = returns (strcspn_loop m string stop 0)"

partial_function (option) strpbrk_loop :: "mem \<Rightarrow> nat \<Rightarrow> nat \<Rightarrow> nat result option" where
  "strpbrk_loop m string stop =
     (if m string \<noteq> NUL then
        (case strchr m stop (m string) of
           Inl e \<Rightarrow> Some (Inl e)
         | Inr p \<Rightarrow> if p \<noteq> 0 then Some (Inr string) else strpbrk_loop m (string + 1) stop)
      else Some (Inr 0))"

definition strpbrk :: "mem \<Rightarrow> nat \<Rightarrow> nat \<Rightarrow> nat result" where
  "strpbrk m string stop = returns (strpbrk_loop m string stop)"

partial_function (option) strrchr_loop :: "mem \<Rightarrow> nat \<Rightarrow> char \<Rightarrow> nat \<Rightarrow> nat result option" where
  "strrchr_loop m string c p =
     (if m string \<noteq> NUL
      then strrchr_loop m (string + 1) c (if m string = c then string else p)
      else Some (Inr p))"

definition strrchr :: "mem \<Rightarrow> nat \<Rightarrow> char \<Rightarrow> nat result" where
  "strrchr m string c = returns (strrchr_loop m string c 0)"

partial_function (option) strspn_loop :: "mem \<Rightarrow> nat \<Rightarrow> nat \<Rightarrow> nat \<Rightarrow> nat result option" where
  "strspn_loop m string skip len =
     (if m (string + len) \<noteq> NUL then
        (case strchr m skip (m (string + len)) of
           Inl e \<Rightarrow> Some (Inl e)
         | Inr p \<Rightarrow> if p = 0 then Some (Inr len) else strspn_loop m string skip (len + 1))
      else Some (Inr len))"

definition strspn :: "mem \<Rightarrow> nat \<Rightarrow> nat \<Rightarrow> nat result" where
  "strspn m string skip = returns (strspn_loop m string skip 0)"

partial_function (option) strlen_loop :: "mem \<Rightarrow> nat \<Rightarrow> nat \<Rightarrow> nat result option" where
  "strlen_loop m string p =
     (if m p \<noteq> NUL then strlen_loop m string (p + 1) else Some (Inr (p - string)))"

definition strlen :: "mem \<Rightarrow> nat \<Rightarrow> nat result" where
  "strlen m string = c_assert (string \<noteq> 0) (returns (strlen_loop m string string))"

function strnlen_loop :: "mem \<Rightarrow> nat \<Rightarrow> nat \<Rightarrow> nat \<Rightarrow> nat" where
  "strnlen_loop m string maxlen len =
     (if m (string + len) \<noteq> NUL \<and> len < maxlen
      then strnlen_loop m string maxlen (len + 1) else len)"
  by pat_completeness auto
termination
  by (relation "measure (\<lambda>(m, string, maxlen, len). maxlen - len)") auto

definition strnlen :: "mem \<Rightarrow> nat \<Rightarrow> nat \<Rightarrow> nat" where
  "strnlen m string maxlen = strnlen_loop m string maxlen 0"

fun strstr_loop :: "mem \<Rightarrow> nat \<Rightarrow> nat \<Rightarrow> nat \<Rightarrow> nat list \<Rightarrow> nat result" where
  "strstr_loop m haystack needle needle_len [] = Inr 0"
| "strstr_loop m haystack needle needle_len (i # is) =
     rbind (memcmp m (haystack + i) needle needle_len) (\<lambda>r.
       if r = 0 then Inr (haystack + i)
       else strstr_loop m haystack needle needle_len is)"

definition strstr :: "mem \<Rightarrow> nat \<Rightarrow> nat \<Rightarrow> nat result" where
  "strstr m haystack needle =
     rbind (strlen m haystack) (\<lambda>haystack_len.
     rbind (strlen m needle) (\<lambda>needle_len.
       if haystack_len \<ge> needle_len
       then strstr_loop m haystack needle needle_len [0..<haystack_len - needle_len + 1]
       else Inr 0))"

partial_function (option) skip_delimiters :: "mem \<Rightarrow> nat \<Rightarrow> nat \<Rightarrow> (nat \<times> bool) result option" where
  "skip_delimiters m delimiters s =
     (case strchr m delimiters (m s) of
        Inl e \<Rightarrow> Some (Inl e)
      | Inr p \<Rightarrow>
          if p \<noteq> 0 then
            (if m s = NUL then Some (Inr (s, True)) else skip_delimiters m delimiters (s + 1))
          else Some (Inr (s, False)))"

partial_function (option) skip_token :: "mem \<Rightarrow> nat \<Rightarrow> nat \<Rightarrow> nat result option" where
  "skip_token m delimiters s =
     (case strchr m delimiters (m s) of
        Inl e \<Rightarrow> Some (Inl e)
      | Inr p \<Rightarrow> if p = 0 then skip_token m delimiters (s + 1) else Some (Inr s))"

text \<open>
  \<open>strtok_r m s delimiters save\<close> returns the memory, the token pointer (0 for \<^verbatim>\<open>NULL\<close>) and the
  new value of \<^verbatim>\<open>*save_ptr\<close>. The variable that \<^verbatim>\<open>save_ptr\<close> points to is passed by value, so the
  source's \<^verbatim>\<open>ASSERT (save_ptr != NULL)\<close> has no counterpart.
\<close>

definition strtok_r :: "mem \<Rightarrow> nat \<Rightarrow> nat \<Rightarrow> nat \<Rightarrow> (mem \<times> nat \<times> nat) result" where
  "strtok_r m s delimiters save =
     c_assert (delimiters \<noteq> 0)
      (let s = (if s = 0 then save else s) in
       c_assert (s \<noteq> 0)
        (rbind (returns (skip_delimiters m delimiters s)) (\<lambda>(s, at_end).
           if at_end then Inr (m, 0, s)
           else
             let token = s in
             rbind (returns (skip_token m delimiters s)) (\<lambda>s.
               if m s \<noteq> NUL then Inr (m(s := NUL), token, s + 1)
               else Inr (m, token, s)))))"

definition strlcpy :: "mem \<Rightarrow> nat \<Rightarrow> nat \<Rightarrow> nat \<Rightarrow> (mem \<times> nat) result" where
  "strlcpy m dst src sz =
     c_assert (dst \<noteq> 0)
      (c_assert (src \<noteq> 0)
        (rbind (strlen m src) (\<lambda>src_len.
           if sz > 0 then
             let dst_len = (if src_len < sz - 1 then src_len else sz - 1) in
             rbind (memcpy m dst src dst_len) (\<lambda>(m, _).
               Inr (m(dst + dst_len := NUL), src_len))
           else Inr (m, src_len))))"

definition strlcat :: "mem \<Rightarrow> nat \<Rightarrow> nat \<Rightarrow> nat \<Rightarrow> (mem \<times> nat) result" where
  "strlcat m dst src sz =
     c_assert (dst \<noteq> 0)
      (c_assert (src \<noteq> 0)
        (rbind (strlen m src) (\<lambda>src_len.
         rbind (strlen m dst) (\<lambda>dst_len.
           if sz > 0 \<and> dst_len < sz then
             let copy_cnt = (if src_len < sz - dst_len - 1 then src_len else sz - dst_len - 1) in
             rbind (memcpy m (dst + dst_len) src copy_cnt) (\<lambda>(m, _).
               Inr (m(dst + dst_len + copy_cnt := NUL), src_len + dst_len))
           else Inr (m, src_len + dst_len)))))"

declare strcmp_loop.simps [code] strchr_loop.simps [code] strcspn_loop.simps [code]
  strpbrk_loop.simps [code] strrchr_loop.simps [code] strspn_loop.simps [code]
  strlen_loop.simps [code] skip_delimiters.simps [code] skip_token.simps [code]

declare strnlen_loop.simps [simp del]

subsection \<open>Strings in memory\<close>

primrec cstr :: "mem \<Rightarrow> nat \<Rightarrow> string \<Rightarrow> bool" where
  "cstr m p [] \<longleftrightarrow> m p = NUL"
| "cstr m p (c # cs) \<longleftrightarrow> m p = c \<and> c \<noteq> NUL \<and> cstr m (p + 1) cs"

definition bytes :: "mem \<Rightarrow> nat \<Rightarrow> nat \<Rightarrow> char list" where
  "bytes m p n = map (\<lambda>i. m (p + i)) [0..<n]"


lemma cstr_iff:
  "cstr m p s \<longleftrightarrow> (\<forall>i<length s. m (p + i) = s ! i) \<and> NUL \<notin> set s \<and> m (p + length s) = NUL"
  by (induction s arbitrary: p) (auto simp: All_less_Suc2 nth_Cons split: nat.splits)

lemma cstr_cong:
  "(\<And>i. i \<le> length s \<Longrightarrow> m (p + i) = m' (p + i)) \<Longrightarrow> cstr m p s = cstr m' p s"
  by (auto simp: cstr_iff)

lemma cstr_upd_outside [simp]:
  "q < p \<or> p + length s < q \<Longrightarrow> cstr (m(q := c)) p s = cstr m p s"
  by (rule cstr_cong) auto

lemma cstr_append:
  "cstr m p (s @ t) \<longleftrightarrow> (\<forall>i<length s. m (p + i) = s ! i) \<and> NUL \<notin> set s \<and> cstr m (p + length s) t"
  by (induction s arbitrary: p) (auto simp: All_less_Suc2 nth_Cons split: nat.splits)

lemma cstr_unique: "cstr m p s \<Longrightarrow> cstr m p t \<Longrightarrow> s = t"
proof (induction s arbitrary: p t)
  case Nil
  then show ?case by (cases t) auto
next
  case (Cons c s)
  then show ?case by (cases t) auto
qed

lemma bytes_nth [simp]: "i < n \<Longrightarrow> bytes m p n ! i = m (p + i)"
  by (simp add: bytes_def)

lemma length_bytes [simp]: "length (bytes m p n) = n"
  by (simp add: bytes_def)

lemma bytes_0 [simp]: "bytes m p 0 = []"
  by (simp add: bytes_def)

lemma bytes_Suc: "bytes m p (Suc n) = m p # bytes m (p + 1) n"
  by (rule nth_equalityI) (auto simp: nth_Cons split: nat.splits)

lemma bytes_eq_iff: "bytes m a n = bytes m' b n \<longleftrightarrow> (\<forall>i<n. m (a + i) = m' (b + i))"
  by (auto simp: list_eq_iff_nth_eq)

subsection \<open>Block operations\<close>

lemma snd_copy_up [simp]: "snd (copy_up n m d s) = d + n"
  by (induction n arbitrary: m d s) simp_all

lemma snd_copy_down: "n \<le> d \<Longrightarrow> snd (copy_down n m d s) = d - n"
  by (induction n arbitrary: m d s) simp_all

lemma copy_up_mem:
  "d \<le> s \<or> s + n \<le> d \<Longrightarrow>
   fst (copy_up n m d s) x = (if d \<le> x \<and> x < d + n then m (s + (x - d)) else m x)"
proof (induction n arbitrary: m d s)
  case 0
  then show ?case by auto
next
  case (Suc n)
  then have "Suc d \<le> Suc s \<or> Suc s + n \<le> Suc d" by auto
  note IH = Suc.IH [OF this, of "m(d := m s)"]
  show ?case
  proof (cases "d < x")
    case True
    then have "Suc s + (x - Suc d) = s + (x - d)" by simp
    with True Suc.prems show ?thesis by (auto simp: IH)
  next
    case False
    with Suc.prems show ?thesis by (auto simp: IH)
  qed
qed

lemma copy_down_mem:
  "s \<le> d \<Longrightarrow>
   fst (copy_down n m (d + n) (s + n)) x = (if d \<le> x \<and> x < d + n then m (s + (x - d)) else m x)"
  by (induction n arbitrary: m) auto

lemma memcpy_eq:
  "(dst \<noteq> 0 \<and> src \<noteq> 0) \<or> n = 0 \<Longrightarrow>
   memcpy m dst src n = Inr (fst (copy_up n m dst src), dst)"
  by (auto simp: memcpy_def)

lemma memmove_eq:
  assumes "dst \<noteq> 0" "src \<noteq> 0"
  shows "memmove m dst src n =
    Inr (\<lambda>x. if dst \<le> x \<and> x < dst + n then m (src + (x - dst)) else m x,
         if dst < src then dst + n else dst)"
  using assms
  by (auto simp: memmove_def prod_eq_iff fun_eq_iff copy_up_mem copy_down_mem snd_copy_down)

lemma memset_loop_mem:
  "memset_loop n m d v x = (if d \<le> x \<and> x < d + n then v else m x)"
  by (induction n arbitrary: m d) auto

lemma memcmp_loop_cases:
  "memcmp_loop n m a b = 0 \<and> bytes m a n = bytes m b n
   \<or> (\<exists>k<n. bytes m a k = bytes m b k \<and> m (a + k) \<noteq> m (b + k)
        \<and> memcmp_loop n m a b = (if uchar (m (a + k)) > uchar (m (b + k)) then 1 else - 1))"
proof (induction n arbitrary: a b)
  case 0
  then show ?case by (simp add: bytes_def)
next
  case (Suc n)
  show ?case
  proof (cases "m a = m b")
    case False
    then show ?thesis by (intro disjI2 exI [of _ 0]) (simp add: bytes_def)
  next
    case True
    from Suc.IH [of "a + 1" "b + 1"] show ?thesis
    proof (elim disjE exE conjE)
      fix k
      assume k: "k < n" "bytes m (a + 1) k = bytes m (b + 1) k" "m (a + 1 + k) \<noteq> m (b + 1 + k)"
        "memcmp_loop n m (a + 1) (b + 1) = (if uchar (m (a + 1 + k)) > uchar (m (b + 1 + k)) then 1 else - 1)"
      then show ?thesis
        using True by (intro disjI2 exI [of _ "Suc k"]) (simp add: bytes_Suc)
    qed (use True in \<open>simp add: bytes_Suc\<close>)
  qed
qed

lemma memcmp_loop_eq_0: "memcmp_loop n m a b = 0 \<longleftrightarrow> bytes m a n = bytes m b n"
  by (induction n arbitrary: a b) (auto simp: bytes_Suc)


subsection \<open>String operations\<close>

lemma strlen_loop_cstr: "cstr m p s \<Longrightarrow> string \<le> p \<Longrightarrow> strlen_loop m string p = Some (Inr (p + length s - string))"
  by (induction s arbitrary: p) (auto simp: strlen_loop.simps)

lemma strlen_cstr: "cstr m p s \<Longrightarrow> p \<noteq> 0 \<Longrightarrow> strlen m p = Inr (length s)"
  by (simp add: strlen_def strlen_loop_cstr)

lemma strnlen_loop_cstr:
  "cstr m p s \<Longrightarrow> len \<le> length s \<Longrightarrow> len \<le> n \<Longrightarrow> strnlen_loop m p n len = min (length s) n"
proof (induction m p n len rule: strnlen_loop.induct)
  case (1 m p n len)
  show ?case
  proof (cases "m (p + len) \<noteq> NUL \<and> len < n")
    case True
    with "1.prems" have "len < length s" by (auto simp: cstr_iff le_less)
    with True "1.IH" "1.prems" show ?thesis by (simp add: strnlen_loop.simps [of m p n len])
  next
    case False
    with "1.prems" have "len = length s \<or> len = n"
      by (auto simp: cstr_iff le_less) (metis nth_mem)
    with False "1.prems" show ?thesis by (auto simp: strnlen_loop.simps [of m p n len])
  qed
qed

lemma strchr_loop_cstr:
  "cstr m p s \<Longrightarrow> strchr_loop m p c =
     Some (Inr (if c \<in> set s \<or> c = NUL then p + length (takeWhile (\<lambda>x. x \<noteq> c) s) else 0))"
proof (induction s arbitrary: p)
  case Nil
  then show ?case by (simp add: strchr_loop.simps)
next
  case (Cons a s)
  then show ?case by (subst strchr_loop.simps) auto
qed

lemma strchr_cstr:
  "cstr m p s \<Longrightarrow> p \<noteq> 0 \<Longrightarrow> strchr m p c =
     Inr (if c \<in> set s \<or> c = NUL then p + length (takeWhile (\<lambda>x. x \<noteq> c) s) else 0)"
  by (simp add: strchr_def strchr_loop_cstr)

text \<open>Whether a character is one of the delimiters, the null byte included.\<close>

lemma strchr_found:
  assumes "cstr m p s" "p \<noteq> 0"
  shows "\<exists>q. strchr m p c = Inr q \<and> (q \<noteq> 0 \<longleftrightarrow> c \<in> set s \<or> c = NUL)"
  using assms by (auto simp: strchr_cstr)

lemma uchar_pos: "0 < uchar c \<longleftrightarrow> c \<noteq> NUL"
proof -
  have "uchar c = 0 \<longleftrightarrow> c = NUL"
    using of_char_eq_iff [of c NUL, where 'a = nat] by (simp del: of_char_eq_iff)
  then show ?thesis by (metis neq0_conv)
qed

lemma strcmp_loop_cstr:
  assumes "cstr m a s" "cstr m b t"
  shows "\<exists>r. strcmp_loop m a b = Some (Inr r) \<and> (r = 0 \<longleftrightarrow> s = t)
    \<and> (r < 0 \<longleftrightarrow> (s, t) \<in> lexord {(x, y). uchar x < uchar y})"
  using assms
proof (induction s arbitrary: a b t)
  case Nil
  then show ?case
    by (cases t) (auto simp: strcmp_loop.simps [of m a b] uchar_pos)
next
  case (Cons c s)
  show ?case
  proof (cases t)
    case Nil
    with Cons.prems show ?thesis
      by (auto simp: strcmp_loop.simps [of m a b] uchar_pos)
  next
    case t: (Cons d t')
    show ?thesis
    proof (cases "c = d")
      case True
      from Cons.IH [of "a + 1" "b + 1" t'] Cons.prems t
      obtain r where "strcmp_loop m (a + 1) (b + 1) = Some (Inr r)" "r = 0 \<longleftrightarrow> s = t'"
        "r < 0 \<longleftrightarrow> (s, t') \<in> lexord {(x, y). uchar x < uchar y}" by auto
      with True Cons.prems t show ?thesis
        by (intro exI [of _ r]) (simp add: strcmp_loop.simps [of m a b])
    next
      case False
      then have "uchar c \<noteq> uchar d" by simp
      with False Cons.prems t show ?thesis
        by (auto simp: strcmp_loop.simps [of m a b])
    qed
  qed
qed

lemma strspn_loop_cstr:
  assumes "cstr m p (t @ s)" "cstr m q skip" "q \<noteq> 0"
  shows "strspn_loop m p q (length t) = Some (Inr (length t + length (takeWhile (\<lambda>c. c \<in> set skip) s)))"
  using assms
proof (induction s arbitrary: t)
  case Nil
  then show ?case by (simp add: cstr_iff strspn_loop.simps)
next
  case (Cons c s)
  have c: "m (p + length t) = c" "c \<noteq> NUL" using Cons.prems(1) by (simp_all add: cstr_append)
  have IH: "strspn_loop m p q (length (t @ [c])) =
      Some (Inr (length (t @ [c]) + length (takeWhile (\<lambda>c. c \<in> set skip) s)))"
    using Cons.prems by (intro Cons.IH) simp_all
  from strchr_found [OF Cons.prems(2,3), of c] obtain r
    where "strchr m q c = Inr r" "r \<noteq> 0 \<longleftrightarrow> c \<in> set skip" using c by auto
  with c IH show ?case by (subst strspn_loop.simps) simp
qed

lemma strcspn_loop_cstr:
  assumes "cstr m p (t @ s)" "cstr m q stop" "q \<noteq> 0"
  shows "strcspn_loop m p q (length t) = Some (Inr (length t + length (takeWhile (\<lambda>c. c \<notin> set stop) s)))"
  using assms
proof (induction s arbitrary: t)
  case Nil
  then show ?case by (simp add: cstr_iff strcspn_loop.simps)
next
  case (Cons c s)
  have c: "m (p + length t) = c" "c \<noteq> NUL" using Cons.prems(1) by (simp_all add: cstr_append)
  have IH: "strcspn_loop m p q (length (t @ [c])) =
      Some (Inr (length (t @ [c]) + length (takeWhile (\<lambda>c. c \<notin> set stop) s)))"
    using Cons.prems by (intro Cons.IH) simp_all
  from strchr_found [OF Cons.prems(2,3), of c] obtain r
    where "strchr m q c = Inr r" "r \<noteq> 0 \<longleftrightarrow> c \<in> set stop" using c by auto
  with c IH show ?case by (subst strcspn_loop.simps) simp
qed

subsection \<open>Tokens\<close>

lemma skip_delimiters_cstr:
  assumes "cstr m s str" "cstr m d delims" "d \<noteq> 0"
  shows "skip_delimiters m d s =
    Some (Inr (s + length (takeWhile (\<lambda>c. c \<in> set delims) str),
               dropWhile (\<lambda>c. c \<in> set delims) str = []))"
  using assms
proof (induction str arbitrary: s)
  case Nil
  from strchr_found [OF Nil.prems(2,3), of NUL] Nil.prems(1) show ?case
    by (subst skip_delimiters.simps) auto
next
  case (Cons c str)
  then have c: "m s = c" "c \<noteq> NUL" "cstr m (s + 1) str" by simp_all
  from strchr_found [OF Cons.prems(2,3), of c] obtain r
    where "strchr m d c = Inr r" "r \<noteq> 0 \<longleftrightarrow> c \<in> set delims" using c by auto
  with c Cons.IH [OF c(3) Cons.prems(2,3)] show ?case
    by (subst skip_delimiters.simps) auto
qed

lemma skip_token_cstr:
  assumes "cstr m s str" "cstr m d delims" "d \<noteq> 0"
  shows "skip_token m d s = Some (Inr (s + length (takeWhile (\<lambda>c. c \<notin> set delims) str)))"
  using assms
proof (induction str arbitrary: s)
  case Nil
  from strchr_found [OF Nil.prems(2,3), of NUL] Nil.prems(1) show ?case
    by (subst skip_token.simps) auto
next
  case (Cons c str)
  then have c: "m s = c" "c \<noteq> NUL" "cstr m (s + 1) str" by simp_all
  from strchr_found [OF Cons.prems(2,3), of c] obtain r
    where "strchr m d c = Inr r" "r \<noteq> 0 \<longleftrightarrow> c \<in> set delims" using c by auto
  with c Cons.IH [OF c(3) Cons.prems(2,3)] show ?case
    by (subst skip_token.simps) auto
qed


definition next_token :: "char set \<Rightarrow> string \<Rightarrow> string" where
  "next_token D str = takeWhile (\<lambda>c. c \<notin> D) (dropWhile (\<lambda>c. c \<in> D) str)"

definition after_token :: "char set \<Rightarrow> string \<Rightarrow> string" where
  "after_token D str = dropWhile (\<lambda>c. c \<notin> D) (dropWhile (\<lambda>c. c \<in> D) str)"

lemma token_split:
  "str = takeWhile (\<lambda>c. c \<in> D) str @ next_token D str @ after_token D str"
  by (simp add: next_token_def after_token_def)

lemma next_token_eq_Nil: "next_token D str = [] \<longleftrightarrow> set str \<subseteq> D"
proof (cases "dropWhile (\<lambda>c. c \<in> D) str")
  case Nil
  then have "set str \<subseteq> D" by (auto simp: dropWhile_eq_Nil_conv)
  with Nil show ?thesis by (simp only: next_token_def takeWhile.simps simp_thms)
next
  case (Cons c cs)
  then have "c \<notin> D" using hd_dropWhile [of "\<lambda>c. c \<in> D" str] by simp
  moreover have "c \<in> set str" using Cons by (metis list.set_intros(1) set_dropWhileD)
  ultimately show ?thesis by (auto simp: next_token_def Cons)
qed

lemma next_token_no_delim: "c \<in> set (next_token D str) \<Longrightarrow> c \<notin> D"
  by (auto simp: next_token_def dest: set_takeWhileD)

lemma strtok_r_end:
  assumes "cstr m s str" "cstr m d delims" "d \<noteq> 0" "s \<noteq> 0"
    and "(if s0 = 0 then save else s0) = s" "next_token (set delims) str = []"
  shows "strtok_r m s0 d save = Inr (m, 0, s + length str)"
proof -
  have D: "set str \<subseteq> set delims" using assms(6) by (simp add: next_token_eq_Nil)
  then have "takeWhile (\<lambda>c. c \<in> set delims) str = str"
    by (auto simp: takeWhile_eq_all_conv)
  then have "length (takeWhile (\<lambda>c. c \<in> set delims) str) = length str"
    by (rule arg_cong)
  moreover have "dropWhile (\<lambda>c. c \<in> set delims) str = []"
    using D by (auto simp: dropWhile_eq_Nil_conv)
  ultimately show ?thesis
    using assms(3-5) skip_delimiters_cstr [OF assms(1-3)] by (simp add: strtok_r_def Let_def)
qed

lemma strtok_r_token:
  assumes "cstr m s str" "cstr m d delims" "d \<noteq> 0" "s \<noteq> 0"
    and "(if s0 = 0 then save else s0) = s"
    and tok: "tok = next_token (set delims) str" "tok \<noteq> []"
    and rest: "rest = after_token (set delims) str"
    and p: "p = s + length (takeWhile (\<lambda>c. c \<in> set delims) str)"
  shows "strtok_r m s0 d save =
    (if rest = [] then Inr (m, p, p + length tok)
     else Inr (m(p + length tok := NUL), p, p + length tok + 1))"
proof -
  let ?D = "set delims"
  have split: "str = takeWhile (\<lambda>c. c \<in> ?D) str @ tok @ rest"
    unfolding tok rest by (rule token_split)
  have "cstr m s (takeWhile (\<lambda>c. c \<in> ?D) str @ tok @ rest)"
    using assms(1) split by simp
  then have cp: "cstr m p (tok @ rest)" by (simp add: cstr_append p)
  then have cr: "cstr m (p + length tok) rest" by (simp add: cstr_append)
  have dw: "dropWhile (\<lambda>c. c \<in> ?D) str = tok @ rest"
    by (simp add: tok rest next_token_def after_token_def)
  have tw: "takeWhile (\<lambda>c. c \<notin> ?D) (tok @ rest) = tok"
    using dw by (simp add: tok next_token_def)
  have "skip_token m d p = Some (Inr (p + length tok))"
    using skip_token_cstr [OF cp assms(2,3)] tw by simp
  moreover have "skip_delimiters m d s = Some (Inr (p, False))"
    using skip_delimiters_cstr [OF assms(1-3)] dw tok(2) by (simp add: p)
  moreover have "m (p + length tok) = NUL \<longleftrightarrow> rest = []"
    using cr by (cases rest) auto
  ultimately show ?thesis
    using assms(3-5) by (simp add: strtok_r_def Let_def)
qed

lemma strstr_loop_eq:
  assumes "nd \<noteq> 0" "h \<noteq> 0"
  shows "strstr_loop m h nd n is =
    Inr (case find (\<lambda>i. bytes m (h + i) n = bytes m nd n) is of None \<Rightarrow> 0 | Some i \<Rightarrow> h + i)"
  using assms by (induction "is") (auto simp: memcmp_def memcmp_loop_eq_0)

lemma find_upt:
  "find P [i..<n] = (if \<exists>j. i \<le> j \<and> j < n \<and> P j then Some (LEAST j. i \<le> j \<and> j < n \<and> P j) else None)"
proof (induction "n - i" arbitrary: i)
  case 0
  then show ?case by auto
next
  case (Suc k)
  then have i: "i < n" by simp
  show ?case
  proof (cases "P i")
    case True
    with i have "(LEAST j. i \<le> j \<and> j < n \<and> P j) = i"
      by (intro Least_equality) auto
    with True i show ?thesis by (auto simp: upt_conv_Cons)
  next
    case False
    then have eq: "(\<lambda>j. i \<le> j \<and> j < n \<and> P j) = (\<lambda>j. Suc i \<le> j \<and> j < n \<and> P j)"
      by (auto simp: fun_eq_iff Suc_le_eq le_less)
    have "find P [i..<n] = find P [Suc i..<n]"
      using False i by (simp add: upt_conv_Cons)
    also have "\<dots> = (if \<exists>j. Suc i \<le> j \<and> j < n \<and> P j
        then Some (LEAST j. Suc i \<le> j \<and> j < n \<and> P j) else None)"
      using Suc by simp
    finally show ?thesis by (simp only: eq)
  qed
qed

lemma bytes_cstr:
  assumes "cstr m p s" "i + n \<le> length s"
  shows "bytes m (p + i) n = take n (drop i s)"
  using assms by (intro nth_equalityI) (auto simp: cstr_iff add.assoc)

subsection \<open>What the library promises\<close>

text \<open>\<^verbatim>\<open>memmove\<close> moves a block correctly for every overlap of source and destination; the value
  it returns is the destination only when the copy runs downwards, else one past the
  destination block.\<close>

theorem memmove_moves:
  assumes "dst \<noteq> 0" "src \<noteq> 0"
  shows "\<exists>m'. memmove m dst src n = Inr (m', if dst < src then dst + n else dst)
    \<and> bytes m' dst n = bytes m src n
    \<and> (\<forall>x. x < dst \<or> dst + n \<le> x \<longrightarrow> m' x = m x)"
  using assms by (auto simp: memmove_eq bytes_eq_iff)

theorem strlcpy_copies:
  assumes "cstr m src s" "dst \<noteq> 0" "src \<noteq> 0" "sz > 0"
    and "dst + min (length s) (sz - 1) < src \<or> src + length s < dst"
  shows "\<exists>m'. strlcpy m dst src sz = Inr (m', length s)
    \<and> cstr m' dst (take (sz - 1) s)
    \<and> (\<forall>x. x < dst \<or> dst + min (length s) (sz - 1) < x \<longrightarrow> m' x = m x)"
proof -
  let ?n = "min (length s) (sz - 1)"
  define m' where "m' = (fst (copy_up ?n m dst src))(dst + ?n := NUL)"
  have ov: "dst \<le> src \<or> src + ?n \<le> dst" using assms(5) by auto
  have "strlcpy m dst src sz = Inr (m', length s)"
    using assms(2-4) strlen_cstr [OF assms(1,3)]
    by (simp add: strlcpy_def memcpy_eq m'_def min_def Let_def)
  moreover have "cstr m' dst (take (sz - 1) s)"
    using assms(1) by (auto simp: cstr_iff m'_def copy_up_mem [OF ov] simp del: One_nat_def dest: in_set_takeD)
  ultimately show ?thesis
    using ov by (intro exI [of _ m']) (auto simp: m'_def copy_up_mem)
qed

theorem strtok_r_splits:
  assumes "cstr m s str" "cstr m d delims" "d \<noteq> 0" "s \<noteq> 0"
    and "(if s0 = 0 then save else s0) = s"
  shows "if set str \<subseteq> set delims then strtok_r m s0 d save = Inr (m, 0, s + length str)
    else \<exists>m' token save'. strtok_r m s0 d save = Inr (m', token, save')
      \<and> token \<noteq> 0 \<and> cstr m' token (next_token (set delims) str)
      \<and> cstr m' save' (tl (after_token (set delims) str))
      \<and> s \<le> token \<and> token < save' \<and> save' + length (tl (after_token (set delims) str)) = s + length str
      \<and> (\<forall>x. x < s \<or> s + length str < x \<longrightarrow> m' x = m x)"
proof (cases "set str \<subseteq> set delims")
  case True
  then show ?thesis using strtok_r_end [OF assms] by (simp add: next_token_eq_Nil)
next
  case False
  define tok rest p where "tok = next_token (set delims) str" and "rest = after_token (set delims) str"
    and "p = s + length (takeWhile (\<lambda>c. c \<in> set delims) str)"
  have ne: "tok \<noteq> []" using False by (simp add: tok_def next_token_eq_Nil)
  note r = strtok_r_token [OF assms tok_def ne rest_def p_def]
  have split: "str = takeWhile (\<lambda>c. c \<in> set delims) str @ tok @ rest"
    unfolding tok_def rest_def by (rule token_split)
  then have len: "s + length str = p + length tok + length rest"
    by (metis add.assoc length_append p_def)
  have "cstr m s (takeWhile (\<lambda>c. c \<in> set delims) str @ tok @ rest)"
    using assms(1) split by simp
  then have cp: "cstr m p (tok @ rest)" by (simp add: cstr_append p_def)
  show ?thesis
  proof (cases rest)
    case Nil
    with cp have "m (p + length tok) = NUL" by (simp add: cstr_iff)
    with Nil r cp len ne assms(4) False show ?thesis
      by (auto simp: tok_def [symmetric] rest_def [symmetric] p_def)
  next
    case (Cons c rest')
    have "cstr (m(p + length tok := NUL)) p tok"
      using cp by (auto simp: cstr_iff nth_append)
    moreover have "cstr (m(p + length tok := NUL)) (p + length tok + 1) rest'"
      using cp Cons by (simp add: cstr_append)
    ultimately show ?thesis
      using Cons r len ne assms(4) False
      by (auto simp: tok_def [symmetric] rest_def [symmetric] p_def)
  qed
qed

theorem strstr_finds_first:
  assumes "cstr m h hs" "cstr m n ns" "h \<noteq> 0" "n \<noteq> 0"
  shows "strstr m h n =
    Inr (if \<exists>i. i + length ns \<le> length hs \<and> take (length ns) (drop i hs) = ns
         then h + (LEAST i. i + length ns \<le> length hs \<and> take (length ns) (drop i hs) = ns) else 0)"
proof (cases "length ns \<le> length hs")
  case False
  then show ?thesis
    using strlen_cstr [OF assms(1,3)] strlen_cstr [OF assms(2,4)] by (auto simp: strstr_def)
next
  case True
  let ?P = "\<lambda>i. i + length ns \<le> length hs \<and> take (length ns) (drop i hs) = ns"
  have nb: "bytes m n (length ns) = ns"
    using bytes_cstr [OF assms(2), of 0 "length ns"] by simp
  have "(\<lambda>j. 0 \<le> j \<and> j < length hs - length ns + 1 \<and> bytes m (h + j) (length ns) = bytes m n (length ns)) = ?P"
  proof
    fix j
    show "(0 \<le> j \<and> j < length hs - length ns + 1 \<and> bytes m (h + j) (length ns) = bytes m n (length ns)) = ?P j"
      using True bytes_cstr [OF assms(1), of j "length ns"] by (auto simp: nb)
  qed
  with True show ?thesis
    using strlen_cstr [OF assms(1,3)] strlen_cstr [OF assms(2,4)]
    by (auto simp: strstr_def strstr_loop_eq [OF assms(4,3)] find_upt simp del: upt_Suc)
qed


subsection \<open>Memories that hold given strings\<close>

definition put_string :: "nat \<Rightarrow> string \<Rightarrow> mem \<Rightarrow> mem" where
  "put_string p s m =
     (\<lambda>x. if p \<le> x \<and> x < p + length s then s ! (x - p) else if x = p + length s then NUL else m x)"

lemma cstr_put_string: "NUL \<notin> set s \<Longrightarrow> cstr (put_string p s m) p s"
  by (auto simp: cstr_iff put_string_def)

lemma cstr_put_string_other:
  "q + length t < p \<or> p + length s < q \<Longrightarrow> cstr (put_string q t m) p s = cstr m p s"
  by (rule cstr_cong) (auto simp: put_string_def)

lemmas put_string_simps = cstr_put_string cstr_put_string_other

end
