(* ===== verification/Warehouse_Map.thy ===== *)
theory Warehouse_Map
  imports Prelude
begin

text \<open>
  The fixed floor plan, from \<^verbatim>\<open>projects/automated_warehouse/aw_manager.h\<close> and \<^verbatim>\<open>aw_manager.c\<close>: the
  named places, the seven by seven map, and what each cell is. Letters \<open>A\<close>, \<open>B\<close>, \<open>C\<close> are unloading
  places and \<open>W\<close> is the waiting place, the four places several robots may share; digits are the
  shelves; \<open>X\<close> is a wall.
\<close>

definition ROW_A :: int where [simp]: "ROW_A = 1"
definition COL_A :: int where [simp]: "COL_A = 0"
definition ROW_B :: int where [simp]: "ROW_B = 3"
definition COL_B :: int where [simp]: "COL_B = 0"
definition ROW_C :: int where [simp]: "ROW_C = 5"
definition COL_C :: int where [simp]: "COL_C = 0"
definition ROW_S :: int where [simp]: "ROW_S = 5"
definition COL_S :: int where [simp]: "COL_S = 5"
definition ROW_W :: int where [simp]: "ROW_W = 6"
definition COL_W :: int where [simp]: "COL_W = 5"

definition MAP_WIDTH :: int where [simp]: "MAP_WIDTH = 7"
definition MAP_HEIGHT :: int where [simp]: "MAP_HEIGHT = 7"

definition map_draw_default :: "string list" where
  "map_draw_default =
    [''XXXXXXX'',
     ''A  7  X'',
     ''X 1X4 X'',
     ''B 2X5 X'',
     ''X 3X6 X'',
     ''C    SX'',
     ''XXXXXWX'']"

text \<open>The array access \<^verbatim>\<open>map_draw_default[row][col]\<close>.\<close>

definition map_cell :: "int \<Rightarrow> int \<Rightarrow> char" where
  "map_cell row col = map_draw_default ! nat row ! nat col"

text \<open>The order in which the nested loops over rows and columns visit the cells.\<close>

definition map_cells :: "(int \<times> int) list" where
  "map_cells = List.product [0..MAP_HEIGHT - 1] [0..MAP_WIDTH - 1]"

definition on_map :: "int \<Rightarrow> int \<Rightarrow> bool" where
  "on_map row col \<longleftrightarrow> 0 \<le> row \<and> row < MAP_HEIGHT \<and> 0 \<le> col \<and> col < MAP_WIDTH"

lemma set_map_cells: "(r, c) \<in> set map_cells \<longleftrightarrow> on_map r c"
  by (auto simp: map_cells_def on_map_def)

lemma map_cells_eq:
  "map_cells = [(0,0),(0,1),(0,2),(0,3),(0,4),(0,5),(0,6),
    (1,0),(1,1),(1,2),(1,3),(1,4),(1,5),(1,6), (2,0),(2,1),(2,2),(2,3),(2,4),(2,5),(2,6),
    (3,0),(3,1),(3,2),(3,3),(3,4),(3,5),(3,6), (4,0),(4,1),(4,2),(4,3),(4,4),(4,5),(4,6),
    (5,0),(5,1),(5,2),(5,3),(5,4),(5,5),(5,6), (6,0),(6,1),(6,2),(6,3),(6,4),(6,5),(6,6)]"
  by (simp add: map_cells_def upto.simps)

lemma on_map_iff:
  "on_map r c \<longleftrightarrow> r \<in> {0, 1, 2, 3, 4, 5, 6} \<and> c \<in> {0, 1, 2, 3, 4, 5, 6}"
  by (auto simp: on_map_def)

lemma length_map_cells: "length map_cells = 49"
  by (simp add: map_cells_eq)

lemma map_shape:
  "length map_draw_default = nat MAP_HEIGHT"
  "\<forall>line \<in> set map_draw_default. length line = nat MAP_WIDTH"
  by (simp_all add: map_draw_default_def)

text \<open>A cell's number \<^verbatim>\<open>row * MAP_WIDTH + col\<close> determines it.\<close>

lemma cell_number_div:
  assumes "on_map r c"
  shows "(r * MAP_WIDTH + c) sdiv MAP_WIDTH = r" "(r * MAP_WIDTH + c) smod MAP_WIDTH = c"
  using assms by (simp_all add: sdiv_nonneg smod_nonneg on_map_def)

lemma cell_number_inj:
  "on_map r c \<Longrightarrow> on_map r' c' \<Longrightarrow> r * MAP_WIDTH + c = r' * MAP_WIDTH + c' \<longleftrightarrow> r = r' \<and> c = c'"
  by (metis cell_number_div)

lemma cell_number_nonneg: "on_map r c \<Longrightarrow> 0 \<le> r * MAP_WIDTH + c"
  by (simp add: on_map_def)

end
