(* ===== verification/Robot.thy ===== *)
theory Robot
  imports C_String Warehouse_Map
begin

text \<open>
  Robots and their tasks, from \<^verbatim>\<open>projects/automated_warehouse/robot.h\<close> and \<^verbatim>\<open>robot.c\<close>. A robot's
  record keeps the source's fields; \<open>robot_name\<close> is \<open>None\<close> for the null pointer. The task string
  is copied into a 256-byte buffer and cut at the colons with \<^const>\<open>strlcpy\<close> and \<^const>\<open>strtok_r\<close>.
\<close>

record robot =
  robot_name :: "string option"
  required_item :: char
  destination :: char
  robot_row :: int
  robot_col :: int
  required_payload :: int
  current_payload :: int
  task_completed :: int

definition setRobot ::
    "string option \<Rightarrow> char \<Rightarrow> char \<Rightarrow> int \<Rightarrow> int \<Rightarrow> int \<Rightarrow> int \<Rightarrow> int \<Rightarrow> robot" where
  "setRobot nam item dest row col required current completed =
     \<lparr>robot_name = nam, required_item = item, destination = dest, robot_row = row, robot_col = col,
      required_payload = required, current_payload = current, task_completed = completed\<rparr>"

text \<open>The robot that one task describes: both characters are read without a length check.\<close>

definition task_robot :: "char \<Rightarrow> char \<Rightarrow> robot" where
  "task_robot c0 c1 =
     (let item = schar c0 - schar (CHR ''0'') in
      setRobot None (to_char item) c1 ROW_W COL_W item 0 0)"

fun parse_loop ::
    "nat list \<Rightarrow> mem \<Rightarrow> nat \<Rightarrow> nat \<Rightarrow> nat \<Rightarrow> robot list \<Rightarrow> (mem \<times> robot list) result" where
  "parse_loop [] m colon task saveptr robots = Inr (m, robots)"
| "parse_loop (i # is) m colon task saveptr robots =
     (if task \<noteq> 0 then
        let robots = robots[i := task_robot (m task) (m (task + 1))] in
        rbind (strtok_r m 0 colon saveptr) (\<lambda>(m, task, saveptr).
          parse_loop is m colon task saveptr robots)
      else Inr (m, robots))"

text \<open>
  \<open>task_copy\<close> is the address of the local buffer, \<open>colon\<close> that of the string literal of
  delimiters; \<^verbatim>\<open>saveptr\<close> starts uninitialised and is written by the first call.
\<close>

definition parse_robot_tasks ::
    "mem \<Rightarrow> nat \<Rightarrow> nat \<Rightarrow> nat \<Rightarrow> robot list \<Rightarrow> int \<Rightarrow> (mem \<times> robot list) result" where
  "parse_robot_tasks m task_copy colon task_string robots num_robots =
     rbind (strlcpy m task_copy task_string 256) (\<lambda>(m, _).
     rbind (strtok_r m task_copy colon 0) (\<lambda>(m, task, saveptr).
       parse_loop [0..<nat num_robots] m colon task saveptr robots))"

text \<open>The tasks of a task string: its pieces between delimiters, empty pieces dropped.\<close>

function tokens :: "char set \<Rightarrow> string \<Rightarrow> string list" where
  "tokens D str =
     (if set str \<subseteq> D then [] else next_token D str # tokens D (tl (after_token D str)))"
  by pat_completeness auto
termination
proof (relation "measure (\<lambda>(D, str). length str)", goal_cases)
  case (2 D str)
  then have "next_token D str \<noteq> []" by (simp add: next_token_eq_Nil)
  moreover have "length str = length (takeWhile (\<lambda>c. c \<in> D) str @ next_token D str @ after_token D str)"
    using token_split [of str D] by simp
  ultimately show ?case by (cases "next_token D str") auto
qed simp

declare tokens.simps [simp del]

definition token_robot :: "string \<Rightarrow> robot" where
  "token_robot tok = task_robot (tok ! 0) (if length tok = 1 then NUL else tok ! 1)"

definition assign_tasks :: "string list \<Rightarrow> robot list \<Rightarrow> robot list" where
  "assign_tasks toks robots =
     map (\<lambda>i. if i < length toks then token_robot (toks ! i) else robots ! i) [0..<length robots]"


subsection \<open>Parsing\<close>

lemma cstr_first_two:
  assumes "cstr m p tok" "tok \<noteq> []"
  shows "task_robot (m p) (m (p + 1)) = token_robot tok"
  using assms by (cases tok; cases "tl tok") (auto simp: token_robot_def)

lemma parse_loop_done [simp]: "parse_loop is m colon 0 saveptr robots = Inr (m, robots)"
  by (cases "is") auto

lemma parse_loop_tokens:
  assumes "cstr m colon '':''" "colon \<noteq> 0" "saveptr \<noteq> 0" "task \<noteq> 0"
    and "cstr m task tok" "tok \<noteq> []" "cstr m saveptr rest"
    and "colon + 1 < saveptr \<or> saveptr + length rest < colon"
    and "toks = tok # tokens {CHR '':''} rest" "n \<le> length robots"
  shows "\<exists>m'. parse_loop [k..<n] m colon task saveptr robots =
    Inr (m', map (\<lambda>i. if k \<le> i \<and> i < n \<and> i - k < length toks then token_robot (toks ! (i - k)) else robots ! i)
               [0..<length robots])"
  using assms
proof (induction "n - k" arbitrary: k m task saveptr robots tok rest toks)
  case 0
  then have "[k..<n] = []" by simp
  then show ?case using 0 by (auto intro!: nth_equalityI)
next
  case (Suc d)
  then have k: "k < n" by simp
  let ?r1 = "robots[k := token_robot tok]"
  have two: "task_robot (m task) (m (task + 1)) = token_robot tok"
    using Suc.prems(5,6) by (rule cstr_first_two)
  have unfold: "parse_loop [k..<n] m colon task saveptr robots =
      rbind (strtok_r m 0 colon saveptr) (\<lambda>(m, task, saveptr).
        parse_loop [Suc k..<n] m colon task saveptr ?r1)"
    using k Suc.prems(4) two by (simp add: upt_conv_Cons)
  note split = strtok_r_splits [OF Suc.prems(7,1,2,3), of 0 saveptr]
  show ?case
  proof (cases "set rest \<subseteq> {CHR '':''}")
    case True
    then have "toks = [tok]" using Suc.prems(9) by (simp add: tokens.simps)
    moreover have "strtok_r m 0 colon saveptr = Inr (m, 0, saveptr + length rest)"
      using split True by simp
    ultimately show ?thesis
      using k Suc.prems(10) by (auto simp: unfold nth_list_update intro!: nth_equalityI)
  next
    case False
    with split obtain m' task' save' where r: "strtok_r m 0 colon saveptr = Inr (m', task', save')"
      "task' \<noteq> 0" "cstr m' task' (next_token {CHR '':''} rest)"
      "cstr m' save' (tl (after_token {CHR '':''} rest))" "saveptr \<le> task'" "task' < save'"
      "save' + length (tl (after_token {CHR '':''} rest)) = saveptr + length rest"
      "\<forall>x. x < saveptr \<or> saveptr + length rest < x \<longrightarrow> m' x = m x"
      by auto
    have toks: "toks = tok # next_token {CHR '':''} rest # tokens {CHR '':''} (tl (after_token {CHR '':''} rest))"
      using False Suc.prems(9) by (simp add: tokens.simps [of _ rest])
    have colon: "cstr m' colon '':''"
      using r(8) Suc.prems(1,8) by auto
    have "\<exists>m''. parse_loop [Suc k..<n] m' colon task' save' ?r1 =
      Inr (m'', map (\<lambda>i. if Suc k \<le> i \<and> i < n \<and> i - Suc k < length (tl toks)
                 then token_robot (tl toks ! (i - Suc k)) else ?r1 ! i) [0..<length ?r1])"
      using False r(2-7) Suc.prems(2,8,10) Suc.hyps(2)
      by (intro Suc.hyps(1) [OF _ colon]) (auto simp: next_token_eq_Nil toks)
    then obtain m'' where m'': "parse_loop [Suc k..<n] m' colon task' save' ?r1 =
      Inr (m'', map (\<lambda>i. if Suc k \<le> i \<and> i < n \<and> i - Suc k < length (tl toks)
                 then token_robot (tl toks ! (i - Suc k)) else ?r1 ! i) [0..<length ?r1])" by blast
    have "map (\<lambda>i. if Suc k \<le> i \<and> i < n \<and> i - Suc k < length (tl toks)
                 then token_robot (tl toks ! (i - Suc k)) else ?r1 ! i) [0..<length ?r1] =
      map (\<lambda>i. if k \<le> i \<and> i < n \<and> i - k < length toks then token_robot (toks ! (i - k)) else robots ! i)
               [0..<length robots]"
    proof (rule nth_equalityI, simp)
      fix i
      assume "i < length (map (\<lambda>i. if Suc k \<le> i \<and> i < n \<and> i - Suc k < length (tl toks)
                 then token_robot (tl toks ! (i - Suc k)) else ?r1 ! i) [0..<length ?r1])"
      then have i: "i < length robots" by simp
      have suc: "i - k = Suc (i - Suc k)" if "k < i" using that by simp
      consider "i < k" | "i = k" | "k < i" by linarith
      then show "map (\<lambda>i. if Suc k \<le> i \<and> i < n \<and> i - Suc k < length (tl toks)
                 then token_robot (tl toks ! (i - Suc k)) else ?r1 ! i) [0..<length ?r1] ! i =
        map (\<lambda>i. if k \<le> i \<and> i < n \<and> i - k < length toks then token_robot (toks ! (i - k)) else robots ! i)
               [0..<length robots] ! i"
        using i k by cases (auto simp: toks suc)
    qed
    with m'' r(1) show ?thesis by (simp add: unfold)
  qed
qed

theorem parse_robot_tasks_assigns:
  assumes "cstr m task_string str" "task_string \<noteq> 0" "task_copy \<noteq> 0"
    and "cstr m colon '':''" "colon \<noteq> 0"
    and "task_copy + 255 < task_string \<or> task_string + length str < task_copy"
    and "task_copy + 255 < colon \<or> colon + 1 < task_copy"
    and "int (length robots) = num_robots"
  shows "\<exists>m'. parse_robot_tasks m task_copy colon task_string robots num_robots =
    Inr (m', assign_tasks (tokens {CHR '':''} (take 255 str)) robots)"
proof -
  let ?str = "take 255 str"
  have "task_copy + min (length str) (256 - 1) < task_string \<or> task_string + length str < task_copy"
    using assms(6) by auto
  from strlcpy_copies [OF assms(1,3,2) _ this] obtain m1
    where m1: "strlcpy m task_copy task_string 256 = Inr (m1, length str)" "cstr m1 task_copy ?str"
      "\<forall>x. x < task_copy \<or> task_copy + min (length str) 255 < x \<longrightarrow> m1 x = m x" by auto
  have colon1: "cstr m1 colon '':''" using m1(3) assms(4,7) by auto
  note split = strtok_r_splits [OF m1(2) colon1 assms(5,3), of task_copy 0]
  show ?thesis
  proof (cases "set ?str \<subseteq> {CHR '':''}")
    case True
    then have "strtok_r m1 task_copy colon 0 = Inr (m1, 0, task_copy + length ?str)"
      using split assms(3) by simp
    moreover have "assign_tasks (tokens {CHR '':''} ?str) robots = robots"
      using True by (simp add: tokens.simps assign_tasks_def map_nth)
    ultimately show ?thesis
      by (simp add: parse_robot_tasks_def m1(1))
  next
    case False
    with split assms(3) obtain m' task save where r: "strtok_r m1 task_copy colon 0 = Inr (m', task, save)"
      "task \<noteq> 0" "cstr m' task (next_token {CHR '':''} ?str)"
      "cstr m' save (tl (after_token {CHR '':''} ?str))" "task_copy \<le> task" "task < save"
      "save + length (tl (after_token {CHR '':''} ?str)) = task_copy + length ?str"
      "\<forall>x. x < task_copy \<or> task_copy + length ?str < x \<longrightarrow> m' x = m1 x"
      by auto
    have colon': "cstr m' colon '':''" using r(8) colon1 assms(7) by auto
    have toks: "tokens {CHR '':''} ?str =
        next_token {CHR '':''} ?str # tokens {CHR '':''} (tl (after_token {CHR '':''} ?str))"
      using False by (simp add: tokens.simps [of _ ?str])
    have "\<exists>m''. parse_loop [0..<nat num_robots] m' colon task save robots =
      Inr (m'', map (\<lambda>i. if 0 \<le> i \<and> i < nat num_robots \<and> i - 0 < length (tokens {CHR '':''} ?str)
          then token_robot (tokens {CHR '':''} ?str ! (i - 0)) else robots ! i) [0..<length robots])"
      using False r assms(5,7,8)
      by (intro parse_loop_tokens [OF colon' _ _ _ r(3) _ r(4) _ toks]) (auto simp: next_token_eq_Nil)
    moreover have "map (\<lambda>i. if 0 \<le> i \<and> i < nat num_robots \<and> i - 0 < length (tokens {CHR '':''} ?str)
          then token_robot (tokens {CHR '':''} ?str ! (i - 0)) else robots ! i) [0..<length robots] =
        assign_tasks (tokens {CHR '':''} ?str) robots"
      using assms(8) by (auto simp: assign_tasks_def)
    ultimately show ?thesis
      by (simp add: parse_robot_tasks_def m1(1) r(1))
  qed
qed

end
