(* ===== verification/Navigation.thy ===== *)
theory Navigation
  imports Robot
begin

text \<open>
  Route finding, from the helper functions of \<^verbatim>\<open>projects/automated_warehouse/automated_warehouse.c\<close>:
  which cells a robot may enter, where its target is, the breadth-first search for the next
  direction and the choice of an escape direction. The global array \<^verbatim>\<open>robots\<close> is an argument.
  A pair of output parameters \<^verbatim>\<open>(*row, *col)\<close> is a returned pair, and the arrays \<^verbatim>\<open>queue_r\<close>, \<^verbatim>\<open>queue_c\<close>
  are one list of pairs whose length is \<^verbatim>\<open>tail\<close>; likewise \<^verbatim>\<open>path_r\<close>, \<^verbatim>\<open>path_c\<close> and \<^verbatim>\<open>path_len\<close>. The
  two-dimensional array \<^verbatim>\<open>parent\<close> is a function of the cell.

  Directions are the source's codes: 0 wait, 1 up, 2 down, 3 left, 4 right.
\<close>

subsection \<open>Cells and targets\<close>

text \<open>The loop over the robots: it stops at the first robot standing on the cell.\<close>

fun occupant_blocks :: "robot list \<Rightarrow> int \<Rightarrow> int \<Rightarrow> bool option" where
  "occupant_blocks [] row col = None"
| "occupant_blocks (q # qs) row col =
     (if robot_row q = row \<and> robot_col q = col then
        (let cell = map_cell row col in
         if cell = CHR ''A'' \<or> cell = CHR ''B'' \<or> cell = CHR ''C'' \<or> cell = CHR ''W''
         then Some False else Some True)
      else occupant_blocks qs row col)"

definition is_blocked_cell :: "robot list \<Rightarrow> robot \<Rightarrow> int \<Rightarrow> int \<Rightarrow> bool" where
  "is_blocked_cell robots robot row col =
     (if row < 0 \<or> row \<ge> MAP_HEIGHT \<or> col < 0 \<or> col \<ge> MAP_WIDTH then True
      else if map_cell row col = CHR ''X'' then True
      else
        (case occupant_blocks robots row col of
           Some b \<Rightarrow> b
         | None \<Rightarrow>
             (let cell = map_cell row col in
              if schar cell \<ge> schar (CHR ''1'') \<and> schar cell \<le> schar (CHR ''9'') then
                (if current_payload robot = 0
                    \<and> schar cell = schar (required_item robot) + schar (CHR ''0'')
                 then False else True)
              else False)))"

definition is_shared_place :: "int \<Rightarrow> int \<Rightarrow> bool" where
  "is_shared_place row col =
     (let cell = map_cell row col in
      cell = CHR ''A'' \<or> cell = CHR ''B'' \<or> cell = CHR ''C'' \<or> cell = CHR ''W'')"

definition get_item_position :: "char \<Rightarrow> int \<times> int" where
  "get_item_position item =
     (case find (\<lambda>(r, c). map_cell r c = item) map_cells of
        Some p \<Rightarrow> p
      | None \<Rightarrow> (ROW_S, COL_S))"

definition get_destination_position :: "char \<Rightarrow> int \<times> int" where
  "get_destination_position dest =
     (if dest = CHR ''A'' then (ROW_A, COL_A)
      else if dest = CHR ''B'' then (ROW_B, COL_B)
      else if dest = CHR ''C'' then (ROW_C, COL_C)
      else (ROW_W, COL_W))"

definition get_robot_target :: "robot \<Rightarrow> int \<times> int" where
  "get_robot_target robot =
     (if current_payload robot = 0
      then get_item_position (to_char (schar (required_item robot) + schar (CHR ''0'')))
      else get_destination_position (destination robot))"

definition get_distance :: "int \<Rightarrow> int \<Rightarrow> int \<Rightarrow> int \<Rightarrow> int" where
  "get_distance row col target_row target_col =
     (let row_distance = row - target_row;
          col_distance = col - target_col;
          row_distance = (if row_distance < 0 then - row_distance else row_distance);
          col_distance = (if col_distance < 0 then - col_distance else col_distance)
      in row_distance + col_distance)"

definition get_next_position :: "int \<Rightarrow> int \<Rightarrow> int \<Rightarrow> int \<times> int" where
  "get_next_position row col direction =
     (if direction = 1 then (row - 1, col)
      else if direction = 2 then (row + 1, col)
      else if direction = 3 then (row, col - 1)
      else if direction = 4 then (row, col + 1)
      else (row, col))"

subsection \<open>Breadth-first search\<close>

record bfs_state =
  parent :: "int \<times> int \<Rightarrow> int"
  queue :: "(int \<times> int) list"
  head :: nat

text \<open>The arrays \<^verbatim>\<open>dr\<close> and \<^verbatim>\<open>dc\<close>, in the order of the inner loop.\<close>

definition bfs_dirs :: "(int \<times> int) list" where
  "bfs_dirs = [(- 1, 0), (1, 0), (0, - 1), (0, 1)]"

definition bfs_init :: "int \<Rightarrow> int \<Rightarrow> bfs_state" where
  "bfs_init row col =
     \<lparr>parent = (\<lambda>_. - 1)((row, col) := row * MAP_WIDTH + col), queue = [(row, col)], head = 0\<rparr>"

text \<open>The body of the inner loop, for one entry of \<^const>\<open>bfs_dirs\<close>.\<close>

definition bfs_visit ::
    "(int \<Rightarrow> int \<Rightarrow> bool) \<Rightarrow> int \<Rightarrow> int \<Rightarrow> int \<times> int \<Rightarrow> bfs_state \<Rightarrow> bfs_state" where
  "bfs_visit blocked row col d s =
     (let next_row = row + fst d; next_col = col + snd d in
      if blocked next_row next_col \<or> parent s (next_row, next_col) \<noteq> - 1 then s
      else s\<lparr>parent := (parent s)((next_row, next_col) := row * MAP_WIDTH + col),
             queue := queue s @ [(next_row, next_col)]\<rparr>)"

partial_function (option) bfs_loop ::
    "(int \<Rightarrow> int \<Rightarrow> bool) \<Rightarrow> bfs_state \<Rightarrow> bfs_state option" where
  "bfs_loop blocked s =
     (if head s < length (queue s) then
        let (row, col) = queue s ! head s;
            s = s\<lparr>head := head s + 1\<rparr>
        in bfs_loop blocked (fold (bfs_visit blocked row col) bfs_dirs s)
      else Some s)"

text \<open>The scan for the reachable cell closest to an unreachable target.\<close>

definition closest_step ::
    "(int \<times> int \<Rightarrow> int) \<Rightarrow> int \<Rightarrow> int \<Rightarrow> int \<times> int \<Rightarrow> int \<times> int \<times> int \<Rightarrow> int \<times> int \<times> int" where
  "closest_step par target_row target_col cell best =
     (let (r, c) = cell; (best_distance, best_row, best_col) = best in
      if par (r, c) = - 1 then best
      else
        let distance = get_distance r c target_row target_col in
        if distance < best_distance then (distance, r, c) else best)"

partial_function (option) path_loop ::
    "(int \<times> int \<Rightarrow> int) \<Rightarrow> int \<Rightarrow> int \<Rightarrow> int \<Rightarrow> (int \<times> int) list \<Rightarrow> (int \<times> int) list option" where
  "path_loop par start row col path =
     (if row * MAP_WIDTH + col \<noteq> start then
        let prev = par (row, col) in
        path_loop par start (prev sdiv MAP_WIDTH) (prev smod MAP_WIDTH) (path @ [(row, col)])
      else Some path)"

definition path_direction :: "int \<Rightarrow> int \<Rightarrow> (int \<times> int) list \<Rightarrow> int" where
  "path_direction row col path =
     (if length path > 0 then
        let (next_row, next_col) = path ! (length path - 1) in
        if next_row < row then 1
        else if next_row > row then 2
        else if next_col < col then 3
        else if next_col > col then 4
        else 0
      else 0)"

definition get_next_direction :: "robot list \<Rightarrow> robot \<Rightarrow> int \<Rightarrow> int \<Rightarrow> int result" where
  "get_next_direction robots robot target_row target_col =
     (let row = robot_row robot; col = robot_col robot;
          start = row * MAP_WIDTH + col
      in rbind (of_loop (bfs_loop (is_blocked_cell robots robot) (bfs_init row col))) (\<lambda>s.
        if parent s (target_row, target_col) = - 1 then
          (let (_, best_row, best_col) =
             fold (closest_step (parent s) target_row target_col) map_cells
               (get_distance row col target_row target_col, row, col)
           in if best_row = row \<and> best_col = col then Inr 0
              else rbind (of_loop (path_loop (parent s) start best_row best_col []))
                     (\<lambda>path. Inr (path_direction row col path)))
        else rbind (of_loop (path_loop (parent s) start target_row target_col []))
               (\<lambda>path. Inr (path_direction row col path))))"

declare bfs_loop.simps [code] path_loop.simps [code]

subsection \<open>Escape directions\<close>

text \<open>The offsets \<^verbatim>\<open>dr\<close>, \<^verbatim>\<open>dc\<close> of directions 1 to 4.\<close>

definition escape_dirs :: "(int \<times> int \<times> int) list" where
  "escape_dirs = [(1, - 1, 0), (2, 1, 0), (3, 0, - 1), (4, 0, 1)]"

definition escape_score :: "int \<Rightarrow> int \<Rightarrow> int \<Rightarrow> int \<Rightarrow> int" where
  "escape_score current_distance next_distance next_row next_col =
     (let score = (next_distance - current_distance) * 100;
          cell = map_cell next_row next_col
      in if is_shared_place next_row next_col then score + 100
         else if cell = CHR ''S'' then score + 20
         else if cell = CHR '' '' then score + 10
         else score)"

definition escape_step ::
    "robot list \<Rightarrow> robot \<Rightarrow> int \<Rightarrow> int \<Rightarrow> int \<times> int \<times> int \<Rightarrow> int \<times> int \<Rightarrow> int \<times> int" where
  "escape_step robots robot target_row target_col dd best =
     (let (direction, dr, dc) = dd;
          (best_score, best_direction) = best;
          current_distance = get_distance (robot_row robot) (robot_col robot) target_row target_col;
          next_row = robot_row robot + dr;
          next_col = robot_col robot + dc
      in if is_blocked_cell robots robot next_row next_col then best
         else
           let next_distance = get_distance next_row next_col target_row target_col in
           if next_distance < current_distance then best
           else
             let score = escape_score current_distance next_distance next_row next_col in
             if score > best_score then (score, direction) else best)"

definition get_escape_direction :: "robot list \<Rightarrow> robot \<Rightarrow> int \<Rightarrow> int \<Rightarrow> int" where
  "get_escape_direction robots robot target_row target_col =
     snd (fold (escape_step robots robot target_row target_col) escape_dirs (- 1000000, 0))"

subsection \<open>Walks on the floor\<close>

definition adjacent :: "int \<times> int \<Rightarrow> int \<times> int \<Rightarrow> bool" where
  "adjacent p q \<longleftrightarrow> (fst q - fst p, snd q - snd p) \<in> set bfs_dirs"

abbreviation blocked_at :: "(int \<Rightarrow> int \<Rightarrow> bool) \<Rightarrow> int \<times> int \<Rightarrow> bool" where
  "blocked_at blocked q \<equiv> blocked (fst q) (snd q)"

abbreviation cell_number :: "int \<times> int \<Rightarrow> int" where
  "cell_number q \<equiv> fst q * MAP_WIDTH + snd q"

abbreviation cell_on_map :: "int \<times> int \<Rightarrow> bool" where
  "cell_on_map q \<equiv> on_map (fst q) (snd q)"

text \<open>\<open>walk blocked p qs\<close>: from \<open>p\<close> one may step through the cells \<open>qs\<close> in order.\<close>

fun walk :: "(int \<Rightarrow> int \<Rightarrow> bool) \<Rightarrow> int \<times> int \<Rightarrow> (int \<times> int) list \<Rightarrow> bool" where
  "walk blocked p [] \<longleftrightarrow> True"
| "walk blocked p (q # qs) \<longleftrightarrow> adjacent p q \<and> \<not> blocked_at blocked q \<and> walk blocked q qs"

text \<open>\<open>shortest blocked p qs q\<close>: \<open>qs\<close> is a walk from \<open>p\<close> to \<open>q\<close> and no walk to \<open>q\<close> is shorter.\<close>

definition shortest :: "(int \<Rightarrow> int \<Rightarrow> bool) \<Rightarrow> int \<times> int \<Rightarrow> (int \<times> int) list \<Rightarrow> int \<times> int \<Rightarrow> bool" where
  "shortest blocked p qs q \<longleftrightarrow> walk blocked p qs \<and> last (p # qs) = q
     \<and> (\<forall>qs'. walk blocked p qs' \<and> last (p # qs') = q \<longrightarrow> length qs \<le> length qs')"

definition reaches :: "(int \<Rightarrow> int \<Rightarrow> bool) \<Rightarrow> int \<times> int \<Rightarrow> int \<times> int \<Rightarrow> bool" where
  "reaches blocked p q \<longleftrightarrow> (\<exists>qs. walk blocked p qs \<and> last (p # qs) = q)"

end
