(* ===== verification/Shortest_Path.thy ===== *)
theory Shortest_Path
  imports Navigation
begin

text \<open>
  The search of \<^const>\<open>get_next_direction\<close> is correct. The locale \<open>floor\<close> holds what the search
  relies on, that no cell outside the map can be entered; its lemmas show that the loop
  ends, visits exactly the reachable cells and finds shortest walks, and that following the parent
  cells back from any visited cell returns such a walk. The interpretation takes
  \<^const>\<open>is_blocked_cell\<close> for the predicate.
\<close>

lemma walk_append:
  "walk blocked p (qs @ rs) \<longleftrightarrow> walk blocked p qs \<and> walk blocked (last (p # qs)) rs"
  by (induction qs arbitrary: p) auto

lemma walk_snoc:
  "walk blocked p (qs @ [q]) \<longleftrightarrow> walk blocked p qs \<and> adjacent (last (p # qs)) q \<and> \<not> blocked_at blocked q"
  by (simp add: walk_append)

lemma adjacent_irrefl: "adjacent p q \<Longrightarrow> p \<noteq> q"
  by (auto simp: adjacent_def bfs_dirs_def)

lemma adjacent_dir: "d \<in> set bfs_dirs \<Longrightarrow> adjacent p (fst p + fst d, snd p + snd d)"
  by (simp add: adjacent_def)

lemma adjacentE:
  assumes "adjacent p q"
  obtains d where "d \<in> set bfs_dirs" "q = (fst p + fst d, snd p + snd d)"
  using assms unfolding adjacent_def by (metis add_diff_cancel_left' diff_add_cancel add.commute fst_conv snd_conv prod.collapse)

text \<open>
  The invariant of the loop, with the distance \<open>d\<close> of each visited cell as a ghost. A cell of the
  queue before \<open>head\<close> is closed: all its free neighbours are in the queue, one step further.
\<close>

definition closed :: "(int \<Rightarrow> int \<Rightarrow> bool) \<Rightarrow> (int \<times> int \<Rightarrow> nat) \<Rightarrow> (int \<times> int) list \<Rightarrow> int \<times> int \<Rightarrow> bool" where
  "closed blocked d Q p \<longleftrightarrow>
     (\<forall>q. adjacent p q \<and> \<not> blocked_at blocked q \<longrightarrow> q \<in> set Q \<and> d q \<le> Suc (d p))"

definition bfs_tree ::
    "(int \<Rightarrow> int \<Rightarrow> bool) \<Rightarrow> int \<times> int \<Rightarrow> (int \<times> int \<Rightarrow> nat) \<Rightarrow> bfs_state \<Rightarrow> bool" where
  "bfs_tree blocked start d s \<longleftrightarrow>
     distinct (queue s) \<and> start \<in> set (queue s) \<and> d start = 0
     \<and> (\<forall>q. parent s q \<noteq> - 1 \<longleftrightarrow> q \<in> set (queue s))
     \<and> (\<forall>q \<in> set (queue s). cell_on_map q)
     \<and> (\<forall>q \<in> set (queue s) - {start}. \<not> blocked_at blocked q \<and>
          (\<exists>p \<in> set (take (head s) (queue s)).
             adjacent p q \<and> parent s q = cell_number p \<and> d q = Suc (d p)))
     \<and> sorted (map d (queue s)) \<and> head s \<le> length (queue s)"

definition bfs_inv ::
    "(int \<Rightarrow> int \<Rightarrow> bool) \<Rightarrow> int \<times> int \<Rightarrow> (int \<times> int \<Rightarrow> nat) \<Rightarrow> bfs_state \<Rightarrow> bool" where
  "bfs_inv blocked start d s \<longleftrightarrow> bfs_tree blocked start d s
     \<and> (head s < length (queue s) \<longrightarrow> (\<forall>q \<in> set (queue s). d q \<le> Suc (d (queue s ! head s))))
     \<and> (\<forall>p \<in> set (take (head s) (queue s)). closed blocked d (queue s) p)"

text \<open>Inside the body: the cell \<open>u\<close> is being expanded and the offsets in \<open>D\<close> are done.\<close>

definition bfs_mid ::
    "(int \<Rightarrow> int \<Rightarrow> bool) \<Rightarrow> int \<times> int \<Rightarrow> int \<times> int \<Rightarrow> (int \<times> int) set
      \<Rightarrow> (int \<times> int \<Rightarrow> nat) \<Rightarrow> bfs_state \<Rightarrow> bool" where
  "bfs_mid blocked start u D d s \<longleftrightarrow> bfs_tree blocked start d s
     \<and> 0 < head s \<and> queue s ! (head s - 1) = u
     \<and> (\<forall>q \<in> set (queue s). d q \<le> Suc (d u))
     \<and> (\<forall>p \<in> set (take (head s) (queue s)) - {u}. closed blocked d (queue s) p)
     \<and> (\<forall>e \<in> D. \<not> blocked (fst u + fst e) (snd u + snd e) \<longrightarrow>
          (fst u + fst e, snd u + snd e) \<in> set (queue s))"

locale floor =
  fixes blocked :: "int \<Rightarrow> int \<Rightarrow> bool"
  assumes outside_blocked: "\<not> on_map row col \<Longrightarrow> blocked row col"
begin

lemma free_on_map: "\<not> blocked_at blocked q \<Longrightarrow> cell_on_map q"
  using outside_blocked by blast

lemma walk_on_map: "walk blocked p qs \<Longrightarrow> q \<in> set qs \<Longrightarrow> cell_on_map q"
  by (induction qs arbitrary: p) (auto dest: free_on_map)

lemma bfs_tree_length: "bfs_tree blocked start d s \<Longrightarrow> length (queue s) \<le> 49"
proof -
  assume t: "bfs_tree blocked start d s"
  then have "set (queue s) \<subseteq> set map_cells"
    by (auto simp: bfs_tree_def set_map_cells)
  then have "card (set (queue s)) \<le> card (set map_cells)"
    by (intro card_mono) simp_all
  also have "\<dots> \<le> 49" using card_length [of map_cells] by (simp add: length_map_cells)
  finally show ?thesis using t by (simp add: bfs_tree_def distinct_card)
qed

lemma bfs_mid_push:
  assumes mid: "bfs_mid blocked start u D d s"
    and q: "q = (fst u + fst e, snd u + snd e)" "e \<in> set bfs_dirs"
    and free: "\<not> blocked_at blocked q" "parent s q = - 1"
  shows "bfs_mid blocked start u (insert e D) (d(q := Suc (d u)))
    (s\<lparr>parent := (parent s)(q := cell_number u), queue := queue s @ [q]\<rparr>)"
proof -
  have tree: "bfs_tree blocked start d s" and hd: "0 < head s" "head s \<le> length (queue s)"
    "queue s ! (head s - 1) = u" and bound: "\<forall>q \<in> set (queue s). d q \<le> Suc (d u)"
    using mid by (auto simp: bfs_mid_def bfs_tree_def)
  have u: "u \<in> set (take (head s) (queue s))"
    using hd by (auto simp: in_set_conv_nth intro!: exI [of _ "head s - 1"])
  then have uq: "u \<in> set (queue s)" by (auto dest: in_set_takeD)
  have new: "q \<notin> set (queue s)" using tree free(2) unfolding bfs_tree_def by blast
  have map_d: "map (d(q := Suc (d u))) (queue s) = map d (queue s)"
    using new by auto
  have take_q: "\<And>p. p \<in> set (take (head s) (queue s)) \<Longrightarrow> p \<noteq> q"
    using new by (auto dest: in_set_takeD)
  have num: "cell_number u \<noteq> - 1"
    using tree uq cell_number_nonneg [of "fst u" "snd u"] by (auto simp: bfs_tree_def)
  have adj: "adjacent u q" using q adjacent_dir by simp
  let ?d = "d(q := Suc (d u))"
  let ?s = "s\<lparr>parent := (parent s)(q := cell_number u), queue := queue s @ [q]\<rparr>"
  have "bfs_tree blocked start ?d ?s"
    unfolding bfs_tree_def
  proof (intro conjI)
    show "\<forall>q' \<in> set (queue ?s) - {start}. \<not> blocked_at blocked q' \<and>
        (\<exists>p \<in> set (take (head ?s) (queue ?s)).
          adjacent p q' \<and> parent ?s q' = cell_number p \<and> ?d q' = Suc (?d p))"
    proof (intro ballI conjI)
      fix q' assume q': "q' \<in> set (queue ?s) - {start}"
      show "\<not> blocked_at blocked q'"
        using q' free tree by (auto simp: bfs_tree_def)
      show "\<exists>p \<in> set (take (head ?s) (queue ?s)).
          adjacent p q' \<and> parent ?s q' = cell_number p \<and> ?d q' = Suc (?d p)"
      proof (cases "q' = q")
        case True
        then show ?thesis using u adj hd take_q by (intro bexI [of _ u]) auto
      next
        case False
        with q' have "q' \<in> set (queue s) - {start}" by auto
        then obtain p where "p \<in> set (take (head s) (queue s))" "adjacent p q'"
            "parent s q' = cell_number p" "d q' = Suc (d p)"
          using tree unfolding bfs_tree_def by blast
        then show ?thesis using False hd take_q by (intro bexI [of _ p]) auto
      qed
    qed
  qed (use tree new num free map_d bound free_on_map [OF free(1)] in
      \<open>auto simp: bfs_tree_def sorted_append\<close>)
  moreover have "\<forall>p \<in> set (take (head ?s) (queue ?s)) - {u}. closed blocked ?d (queue ?s) p"
  proof
    fix p assume p: "p \<in> set (take (head ?s) (queue ?s)) - {u}"
    then have "closed blocked d (queue s) p"
      using mid hd by (auto simp: bfs_mid_def)
    moreover have "p \<noteq> q" using p hd take_q by auto
    ultimately show "closed blocked ?d (queue ?s) p"
      using new by (auto simp: closed_def)
  qed
  ultimately show ?thesis
    using mid hd new bound q(1) uq by (auto simp: bfs_mid_def nth_append)
qed

lemma bfs_mid_visit:
  assumes "bfs_mid blocked start u D d s" "e \<in> set bfs_dirs"
  shows "\<exists>d'. bfs_mid blocked start u (insert e D) d' (bfs_visit blocked (fst u) (snd u) e s)"
proof (cases "blocked (fst u + fst e) (snd u + snd e) \<or> parent s (fst u + fst e, snd u + snd e) \<noteq> - 1")
  case True
  then have "bfs_mid blocked start u (insert e D) d s"
    using assms by (auto simp: bfs_mid_def bfs_tree_def)
  with True show ?thesis by (auto simp: bfs_visit_def)
next
  case False
  with bfs_mid_push [OF assms(1) refl assms(2)] show ?thesis
    by (auto simp: bfs_visit_def Let_def)
qed

lemma bfs_mid_fold:
  assumes "bfs_mid blocked start u D d s" "set es \<subseteq> set bfs_dirs"
  shows "\<exists>d'. bfs_mid blocked start u (D \<union> set es) d' (fold (bfs_visit blocked (fst u) (snd u)) es s)"
  using assms
proof (induction es arbitrary: D d s)
  case Nil
  then show ?case by auto
next
  case (Cons e es)
  from bfs_mid_visit [OF Cons.prems(1), of e] Cons.prems(2)
  obtain d' where "bfs_mid blocked start u (insert e D) d' (bfs_visit blocked (fst u) (snd u) e s)"
    by auto
  from Cons.IH [OF this] Cons.prems(2) show ?case by auto
qed

lemma bfs_mid_done:
  assumes mid: "bfs_mid blocked start u (set bfs_dirs) d s"
  shows "bfs_inv blocked start d s"
proof -
  have tree: "bfs_tree blocked start d s" and hd: "0 < head s" "head s \<le> length (queue s)"
    "queue s ! (head s - 1) = u" and bound: "\<forall>q \<in> set (queue s). d q \<le> Suc (d u)"
    using mid by (auto simp: bfs_mid_def bfs_tree_def)
  have "closed blocked d (queue s) u"
    unfolding closed_def
  proof (intro allI impI)
    fix q assume "adjacent u q \<and> \<not> blocked_at blocked q"
    then obtain e where "e \<in> set bfs_dirs" "q = (fst u + fst e, snd u + snd e)" "\<not> blocked_at blocked q"
      by (auto elim: adjacentE)
    then show "q \<in> set (queue s) \<and> d q \<le> Suc (d u)"
      using mid bound by (auto simp: bfs_mid_def)
  qed
  moreover have "d u \<le> d (queue s ! head s)" if "head s < length (queue s)"
    using that hd tree sorted_nth_mono [of "map d (queue s)" "head s - 1" "head s"]
    by (simp add: bfs_tree_def)
  ultimately show ?thesis
    using mid tree bound by (force simp: bfs_inv_def bfs_mid_def)
qed

lemma bfs_inv_step:
  assumes inv: "bfs_inv blocked start d s" and lt: "head s < length (queue s)"
    and u: "queue s ! head s = u"
  shows "\<exists>d'. bfs_inv blocked start d'
    (fold (bfs_visit blocked (fst u) (snd u)) bfs_dirs (s\<lparr>head := head s + 1\<rparr>))"
proof -
  have "bfs_mid blocked start u {} d (s\<lparr>head := head s + 1\<rparr>)"
    using inv lt u
    by (auto simp: bfs_inv_def bfs_mid_def bfs_tree_def take_Suc_conv_app_nth)
  from bfs_mid_fold [OF this, of bfs_dirs] show ?thesis
    by (auto dest: bfs_mid_done)
qed


text \<open>The loop returns, within as many rounds as the map has cells.\<close>

lemma bfs_loop_returns:
  assumes "bfs_inv blocked start d s"
  shows "\<exists>d' s'. bfs_loop blocked s = Some s' \<and> bfs_inv blocked start d' s' \<and> head s' = length (queue s')"
  using assms
proof (induction "49 - head s" arbitrary: d s rule: less_induct)
  case less
  show ?case
  proof (cases "head s < length (queue s)")
    case False
    then have "head s = length (queue s)"
      using less.prems by (auto simp: bfs_inv_def bfs_tree_def)
    with less.prems show ?thesis by (auto simp: bfs_loop.simps)
  next
    case True
    obtain u where u: "queue s ! head s = u" by blast
    let ?s = "fold (bfs_visit blocked (fst u) (snd u)) bfs_dirs (s\<lparr>head := head s + 1\<rparr>)"
    from bfs_inv_step [OF less.prems True u] obtain d' where inv: "bfs_inv blocked start d' ?s" by blast
    have "head ?s = Suc (head s)"
      by (subst fold_frame [where g = head]) (auto simp: bfs_visit_def Let_def)
    moreover have "head s < 49"
      using True less.prems bfs_tree_length [of start d s] by (simp add: bfs_inv_def)
    ultimately have "49 - head ?s < 49 - head s" by simp
    from less.hyps [OF this inv] show ?thesis
      using True u by (cases u) (simp add: bfs_loop.simps [of blocked s])
  qed
qed

lemma bfs_init_inv:
  assumes "on_map row col"
  shows "bfs_inv blocked (row, col) (\<lambda>_. 0) (bfs_init row col)"
  using assms cell_number_nonneg [OF assms]
  by (auto simp: bfs_inv_def bfs_tree_def bfs_init_def)

subsubsection \<open>What the finished search knows\<close>

definition searched :: "int \<times> int \<Rightarrow> (int \<times> int \<Rightarrow> nat) \<Rightarrow> bfs_state \<Rightarrow> bool" where
  "searched start d s \<longleftrightarrow> bfs_inv blocked start d s \<and> head s = length (queue s)"

lemma searched_walk:
  assumes "searched start d s" "walk blocked start qs"
  shows "last (start # qs) \<in> set (queue s) \<and> d (last (start # qs)) \<le> length qs"
  using assms(2)
proof (induction qs rule: rev_induct)
  case Nil
  then show ?case using assms(1) by (simp add: searched_def bfs_inv_def bfs_tree_def)
next
  case (snoc q qs)
  then have IH: "last (start # qs) \<in> set (queue s)" "d (last (start # qs)) \<le> length qs"
    and q: "adjacent (last (start # qs)) q" "\<not> blocked_at blocked q"
    by (simp_all add: walk_snoc)
  have "closed blocked d (queue s) (last (start # qs))"
    using assms(1) IH(1) by (simp add: searched_def bfs_inv_def)
  with q have "q \<in> set (queue s)" "d q \<le> Suc (d (last (start # qs)))"
    unfolding closed_def by blast+
  with IH(2) show ?case by simp
qed

lemma parent_step:
  assumes "searched start d s" "q \<in> set (queue s)" "q \<noteq> start"
  obtains p where "p \<in> set (queue s)" "adjacent p q" "parent s q = cell_number p" "d q = Suc (d p)"
    "\<not> blocked_at blocked q" "cell_on_map p"
proof -
  have "q \<in> set (queue s) - {start}" using assms by simp
  then obtain p where "p \<in> set (take (head s) (queue s))" "adjacent p q" "parent s q = cell_number p"
      "d q = Suc (d p)" "\<not> blocked_at blocked q"
    using assms(1) unfolding searched_def bfs_inv_def bfs_tree_def by blast
  moreover from this(1) have "p \<in> set (queue s)" by (rule in_set_takeD)
  moreover from this have "cell_on_map p"
    using assms(1) by (auto simp: searched_def bfs_inv_def bfs_tree_def)
  ultimately show thesis using that by blast
qed

text \<open>Following the parents from a visited cell gives a walk of its distance, in reverse.\<close>

lemma path_loop_returns:
  assumes "searched start d s" "(row, col) \<in> set (queue s)"
  shows "\<exists>path. path_loop (parent s) (cell_number start) row col acc = Some (acc @ path)
    \<and> walk blocked start (rev path) \<and> last (start # rev path) = (row, col) \<and> length path = d (row, col)"
  using assms(2)
proof (induction "d (row, col)" arbitrary: row col acc rule: less_induct)
  case less
  have om: "cell_on_map start" "on_map row col"
    using assms(1) less.prems by (auto simp: searched_def bfs_inv_def bfs_tree_def)
  show ?case
  proof (cases "(row, col) = start")
    case True
    with assms(1) show ?thesis
      by (auto simp: path_loop.simps searched_def bfs_inv_def bfs_tree_def intro!: exI [of _ "[]"])
  next
    case False
    then have ne: "row * MAP_WIDTH + col \<noteq> cell_number start"
      using cell_number_inj [OF om(2) om(1)] by (auto simp: prod_eq_iff)
    from parent_step [OF assms(1) less.prems False] obtain p where p: "p \<in> set (queue s)"
      "adjacent p (row, col)" "parent s (row, col) = cell_number p" "d (row, col) = Suc (d p)"
      "\<not> blocked row col" "cell_on_map p" by auto
    have div: "cell_number p sdiv MAP_WIDTH = fst p" "cell_number p smod MAP_WIDTH = snd p"
      using cell_number_div [OF p(6)] by simp_all
    from less.hyps [of "fst p" "snd p" "acc @ [(row, col)]"] p(1,4) obtain path
      where path: "path_loop (parent s) (cell_number start) (fst p) (snd p) (acc @ [(row, col)]) =
          Some (acc @ [(row, col)] @ path)" "walk blocked start (rev path)"
        "last (start # rev path) = p" "length path = d p" by auto
    then show ?thesis
      using ne p div
      by (intro exI [of _ "(row, col) # path"])
        (simp add: path_loop.simps [of "parent s" _ row col] Let_def walk_append)
  qed
qed

lemma visited_iff:
  assumes "searched start d s"
  shows "parent s q \<noteq> - 1 \<longleftrightarrow> reaches blocked start q"
proof -
  have "parent s q \<noteq> - 1 \<longleftrightarrow> q \<in> set (queue s)"
    using assms unfolding searched_def bfs_inv_def bfs_tree_def by blast
  also have "\<dots> \<longleftrightarrow> reaches blocked start q"
  proof
    assume "q \<in> set (queue s)"
    then have "(fst q, snd q) \<in> set (queue s)" by simp
    from path_loop_returns [OF assms this, of "[]"] obtain path
      where "walk blocked start (rev path)" "last (start # rev path) = (fst q, snd q)" by blast
    then show "reaches blocked start q"
      unfolding reaches_def prod.collapse by blast
  next
    assume "reaches blocked start q"
    then show "q \<in> set (queue s)"
      using searched_walk [OF assms] unfolding reaches_def by metis
  qed
  finally show ?thesis .
qed

lemma searched_start: "searched start d s \<Longrightarrow> reaches blocked start start"
  unfolding reaches_def by (intro exI [of _ "[]"]) simp

text \<open>From any reachable cell the way back is a shortest walk.\<close>

lemma path_loop_shortest:
  assumes "searched start d s" "reaches blocked start (row, col)"
  shows "\<exists>path. path_loop (parent s) (cell_number start) row col [] = Some path
    \<and> shortest blocked start (rev path) (row, col)"
proof -
  have q: "(row, col) \<in> set (queue s)"
    using assms(2) searched_walk [OF assms(1)] unfolding reaches_def by metis
  from path_loop_returns [OF assms(1) q, of "[]"] obtain path
    where "path_loop (parent s) (cell_number start) row col [] = Some path"
      "walk blocked start (rev path)" "last (start # rev path) = (row, col)" "length path = d (row, col)"
    by auto
  moreover have "\<forall>qs'. walk blocked start qs' \<and> last (start # qs') = (row, col) \<longrightarrow> d (row, col) \<le> length qs'"
    using searched_walk [OF assms(1)] by metis
  ultimately show ?thesis by (auto simp: shortest_def)
qed

lemma search_returns:
  assumes "on_map row col"
  shows "\<exists>d s. bfs_loop blocked (bfs_init row col) = Some s \<and> searched (row, col) d s"
  using bfs_loop_returns [OF bfs_init_inv [OF assms]] by (auto simp: searched_def)

text \<open>The queue of the finished search, which has held every cell pushed, fits its arrays of 49 cells.\<close>

lemma search_queue_bound:
  assumes "on_map row col" "bfs_loop blocked (bfs_init row col) = Some s"
  shows "length (queue s) \<le> 49"
proof -
  from search_returns [OF assms(1)] assms(2) obtain d where "searched (row, col) d s" by auto
  then show ?thesis using bfs_tree_length by (auto simp: searched_def bfs_inv_def)
qed

end

interpretation nav: floor "is_blocked_cell robots robot" for robots robot
  by unfold_locales (auto simp: on_map_def is_blocked_cell_def)


subsection \<open>The next direction\<close>

abbreviation robot_pos :: "robot \<Rightarrow> int \<times> int" where
  "robot_pos robot \<equiv> (robot_row robot, robot_col robot)"

abbreviation distance_to :: "int \<Rightarrow> int \<Rightarrow> int \<times> int \<Rightarrow> int" where
  "distance_to target_row target_col q \<equiv> get_distance (fst q) (snd q) target_row target_col"

text \<open>Direction \<open>d\<close> is the first step of a shortest walk of the robot to \<open>q\<close>.\<close>

definition heads_for :: "robot list \<Rightarrow> robot \<Rightarrow> int \<Rightarrow> int \<times> int \<Rightarrow> bool" where
  "heads_for robots robot d q \<longleftrightarrow> d \<in> {1, 2, 3, 4} \<and>
     (\<exists>qs. shortest (is_blocked_cell robots robot) (robot_pos robot) qs q \<and> qs \<noteq> []
        \<and> hd qs = get_next_position (robot_row robot) (robot_col robot) d)"

lemma path_direction_step:
  assumes "path \<noteq> []" "adjacent (row, col) (last path)"
  shows "path_direction row col path \<in> {1, 2, 3, 4}
    \<and> get_next_position row col (path_direction row col path) = last path"
proof -
  obtain r c where rc: "last path = (r, c)" by fastforce
  have "path ! (length path - 1) = last path" using assms(1) by (simp add: last_conv_nth)
  then have "path_direction row col path = (if r < row then 1 else if r > row then 2 else
      if c < col then 3 else if c > col then 4 else 0)"
    using assms(1) rc by (simp add: path_direction_def)
  moreover have "(r - row, c - col) \<in> {(- 1, 0), (1, 0), (0, - 1), (0, 1)}"
    using assms(2) rc by (auto simp: adjacent_def bfs_dirs_def)
  ultimately show ?thesis
    using rc by (auto simp: get_next_position_def)
qed

lemma shortest_first_step:
  assumes "shortest blocked p (rev path) q" "q \<noteq> p"
  shows "path \<noteq> []" "adjacent p (last path)" "\<not> blocked_at blocked (last path)" "hd (rev path) = last path"
proof -
  show ne: "path \<noteq> []" using assms by (auto simp: shortest_def)
  then obtain ys where eq: "rev path = last path # ys"
    by (cases path rule: rev_cases) auto
  have "walk blocked p (rev path)" using assms(1) by (simp add: shortest_def)
  then show "adjacent p (last path)" "\<not> blocked_at blocked (last path)"
    unfolding eq by simp_all
  show "hd (rev path) = last path" by (simp add: hd_rev)
qed

lemma path_direction_heads_for:
  assumes "shortest (is_blocked_cell robots robot) (robot_pos robot) (rev path) q" "q \<noteq> robot_pos robot"
  shows "heads_for robots robot (path_direction (robot_row robot) (robot_col robot) path) q"
  using path_direction_step [OF shortest_first_step(1,2) [OF assms]] shortest_first_step(1,4) [OF assms] assms(1)
  unfolding heads_for_def by (intro conjI exI [of _ "rev path"]) auto

lemma path_direction_here:
  assumes "shortest blocked p (rev path) p"
  shows "path_direction row col path = 0"
proof -
  have "walk blocked p [] \<and> last (p # []) = p" by simp
  with assms have "length (rev path) \<le> length ([] :: (int \<times> int) list)"
    unfolding shortest_def by blast
  then show ?thesis by (simp add: path_direction_def)
qed

lemma closest_fold:
  assumes "fold (closest_step par tr tc) cs (bd, br, bc) = (bd', br', bc')"
  shows "bd' \<le> bd \<and> (\<forall>(r, c) \<in> set cs. par (r, c) \<noteq> - 1 \<longrightarrow> bd' \<le> get_distance r c tr tc)
    \<and> ((bd', br', bc') = (bd, br, bc)
       \<or> (br', bc') \<in> set cs \<and> par (br', bc') \<noteq> - 1 \<and> bd' = get_distance br' bc' tr tc \<and> bd' < bd)"
  using assms
proof (induction cs arbitrary: bd br bc)
  case Nil
  then show ?case by simp
next
  case (Cons cell cs)
  obtain r c where cell: "cell = (r, c)" by fastforce
  show ?case
  proof (cases "par (r, c) \<noteq> - 1 \<and> get_distance r c tr tc < bd")
    case True
    then have "closest_step par tr tc cell (bd, br, bc) = (get_distance r c tr tc, r, c)"
      by (simp add: closest_step_def cell)
    with Cons.prems Cons.IH [of "get_distance r c tr tc" r c] True show ?thesis
      by (auto simp: cell)
  next
    case False
    then have "closest_step par tr tc cell (bd, br, bc) = (bd, br, bc)"
      by (auto simp: closest_step_def cell)
    with Cons.prems Cons.IH [of bd br bc] False show ?thesis
      by (auto simp: cell)
  qed
qed

lemma reaches_on_map:
  assumes "reaches (is_blocked_cell robots robot) p q" "cell_on_map p"
  shows "cell_on_map q"
proof -
  obtain qs where qs: "walk (is_blocked_cell robots robot) p qs" "last (p # qs) = q"
    using assms(1) unfolding reaches_def by blast
  show ?thesis
  proof (cases "qs = []")
    case True
    with qs(2) assms(2) show ?thesis by auto
  next
    case False
    then have "q \<in> set qs" using qs(2) by auto
    with qs(1) show ?thesis by (rule nav.walk_on_map)
  qed
qed

lemma get_next_direction_reachable:
  assumes "on_map (robot_row robot) (robot_col robot)"
    and "reaches (is_blocked_cell robots robot) (robot_pos robot) (tr, tc)"
  shows "\<exists>d. get_next_direction robots robot tr tc = Inr d \<and>
    (if (tr, tc) = robot_pos robot then d = 0 else heads_for robots robot d (tr, tc))"
proof -
  from nav.search_returns [OF assms(1)] obtain d s where s:
    "bfs_loop (is_blocked_cell robots robot) (bfs_init (robot_row robot) (robot_col robot)) = Some s"
    "nav.searched robots robot (robot_pos robot) d s" by blast
  from nav.path_loop_shortest [OF s(2) assms(2)] obtain path where path:
    "path_loop (parent s) (cell_number (robot_pos robot)) tr tc [] = Some path"
    "shortest (is_blocked_cell robots robot) (robot_pos robot) (rev path) (tr, tc)" by blast
  have "parent s (tr, tc) \<noteq> - 1" using nav.visited_iff [OF s(2)] assms(2) by blast
  then have "get_next_direction robots robot tr tc =
      Inr (path_direction (robot_row robot) (robot_col robot) path)"
    using s(1) path(1) by (simp add: get_next_direction_def Let_def)
  then show ?thesis
    using path(2) path_direction_here path_direction_heads_for [OF path(2)] by auto
qed

lemma get_next_direction_fallback:
  assumes "on_map (robot_row robot) (robot_col robot)"
    and "\<not> reaches (is_blocked_cell robots robot) (robot_pos robot) (tr, tc)"
  defines "near \<equiv> \<lambda>q. reaches (is_blocked_cell robots robot) (robot_pos robot) q"
  shows "\<exists>d. get_next_direction robots robot tr tc = Inr d \<and>
    (if \<exists>q. near q \<and> distance_to tr tc q < distance_to tr tc (robot_pos robot)
     then \<exists>q. near q \<and> (\<forall>q'. near q' \<longrightarrow> distance_to tr tc q \<le> distance_to tr tc q') \<and> heads_for robots robot d q
     else d = 0)"
proof -
  let ?p = "robot_pos robot"
  from nav.search_returns [OF assms(1)] obtain dd s where s:
    "bfs_loop (is_blocked_cell robots robot) (bfs_init (robot_row robot) (robot_col robot)) = Some s"
    "nav.searched robots robot ?p dd s" by blast
  note vis = nav.visited_iff [OF s(2)]
  have unv: "parent s (tr, tc) = - 1" using vis assms(2) by blast
  obtain bd br bc where fold: "fold (closest_step (parent s) tr tc) map_cells
      (distance_to tr tc ?p, robot_row robot, robot_col robot) = (bd, br, bc)" by (metis prod_cases3)
  note best = closest_fold [OF fold]
  have min: "bd \<le> distance_to tr tc q" if "near q" for q
  proof -
    have "cell_on_map q" using that assms(1) reaches_on_map unfolding near_def by auto
    then have "(fst q, snd q) \<in> set map_cells" unfolding set_map_cells .
    moreover have "parent s (fst q, snd q) \<noteq> - 1" using that vis unfolding near_def by simp
    ultimately show ?thesis using best by blast
  qed
  show ?thesis
  proof (cases "(br, bc) = ?p")
    case True
    have "\<not> bd < distance_to tr tc ?p" using best True by auto
    then have "\<not> (\<exists>q. near q \<and> distance_to tr tc q < distance_to tr tc ?p)"
      using min by fastforce
    moreover have "get_next_direction robots robot tr tc = Inr 0"
      using s(1) unv fold True by (simp add: get_next_direction_def Let_def)
    ultimately show ?thesis by auto
  next
    case False
    with best have b: "parent s (br, bc) \<noteq> - 1" "bd = distance_to tr tc (br, bc)" "bd < distance_to tr tc ?p"
      by auto
    then have near: "near (br, bc)" using vis unfolding near_def by blast
    then obtain path where path:
      "path_loop (parent s) (cell_number ?p) br bc [] = Some path"
      "shortest (is_blocked_cell robots robot) ?p (rev path) (br, bc)"
      using nav.path_loop_shortest [OF s(2)] unfolding near_def by blast
    let ?d = "path_direction (robot_row robot) (robot_col robot) path"
    have "get_next_direction robots robot tr tc = Inr ?d"
      using s(1) unv fold False path(1) by (auto simp: get_next_direction_def Let_def)
    moreover have "\<exists>q. near q \<and> distance_to tr tc q < distance_to tr tc ?p"
      using near b by (intro exI [of _ "(br, bc)"]) simp
    moreover have "\<exists>q. near q \<and> (\<forall>q'. near q' \<longrightarrow> distance_to tr tc q \<le> distance_to tr tc q')
        \<and> heads_for robots robot ?d q"
      using path_direction_heads_for [OF path(2) False] near b min
      by (intro exI [of _ "(br, bc)"]) auto
    ultimately show ?thesis by (intro exI [of _ ?d]) simp
  qed
qed

text \<open>The two parts the control loop uses: the search returns a direction code, and a step in that
  direction enters a free cell.\<close>

lemma heads_for_free:
  assumes "heads_for robots robot d q"
    and "get_next_position (robot_row robot) (robot_col robot) d = (nr, nc)"
  shows "\<not> is_blocked_cell robots robot nr nc"
proof -
  obtain qs where "walk (is_blocked_cell robots robot) (robot_pos robot) qs" "qs \<noteq> []" "hd qs = (nr, nc)"
    using assms by (auto simp: heads_for_def shortest_def)
  then show ?thesis by (cases qs) auto
qed

lemma heads_for_code: "heads_for robots robot d q \<Longrightarrow> d \<in> {0, 1, 2, 3, 4}"
  by (auto simp: heads_for_def)

lemma get_next_direction_returns:
  assumes "on_map (robot_row robot) (robot_col robot)"
  shows "\<exists>d. get_next_direction robots robot tr tc = Inr d \<and> d \<in> {0, 1, 2, 3, 4} \<and>
    (\<forall>nr nc. d \<noteq> 0 \<and> get_next_position (robot_row robot) (robot_col robot) d = (nr, nc) \<longrightarrow>
       \<not> is_blocked_cell robots robot nr nc)"
proof (cases "reaches (is_blocked_cell robots robot) (robot_pos robot) (tr, tc)")
  case True
  from get_next_direction_reachable [OF assms True] obtain d where d: "get_next_direction robots robot tr tc = Inr d"
    "if (tr, tc) = robot_pos robot then d = 0 else heads_for robots robot d (tr, tc)" by blast
  then have "d = 0 \<or> heads_for robots robot d (tr, tc)" by (auto split: if_splits)
  with d(1) show ?thesis using heads_for_free heads_for_code by (metis insertI1)
next
  case False
  from get_next_direction_fallback [OF assms False] obtain d where
    "get_next_direction robots robot tr tc = Inr d" "d = 0 \<or> (\<exists>q. heads_for robots robot d q)"
    by (auto split: if_splits)
  then show ?thesis using heads_for_free heads_for_code by (metis insertI1)
qed

end
