(* ===== verification/Messages.thy ===== *)
theory Messages
  imports Prelude
begin

text \<open>
  Message boxes between the central control node and the robots, from
  \<^verbatim>\<open>projects/automated_warehouse/aw_message.h\<close> and \<^verbatim>\<open>aw_message.c\<close>. Each robot has one box per
  direction; a box holds one message and a dirty bit. Both arrays live in the record
  \<open>message_boxes\<close>.

  The locale \<open>mailbox\<close> is the contract a reader of boxes relies on: what was sent to a slot is
  what is received from it, and other slots are not disturbed. Both directions are
  interpretations of it.
\<close>

record message =
  msg_row :: int
  msg_col :: int
  msg_current_payload :: int
  msg_required_payload :: int
  msg_completed :: int
  msg_cmd :: int

record message_box =
  dirtyBit :: int
  msg :: message

record message_boxes =
  boxes_from_central_control_node :: "message_box list"
  boxes_from_robots :: "message_box list"

definition zero_message :: message where
  "zero_message = \<lparr>msg_row = 0, msg_col = 0, msg_current_payload = 0, msg_required_payload = 0,
     msg_completed = 0, msg_cmd = 0\<rparr>"

text \<open>Every field of the freshly allocated arrays is overwritten, so nothing of their old contents
  remains.\<close>

definition init_message_boxes :: "int \<Rightarrow> message_boxes" where
  "init_message_boxes num_robots =
     \<lparr>boxes_from_central_control_node = replicate (nat num_robots) \<lparr>dirtyBit = 0, msg = zero_message\<rparr>,
      boxes_from_robots = replicate (nat num_robots) \<lparr>dirtyBit = 0, msg = zero_message\<rparr>\<rparr>"

definition send_message_to_central :: "nat \<Rightarrow> message \<Rightarrow> message_boxes \<Rightarrow> message_boxes" where
  "send_message_to_central robot_id m b =
     b\<lparr>boxes_from_robots := (boxes_from_robots b)[robot_id := \<lparr>dirtyBit = 1, msg = m\<rparr>]\<rparr>"

definition receive_message_from_robot :: "nat \<Rightarrow> message_boxes \<Rightarrow> message" where
  "receive_message_from_robot robot_id b = msg (boxes_from_robots b ! robot_id)"

definition send_command_to_robot :: "nat \<Rightarrow> int \<Rightarrow> message_boxes \<Rightarrow> message_boxes" where
  "send_command_to_robot robot_id cmd b =
     (let box = boxes_from_central_control_node b ! robot_id;
          box = box\<lparr>msg := (msg box)\<lparr>msg_cmd := cmd\<rparr>, dirtyBit := 1\<rparr>
      in b\<lparr>boxes_from_central_control_node := (boxes_from_central_control_node b)[robot_id := box]\<rparr>)"

definition receive_command_from_central :: "nat \<Rightarrow> message_boxes \<Rightarrow> int" where
  "receive_command_from_central robot_id b = msg_cmd (msg (boxes_from_central_control_node b ! robot_id))"

definition is_message_from_robot_ready :: "nat \<Rightarrow> message_boxes \<Rightarrow> bool" where
  "is_message_from_robot_ready robot_id b \<longleftrightarrow> dirtyBit (boxes_from_robots b ! robot_id) \<noteq> 0"

definition clear_message_box :: "nat \<Rightarrow> bool \<Rightarrow> message_boxes \<Rightarrow> message_boxes" where
  "clear_message_box robot_id from_central b =
     (if from_central then
        b\<lparr>boxes_from_central_control_node := (boxes_from_central_control_node b)
            [robot_id := (boxes_from_central_control_node b ! robot_id)\<lparr>dirtyBit := 0\<rparr>]\<rparr>
      else
        b\<lparr>boxes_from_robots := (boxes_from_robots b)
            [robot_id := (boxes_from_robots b ! robot_id)\<lparr>dirtyBit := 0\<rparr>]\<rparr>)"

subsection \<open>The contract of a bank of boxes\<close>

locale mailbox =
  fixes send :: "nat \<Rightarrow> 'v \<Rightarrow> 's \<Rightarrow> 's"
    and receive :: "nat \<Rightarrow> 's \<Rightarrow> 'v"
    and slots :: "'s \<Rightarrow> nat"
  assumes receive_send_same: "i < slots s \<Longrightarrow> receive i (send i v s) = v"
    and receive_send_other: "i \<noteq> j \<Longrightarrow> receive j (send i v s) = receive j s"
    and slots_send: "slots (send i v s) = slots s"
begin

lemma slots_fold: "slots (fold (\<lambda>i. send i (v i)) is s) = slots s"
  by (rule fold_frame) (rule slots_send)

text \<open>Sending to a list of slots leaves in each the value computed for it.\<close>

lemma receive_fold:
  assumes "i < slots s"
  shows "receive i (fold (\<lambda>j. send j (v j)) is s) = (if i \<in> set is then v i else receive i s)"
  using assms
proof (induction "is" arbitrary: s)
  case Nil
  then show ?case by simp
next
  case (Cons j js)
  then have "i < slots (send j (v j) s)" by (simp add: slots_send)
  note IH = Cons.IH [OF this]
  have "receive i (send j (v j) s) = (if i = j then v i else receive i s)"
    using Cons.prems by (auto simp: receive_send_same receive_send_other)
  then show ?case by (auto simp: IH)
qed

text \<open>The same for a loop that skips some slots.\<close>

lemma receive_fold_if:
  assumes "i < slots s"
  shows "receive i (fold (\<lambda>j s. if P j then send j (v j) s else s) is s) =
    (if i \<in> set is \<and> P i then v i else receive i s)"
  using assms
proof (induction "is" arbitrary: s)
  case Nil
  then show ?case by simp
next
  case (Cons j js)
  then have "i < slots (if P j then send j (v j) s else s)" by (simp add: slots_send)
  note IH = Cons.IH [OF this]
  have "receive i (send j (v j) s) = (if i = j then v i else receive i s)"
    using Cons.prems by (auto simp: receive_send_same receive_send_other)
  then show ?case by (auto simp: IH)
qed

lemma slots_fold_if: "slots (fold (\<lambda>j s. if P j then send j (v j) s else s) is s) = slots s"
  by (rule fold_frame) (simp add: slots_send)

end

text \<open>A bank with dirty bits: a box is ready from a send until it is cleared.\<close>

locale flagged_mailbox = mailbox send receive slots
  for send :: "nat \<Rightarrow> 'v \<Rightarrow> 's \<Rightarrow> 's" and receive :: "nat \<Rightarrow> 's \<Rightarrow> 'v" and slots :: "'s \<Rightarrow> nat" +
  fixes ready :: "nat \<Rightarrow> 's \<Rightarrow> bool"
    and clear :: "nat \<Rightarrow> 's \<Rightarrow> 's"
  assumes ready_send_same: "i < slots s \<Longrightarrow> ready i (send i v s)"
    and ready_send_other: "i \<noteq> j \<Longrightarrow> ready j (send i v s) = ready j s"
    and ready_clear_same: "i < slots s \<Longrightarrow> \<not> ready i (clear i s)"
    and ready_clear_other: "i \<noteq> j \<Longrightarrow> ready j (clear i s) = ready j s"
    and receive_clear: "i < slots s \<Longrightarrow> receive j (clear i s) = receive j s"
    and slots_clear: "slots (clear i s) = slots s"
begin

text \<open>A robot's whole turn on its own box, clear then send, leaves it ready with the new message.\<close>

lemma clear_send:
  assumes "i < slots s"
  shows "ready i (send i v (clear i s))" "receive i (send i v (clear i s)) = v"
    "j \<noteq> i \<Longrightarrow> receive j (send i v (clear i s)) = receive j s"
    "j \<noteq> i \<Longrightarrow> ready j (send i v (clear i s)) = ready j s"
  using assms
  by (simp_all add: ready_send_same receive_send_same receive_send_other receive_clear slots_clear
      ready_send_other ready_clear_other)

end

interpretation to_central: flagged_mailbox send_message_to_central receive_message_from_robot
    "\<lambda>b. length (boxes_from_robots b)" is_message_from_robot_ready "\<lambda>i. clear_message_box i False"
  by unfold_locales
    (auto simp: send_message_to_central_def receive_message_from_robot_def
      is_message_from_robot_ready_def clear_message_box_def nth_list_update)

interpretation to_robot: mailbox send_command_to_robot receive_command_from_central
    "\<lambda>b. length (boxes_from_central_control_node b)"
  by unfold_locales
    (auto simp: send_command_to_robot_def receive_command_from_central_def Let_def nth_list_update)

text \<open>Traffic in one direction does not touch the other.\<close>

lemma message_frames [frame_simps, simp]:
  "boxes_from_central_control_node (send_message_to_central i m b) = boxes_from_central_control_node b"
  "boxes_from_robots (send_command_to_robot i c b) = boxes_from_robots b"
  "boxes_from_robots (clear_message_box i True b) = boxes_from_robots b"
  "boxes_from_central_control_node (clear_message_box i False b) = boxes_from_central_control_node b"
  by (simp_all add: send_message_to_central_def send_command_to_robot_def clear_message_box_def Let_def)

lemma message_lengths [frame_simps, simp]:
  "length (boxes_from_robots (send_message_to_central i m b)) = length (boxes_from_robots b)"
  "length (boxes_from_central_control_node (send_command_to_robot i c b)) =
     length (boxes_from_central_control_node b)"
  "length (boxes_from_robots (clear_message_box i d b)) = length (boxes_from_robots b)"
  "length (boxes_from_central_control_node (clear_message_box i d b)) =
     length (boxes_from_central_control_node b)"
  by (simp_all add: send_message_to_central_def send_command_to_robot_def clear_message_box_def Let_def)

lemma cross_frames [simp]:
  "receive_command_from_central j (send_message_to_central i m b) = receive_command_from_central j b"
  "receive_message_from_robot j (send_command_to_robot i c b) = receive_message_from_robot j b"
  "is_message_from_robot_ready j (send_command_to_robot i c b) = is_message_from_robot_ready j b"
  "receive_message_from_robot j (clear_message_box i True b) = receive_message_from_robot j b"
  "receive_command_from_central j (clear_message_box i False b) = receive_command_from_central j b"
  by (simp_all add: receive_command_from_central_def receive_message_from_robot_def
      is_message_from_robot_ready_def)

lemma receive_command_clear [simp]:
  "receive_command_from_central j (clear_message_box i True b) = receive_command_from_central j b"
  by (cases "i < length (boxes_from_central_control_node b)")
    (auto simp: receive_command_from_central_def clear_message_box_def nth_list_update list_update_beyond)

end
