(* ===== verification/Control.thy ===== *)
theory Control
  imports Shortest_Path Messages
begin

text \<open>
  The central control thread, from \<^verbatim>\<open>projects/automated_warehouse/automated_warehouse.c\<close>. The record
  \<open>warehouse\<close> holds the file's global variables together with the message boxes, the step counter
  of \<^verbatim>\<open>aw_manager.c\<close>, the calls of \<^verbatim>\<open>print_map\<close> made so far (step and robots, latest first) and
  whether \<^verbatim>\<open>shutdown_power_off\<close> has been called. Each pair of arrays \<^verbatim>\<open>x_row[]\<close>, \<^verbatim>\<open>x_col[]\<close> is one list of
  pairs; the robot index \<open>-1\<close> is \<open>None\<close>.

  One definition per stage of the loop body, in the order of the code, and
  \<open>central_iteration\<close> composes them. A search that did not return would make the whole iteration
  not return; \<open>central_iteration_returns\<close> shows that it does return.
\<close>

record warehouse =
  robots :: "robot list"
  number_of_robots :: int
  current_pos :: "(int \<times> int) list"
  target_pos :: "(int \<times> int) list"
  desired_cmd :: "int list"
  next_pos :: "(int \<times> int) list"
  accepted :: "int list"
  considered :: "int list"
  wait_steps :: "int list"
  sacrifice_robot_idx :: "nat option"
  boxes :: message_boxes
  step :: "32 word"
  printed :: "(32 word \<times> robot list) list"
  powered_off :: bool

definition MAX_ROBOTS :: nat where
  "MAX_ROBOTS = 100"

abbreviation n_robots :: "warehouse \<Rightarrow> nat" where
  "n_robots w \<equiv> nat (number_of_robots w)"

subsection \<open>Starting up and collecting messages\<close>

definition central_start :: "warehouse \<Rightarrow> warehouse result" where
  "central_start w =
     (if n_robots w > MAX_ROBOTS then Inl Out_of_bounds
      else Inr (fold (\<lambda>i w. w\<lparr>wait_steps := (wait_steps w)[i := 0]\<rparr>) [0..<n_robots w] w))"

definition all_ready :: "int \<Rightarrow> message_boxes \<Rightarrow> bool" where
  "all_ready n b = list_all (\<lambda>i. is_message_from_robot_ready i b) [0..<nat n]"

text \<open>The polling loop: \<open>env k\<close> are the boxes seen after \<open>k\<close> sleeps. The result is the number of sleeps.\<close>

function poll_messages :: "(nat \<Rightarrow> message_boxes) \<Rightarrow> int \<Rightarrow> nat \<Rightarrow> nat" where
  "poll_messages env n timeout =
     (if \<not> all_ready n (env timeout) \<and> timeout < 100 then poll_messages env n (timeout + 1) else timeout)"
  by pat_completeness auto
termination
  by (relation "measure (\<lambda>(env, n, timeout). 100 - timeout)") auto

declare poll_messages.simps [simp del]

definition collect_state :: "nat \<Rightarrow> warehouse \<Rightarrow> warehouse" where
  "collect_state i w =
     (let m = receive_message_from_robot i (boxes w) in
      w\<lparr>robots := (robots w)[i := (robots w ! i)\<lparr>robot_row := msg_row m, robot_col := msg_col m,
          current_payload := msg_current_payload m, required_payload := msg_required_payload m,
          task_completed := msg_completed m\<rparr>]\<rparr>)"

definition collect_states :: "warehouse \<Rightarrow> warehouse" where
  "collect_states w = fold collect_state [0..<n_robots w] w"

definition all_tasks_completed :: "warehouse \<Rightarrow> bool" where
  "all_tasks_completed w =
     list_all (\<lambda>i. \<not> (task_completed (robots w ! i) = 0 \<or> current_payload (robots w ! i) \<noteq> 0))
       [0..<n_robots w]"

definition send_wait_all :: "warehouse \<Rightarrow> warehouse" where
  "send_wait_all w = w\<lparr>boxes := fold (\<lambda>i. send_command_to_robot i 0) [0..<n_robots w] (boxes w)\<rparr>"

subsection \<open>Stage 1: targets, desired commands, next positions\<close>

definition plan_robot :: "nat \<Rightarrow> warehouse \<Rightarrow> warehouse result" where
  "plan_robot i w =
     (let rb = robots w ! i;
          w = w\<lparr>current_pos := (current_pos w)[i := robot_pos rb],
                target_pos := (target_pos w)[i := (- 1, - 1)],
                desired_cmd := (desired_cmd w)[i := 0],
                next_pos := (next_pos w)[i := robot_pos rb],
                accepted := (accepted w)[i := 0],
                considered := (considered w)[i := 0]\<rparr>
      in if task_completed rb = 0 then
           let target = get_robot_target rb in
           rbind (if sacrifice_robot_idx w = Some i then Inr 0
                  else get_next_direction (robots w) rb (fst target) (snd target)) (\<lambda>cmd.
             Inr (w\<lparr>target_pos := (target_pos w)[i := target],
                    desired_cmd := (desired_cmd w)[i := cmd],
                    next_pos := (next_pos w)[i := get_next_position (robot_row rb) (robot_col rb) cmd]\<rparr>))
         else Inr w)"

fun plan_robots :: "nat list \<Rightarrow> warehouse \<Rightarrow> warehouse result" where
  "plan_robots [] w = Inr w"
| "plan_robots (i # is) w = rbind (plan_robot i w) (plan_robots is)"

subsection \<open>Stage 2: accepting moves, longest waiting first\<close>

definition can_accept_batch_move :: "nat \<Rightarrow> warehouse \<Rightarrow> bool" where
  "can_accept_batch_move robot_idx w =
     list_all (\<lambda>i.
       if i = robot_idx then True
       else if accepted w ! i \<noteq> 0 then
         \<not> (current_pos w ! robot_idx = current_pos w ! i
            \<or> current_pos w ! robot_idx = next_pos w ! i
            \<or> next_pos w ! robot_idx = current_pos w ! i
            \<or> next_pos w ! robot_idx = next_pos w ! i)
       else
         \<not> (\<not> is_shared_place (fst (next_pos w ! robot_idx)) (snd (next_pos w ! robot_idx))
            \<and> next_pos w ! robot_idx = current_pos w ! i))
     [0..<n_robots w]"

definition pick_step :: "warehouse \<Rightarrow> nat \<Rightarrow> nat option \<times> int \<Rightarrow> nat option \<times> int" where
  "pick_step w i best =
     (let (robot_idx, best_wait) = best in
      if considered w ! i \<noteq> 0 \<or> task_completed (robots w ! i) \<noteq> 0 then best
      else if robot_idx = None \<or> wait_steps w ! i > best_wait then (Some i, wait_steps w ! i)
      else best)"

definition pick_robot :: "warehouse \<Rightarrow> nat option" where
  "pick_robot w = fst (fold (pick_step w) [0..<n_robots w] (None, - 1))"

text \<open>The first argument counts the remaining rounds of \<^verbatim>\<open>for (checked = 0; checked < n_robots; ...)\<close>, the
  second is \<^verbatim>\<open>accepted_count\<close>.\<close>

fun accept_moves :: "nat \<Rightarrow> int \<Rightarrow> warehouse \<Rightarrow> int \<times> warehouse" where
  "accept_moves 0 accepted_count w = (accepted_count, w)"
| "accept_moves (Suc rounds) accepted_count w =
     (case pick_robot w of
        None \<Rightarrow> (accepted_count, w)
      | Some robot_idx \<Rightarrow>
          let w = w\<lparr>considered := (considered w)[robot_idx := 1]\<rparr> in
          if desired_cmd w ! robot_idx \<noteq> 0 \<and> can_accept_batch_move robot_idx w
          then accept_moves rounds (accepted_count + 1) (w\<lparr>accepted := (accepted w)[robot_idx := 1]\<rparr>)
          else accept_moves rounds accepted_count w)"

subsection \<open>Stage 3: deadlock\<close>

definition escape_of :: "warehouse \<Rightarrow> nat \<Rightarrow> int" where
  "escape_of w i =
     get_escape_direction (robots w) (robots w ! i) (fst (target_pos w ! i)) (snd (target_pos w ! i))"

definition victim_step :: "warehouse \<Rightarrow> nat \<Rightarrow> nat option \<times> int \<times> int \<Rightarrow> nat option \<times> int \<times> int" where
  "victim_step w i best =
     (let (victim_idx, victim_wait, victim_direction) = best in
      if task_completed (robots w ! i) \<noteq> 0 then best
      else
        let direction = escape_of w i in
        if direction \<noteq> 0 \<and> wait_steps w ! i > victim_wait
        then (Some i, wait_steps w ! i, direction) else best)"

text \<open>Returns \<^verbatim>\<open>victim_idx\<close>, \<^verbatim>\<open>*victim_direction\<close> and the state with \<^verbatim>\<open>sacrifice_robot_idx\<close> updated.\<close>

definition choose_deadlock_victim :: "warehouse \<Rightarrow> nat option \<times> int \<times> warehouse" where
  "choose_deadlock_victim w =
     (let keep = (case sacrifice_robot_idx w of
            None \<Rightarrow> False
          | Some k \<Rightarrow> k < n_robots w \<and> task_completed (robots w ! k) = 0 \<and> escape_of w k \<noteq> 0)
      in if keep then (sacrifice_robot_idx w, escape_of w (the (sacrifice_robot_idx w)), w)
         else
           let (victim_idx, _, victim_direction) = fold (victim_step w) [0..<n_robots w] (None, - 1, 0)
           in (victim_idx, victim_direction, w\<lparr>sacrifice_robot_idx := victim_idx\<rparr>))"

definition resolve_deadlock :: "int \<Rightarrow> warehouse \<Rightarrow> int \<times> warehouse" where
  "resolve_deadlock accepted_count w =
     (if accepted_count = 0 then
        let (victim_idx, victim_direction, w) = choose_deadlock_victim w in
        (case victim_idx of
           Some v \<Rightarrow>
             if victim_direction \<noteq> 0 then
               (1, w\<lparr>desired_cmd := (desired_cmd w)[v := victim_direction],
                     next_pos := (next_pos w)[v := get_next_position (robot_row (robots w ! v))
                                   (robot_col (robots w ! v)) victim_direction],
                     accepted := (accepted w)[v := 1]\<rparr>)
             else (accepted_count, w)
         | None \<Rightarrow> (accepted_count, w))
      else (accepted_count, w\<lparr>sacrifice_robot_idx := None\<rparr>))"

subsection \<open>Stage 4: commands, waiting times, next step\<close>

definition dispatch_commands :: "int \<Rightarrow> warehouse \<Rightarrow> warehouse" where
  "dispatch_commands accepted_count w =
     (if accepted_count > 0 then
        w\<lparr>boxes := fold (\<lambda>i b. if accepted w ! i \<noteq> 0 then send_command_to_robot i (desired_cmd w ! i) b else b)
                    [0..<n_robots w] (boxes w)\<rparr>
      else w\<lparr>sacrifice_robot_idx := None\<rparr>)"

definition update_wait :: "nat \<Rightarrow> warehouse \<Rightarrow> warehouse" where
  "update_wait i w =
     (if task_completed (robots w ! i) \<noteq> 0 \<or> accepted w ! i \<noteq> 0
      then w\<lparr>wait_steps := (wait_steps w)[i := 0]\<rparr>
      else w\<lparr>wait_steps := (wait_steps w)[i := wait_steps w ! i + 1]\<rparr>)"

definition increase_step :: "warehouse \<Rightarrow> warehouse" where
  "increase_step w = w\<lparr>step := step w + 1\<rparr>"

definition decide_moves :: "warehouse \<Rightarrow> warehouse result" where
  "decide_moves w =
     rbind (plan_robots [0..<n_robots w] (send_wait_all w)) (\<lambda>w.
       let (accepted_count, w) = accept_moves (n_robots w) 0 w;
           (accepted_count, w) = resolve_deadlock accepted_count w;
           w = dispatch_commands accepted_count w;
           w = fold update_wait [0..<n_robots w] w
       in Inr (increase_step w))"

text \<open>The body of \<^verbatim>\<open>while (1)\<close> after the polling loop, up to the call of \<^verbatim>\<open>unblock_threads\<close>. The call of
  \<^verbatim>\<open>shutdown_power_off\<close> does not return.\<close>

definition central_iteration :: "warehouse \<Rightarrow> warehouse result" where
  "central_iteration w =
     (let w = collect_states w;
          w = w\<lparr>printed := (step w, robots w) # printed w\<rparr>
      in if all_tasks_completed w then Inr (w\<lparr>powered_off := True\<rparr>) else decide_moves w)"


subsection \<open>Free cells\<close>

lemma occupant_blocks_eq:
  "occupant_blocks rs row col =
     (if \<exists>q \<in> set rs. robot_pos q = (row, col) then Some (\<not> is_shared_place row col) else None)"
  by (induction rs) (auto simp: is_shared_place_def Let_def)

text \<open>A shelf cell that a robot may not enter: it is not the shelf of the item it still has to load.\<close>

definition shelf_closed :: "robot \<Rightarrow> int \<Rightarrow> int \<Rightarrow> bool" where
  "shelf_closed rb row col \<longleftrightarrow>
     schar (map_cell row col) \<ge> schar (CHR ''1'') \<and> schar (map_cell row col) \<le> schar (CHR ''9'')
     \<and> \<not> (current_payload rb = 0 \<and> schar (map_cell row col) = schar (required_item rb) + schar (CHR ''0''))"

lemma is_blocked_cell_iff:
  "is_blocked_cell rs rb row col \<longleftrightarrow>
     \<not> on_map row col \<or> map_cell row col = CHR ''X''
     \<or> (if \<exists>q \<in> set rs. robot_pos q = (row, col) then \<not> is_shared_place row col
        else shelf_closed rb row col)"
  by (auto simp: is_blocked_cell_def on_map_def occupant_blocks_eq shelf_closed_def Let_def)

lemma shared_not_shelf: "is_shared_place row col \<Longrightarrow> \<not> shelf_closed rb row col"
  by (auto simp: is_shared_place_def shelf_closed_def schar_def Let_def)

lemma free_occupied_shared:
  "\<not> is_blocked_cell rs rb row col \<Longrightarrow> q \<in> set rs \<Longrightarrow> robot_pos q = (row, col) \<Longrightarrow> is_shared_place row col"
  by (auto simp: is_blocked_cell_iff split: if_splits)

text \<open>A free cell stays free when the other robots move, as long as none of them is on it,
  or it is a shared place.\<close>

lemma free_cell_stays_free:
  assumes "\<not> is_blocked_cell rs rb row col"
    and "\<And>q. q \<in> set rs' \<Longrightarrow> robot_pos q = (row, col) \<Longrightarrow> is_shared_place row col"
  shows "\<not> is_blocked_cell rs' rb row col"
  using assms shared_not_shelf [of row col rb] by (auto simp: is_blocked_cell_iff split: if_splits)

subsection \<open>Escape directions\<close>

text \<open>What the scan over the four directions keeps: a chosen direction is a code whose cell is free
  and not closer to the target, and has the best score of all such directions seen.\<close>

lemma escape_fold:
  assumes "fold (escape_step rs rb tr tc) dds (sc, di) = (sc', di')"
    and "\<forall>(k, dr, dc) \<in> set dds. k \<in> {1, 2, 3, 4} \<and> get_next_position (robot_row rb) (robot_col rb) k =
           (robot_row rb + dr, robot_col rb + dc)"
  shows "di' = di \<or> (di' \<in> {1, 2, 3, 4} \<and>
    (\<forall>nr nc. get_next_position (robot_row rb) (robot_col rb) di' = (nr, nc) \<longrightarrow>
       \<not> is_blocked_cell rs rb nr nc
       \<and> get_distance nr nc tr tc \<ge> get_distance (robot_row rb) (robot_col rb) tr tc))"
  using assms
proof (induction dds arbitrary: sc di)
  case Nil
  then show ?case by simp
next
  case (Cons dd dds)
  obtain k dr dc where dd: "dd = (k, dr, dc)" using prod_cases3 by blast
  obtain sc1 di1 where step: "escape_step rs rb tr tc dd (sc, di) = (sc1, di1)" by fastforce
  have IH: "di' = di1 \<or> (di' \<in> {1, 2, 3, 4} \<and>
    (\<forall>nr nc. get_next_position (robot_row rb) (robot_col rb) di' = (nr, nc) \<longrightarrow>
       \<not> is_blocked_cell rs rb nr nc
       \<and> get_distance nr nc tr tc \<ge> get_distance (robot_row rb) (robot_col rb) tr tc))"
    using Cons.prems step by (intro Cons.IH [of sc1 di1]) auto
  have "di1 = di \<or> di1 = k \<and> \<not> is_blocked_cell rs rb (robot_row rb + dr) (robot_col rb + dc) \<and>
      get_distance (robot_row rb + dr) (robot_col rb + dc) tr tc
        \<ge> get_distance (robot_row rb) (robot_col rb) tr tc"
    using step by (auto simp: escape_step_def dd Let_def split: if_splits)
  with IH Cons.prems(2) show ?case by (auto simp: dd)
qed

lemma get_escape_direction_free:
  assumes "get_escape_direction rs rb tr tc = d" "d \<noteq> 0"
  shows "d \<in> {1, 2, 3, 4}"
    "get_next_position (robot_row rb) (robot_col rb) d = (nr, nc) \<Longrightarrow> \<not> is_blocked_cell rs rb nr nc"
    "get_next_position (robot_row rb) (robot_col rb) d = (nr, nc) \<Longrightarrow>
       get_distance nr nc tr tc \<ge> get_distance (robot_row rb) (robot_col rb) tr tc"
proof -
  obtain sc where f: "fold (escape_step rs rb tr tc) escape_dirs (- 1000000, 0) = (sc, d)"
    using assms(1) by (metis get_escape_direction_def prod.collapse)
  have "\<forall>(k, dr, dc) \<in> set escape_dirs. k \<in> {1, 2, 3, 4} \<and>
      get_next_position (robot_row rb) (robot_col rb) k = (robot_row rb + dr, robot_col rb + dc)"
    by (simp add: escape_dirs_def get_next_position_def)
  from escape_fold [OF f this] assms(2)
  show "d \<in> {1, 2, 3, 4}"
    "get_next_position (robot_row rb) (robot_col rb) d = (nr, nc) \<Longrightarrow> \<not> is_blocked_cell rs rb nr nc"
    "get_next_position (robot_row rb) (robot_col rb) d = (nr, nc) \<Longrightarrow>
       get_distance nr nc tr tc \<ge> get_distance (robot_row rb) (robot_col rb) tr tc"
    by blast+
qed

end
