(* ===== verification/Safe_Moves.thy ===== *)
theory Safe_Moves
  imports Control
begin

text \<open>
  The moves the central control thread orders in one iteration are safe and make progress. The
  stages of the loop body are taken one by one: what a stage establishes for the robots it has
  handled, what it leaves alone. \<open>safe_batch\<close> is the abstract specification of the batch: any two
  moving robots have four different cells, a moving robot goes to a free cell, and it meets a
  waiting robot only on a shared place.
\<close>

definition goal :: "robot \<Rightarrow> int \<Rightarrow> int \<times> int" where
  "goal rb cmd = get_next_position (robot_row rb) (robot_col rb) cmd"

definition safe_batch :: "robot list \<Rightarrow> (nat \<Rightarrow> int) \<Rightarrow> bool" where
  "safe_batch rs cmd \<longleftrightarrow>
     (\<forall>i<length rs. cmd i \<in> {0, 1, 2, 3, 4} \<and>
       (cmd i \<noteq> 0 \<longrightarrow> task_completed (rs ! i) = 0
         \<and> \<not> blocked_at (is_blocked_cell rs (rs ! i)) (goal (rs ! i) (cmd i))
         \<and> (\<forall>j<length rs. j \<noteq> i \<longrightarrow>
              (if cmd j \<noteq> 0
               then robot_pos (rs ! i) \<noteq> robot_pos (rs ! j) \<and> robot_pos (rs ! i) \<noteq> goal (rs ! j) (cmd j)
                 \<and> goal (rs ! i) (cmd i) \<noteq> robot_pos (rs ! j) \<and> goal (rs ! i) (cmd i) \<noteq> goal (rs ! j) (cmd j)
               else goal (rs ! i) (cmd i) = robot_pos (rs ! j) \<longrightarrow>
                 is_shared_place (robot_row (rs ! j)) (robot_col (rs ! j))))))"

lemma safe_batchD:
  assumes "safe_batch rs cmd" "i < length rs"
  shows safe_batch_code: "cmd i \<in> {0, 1, 2, 3, 4}"
    and safe_batch_unfinished: "cmd i \<noteq> 0 \<Longrightarrow> task_completed (rs ! i) = 0"
    and safe_batch_free: "cmd i \<noteq> 0 \<Longrightarrow> \<not> blocked_at (is_blocked_cell rs (rs ! i)) (goal (rs ! i) (cmd i))"
    and safe_batch_movers: "\<lbrakk>j < length rs; j \<noteq> i; cmd i \<noteq> 0; cmd j \<noteq> 0\<rbrakk> \<Longrightarrow>
      goal (rs ! i) (cmd i) \<noteq> robot_pos (rs ! j) \<and> goal (rs ! i) (cmd i) \<noteq> goal (rs ! j) (cmd j)"
    and safe_batch_waiting: "\<lbrakk>j < length rs; j \<noteq> i; cmd i \<noteq> 0; cmd j = 0; goal (rs ! i) (cmd i) = robot_pos (rs ! j)\<rbrakk> \<Longrightarrow>
      is_shared_place (robot_row (rs ! j)) (robot_col (rs ! j))"
proof -
  note d = assms(1) [unfolded safe_batch_def, rule_format, OF assms(2)]
  show "cmd i \<in> {0, 1, 2, 3, 4}" using d by simp
  show "cmd i \<noteq> 0 \<Longrightarrow> task_completed (rs ! i) = 0"
    "cmd i \<noteq> 0 \<Longrightarrow> \<not> blocked_at (is_blocked_cell rs (rs ! i)) (goal (rs ! i) (cmd i))" using d by simp_all
  show "\<lbrakk>j < length rs; j \<noteq> i; cmd i \<noteq> 0; cmd j \<noteq> 0\<rbrakk> \<Longrightarrow>
      goal (rs ! i) (cmd i) \<noteq> robot_pos (rs ! j) \<and> goal (rs ! i) (cmd i) \<noteq> goal (rs ! j) (cmd j)"
    "\<lbrakk>j < length rs; j \<noteq> i; cmd i \<noteq> 0; cmd j = 0; goal (rs ! i) (cmd i) = robot_pos (rs ! j)\<rbrakk> \<Longrightarrow>
      is_shared_place (robot_row (rs ! j)) (robot_col (rs ! j))"
    using d by simp_all
qed

text \<open>Array sizes: the robots and the boxes are allocated for the robots there are, the planning arrays
  have \<^const>\<open>MAX_ROBOTS\<close> entries.\<close>

definition wh_shape :: "warehouse \<Rightarrow> bool" where
  "wh_shape w \<longleftrightarrow> length (robots w) = n_robots w \<and> n_robots w \<le> MAX_ROBOTS
     \<and> length (current_pos w) = MAX_ROBOTS \<and> length (target_pos w) = MAX_ROBOTS
     \<and> length (desired_cmd w) = MAX_ROBOTS \<and> length (next_pos w) = MAX_ROBOTS
     \<and> length (accepted w) = MAX_ROBOTS \<and> length (considered w) = MAX_ROBOTS
     \<and> length (wait_steps w) = MAX_ROBOTS
     \<and> length (boxes_from_central_control_node (boxes w)) = n_robots w
     \<and> length (boxes_from_robots (boxes w)) = n_robots w"

definition robots_on_map :: "robot list \<Rightarrow> bool" where
  "robots_on_map rs \<longleftrightarrow> (\<forall>rb \<in> set rs. on_map (robot_row rb) (robot_col rb))"

text \<open>What a stage that only writes the planning arrays leaves alone.\<close>

definition same_world :: "warehouse \<Rightarrow> warehouse \<Rightarrow> bool" where
  "same_world w w' \<longleftrightarrow> robots w' = robots w \<and> number_of_robots w' = number_of_robots w
     \<and> wait_steps w' = wait_steps w \<and> boxes w' = boxes w \<and> step w' = step w
     \<and> printed w' = printed w \<and> powered_off w' = powered_off w"

lemma same_world_refl [simp]: "same_world w w"
  by (simp add: same_world_def)

lemma same_world_trans: "same_world w w' \<Longrightarrow> same_world w' w'' \<Longrightarrow> same_world w w''"
  by (simp add: same_world_def)

subsection \<open>Planning\<close>

definition planned :: "warehouse \<Rightarrow> nat \<Rightarrow> bool" where
  "planned w i \<longleftrightarrow>
     current_pos w ! i = robot_pos (robots w ! i)
     \<and> next_pos w ! i = goal (robots w ! i) (desired_cmd w ! i)
     \<and> desired_cmd w ! i \<in> {0, 1, 2, 3, 4}
     \<and> (desired_cmd w ! i \<noteq> 0 \<longrightarrow> task_completed (robots w ! i) = 0
          \<and> \<not> blocked_at (is_blocked_cell (robots w) (robots w ! i)) (goal (robots w ! i) (desired_cmd w ! i)))"

text \<open>The command stage 1 computes for a robot: none for a finished or sacrificed robot.\<close>

definition wanted_cmd :: "warehouse \<Rightarrow> nat \<Rightarrow> int" where
  "wanted_cmd w i =
     (if task_completed (robots w ! i) \<noteq> 0 \<or> sacrifice_robot_idx w = Some i then 0
      else case get_next_direction (robots w) (robots w ! i) (fst (get_robot_target (robots w ! i)))
                  (snd (get_robot_target (robots w ! i))) of
             Inr d \<Rightarrow> d | Inl _ \<Rightarrow> 0)"

definition undecided :: "warehouse \<Rightarrow> nat \<Rightarrow> bool" where
  "undecided w i \<longleftrightarrow> accepted w ! i = 0 \<and> considered w ! i = 0 \<and> desired_cmd w ! i = wanted_cmd w i
     \<and> (task_completed (robots w ! i) = 0 \<longrightarrow> target_pos w ! i = get_robot_target (robots w ! i))"

lemma goal_0 [simp]: "goal rb 0 = robot_pos rb"
  by (simp add: goal_def get_next_position_def)

lemma plan_robot_ok:
  assumes "wh_shape w" "i < n_robots w" "robots_on_map (robots w)"
  shows "\<exists>w'. plan_robot i w = Inr w' \<and> same_world w w' \<and> wh_shape w'
    \<and> sacrifice_robot_idx w' = sacrifice_robot_idx w
    \<and> planned w' i \<and> undecided w' i
    \<and> (\<forall>j. j \<noteq> i \<longrightarrow> planned w' j = planned w j \<and> undecided w' j = undecided w j)"
proof -
  let ?rb = "robots w ! i" and ?t = "get_robot_target (robots w ! i)"
  have len: "i < length (robots w)" "i < 100" using assms by (auto simp: wh_shape_def MAX_ROBOTS_def)
  then have "on_map (robot_row ?rb) (robot_col ?rb)"
    using assms(3) by (simp add: robots_on_map_def)
  from get_next_direction_returns [OF this, of "robots w" "fst ?t" "snd ?t"] obtain d where d:
    "get_next_direction (robots w) ?rb (fst ?t) (snd ?t) = Inr d" "d \<in> {0, 1, 2, 3, 4}"
    "d \<noteq> 0 \<Longrightarrow> \<not> blocked_at (is_blocked_cell (robots w) ?rb) (goal ?rb d)"
    unfolding goal_def by (metis prod.collapse)
  have goal0: "goal ?rb 0 = robot_pos ?rb" by simp
  show ?thesis
    using assms(1) len d goal0
    by (auto simp: plan_robot_def Let_def same_world_def wh_shape_def planned_def undecided_def
        MAX_ROBOTS_def goal_def [symmetric] wanted_cmd_def)
qed

lemma plan_robots_ok:
  assumes "wh_shape w" "set is \<subseteq> {..<n_robots w}" "robots_on_map (robots w)"
    and "\<forall>j \<in> J. planned w j \<and> undecided w j"
  shows "\<exists>w'. plan_robots is w = Inr w' \<and> same_world w w' \<and> wh_shape w'
    \<and> sacrifice_robot_idx w' = sacrifice_robot_idx w
    \<and> (\<forall>j \<in> set is \<union> J. planned w' j \<and> undecided w' j)"
  using assms
proof (induction "is" arbitrary: w J)
  case Nil
  then show ?case by auto
next
  case (Cons i "is")
  from plan_robot_ok [OF Cons.prems(1) _ Cons.prems(3), of i] Cons.prems(2) obtain w1 where w1:
    "plan_robot i w = Inr w1" "same_world w w1" "wh_shape w1"
    "sacrifice_robot_idx w1 = sacrifice_robot_idx w" "planned w1 i" "undecided w1 i"
    "\<forall>j. j \<noteq> i \<longrightarrow> planned w1 j = planned w j \<and> undecided w1 j = undecided w j" by auto
  have "\<exists>w'. plan_robots is w1 = Inr w' \<and> same_world w1 w' \<and> wh_shape w'
    \<and> sacrifice_robot_idx w' = sacrifice_robot_idx w1
    \<and> (\<forall>j \<in> set is \<union> insert i J. planned w' j \<and> undecided w' j)"
    using w1 Cons.prems by (intro Cons.IH) (auto simp: same_world_def)
  then show ?case
    using w1 by (auto intro: same_world_trans)
qed

subsection \<open>Accepting\<close>

text \<open>Two robots may move at the same time.\<close>

definition disjoint_moves :: "warehouse \<Rightarrow> nat \<Rightarrow> nat \<Rightarrow> bool" where
  "disjoint_moves w i j \<longleftrightarrow>
     current_pos w ! i \<noteq> current_pos w ! j \<and> current_pos w ! i \<noteq> next_pos w ! j
     \<and> next_pos w ! i \<noteq> current_pos w ! j \<and> next_pos w ! i \<noteq> next_pos w ! j"

definition accept_inv :: "int \<Rightarrow> warehouse \<Rightarrow> bool" where
  "accept_inv cnt w \<longleftrightarrow>
     (\<forall>i<n_robots w. planned w i)
     \<and> (\<forall>i<n_robots w. accepted w ! i \<noteq> 0 \<longrightarrow> desired_cmd w ! i \<noteq> 0)
     \<and> (\<forall>i<n_robots w. \<forall>j<n_robots w. i \<noteq> j \<and> accepted w ! i \<noteq> 0 \<and> accepted w ! j \<noteq> 0 \<longrightarrow> disjoint_moves w i j)
     \<and> 0 \<le> cnt \<and> (cnt = 0 \<longleftrightarrow> (\<forall>i<n_robots w. accepted w ! i = 0))"

lemma planned_considered [simp]: "planned (w\<lparr>considered := c\<rparr>) = planned w"
  by (simp add: planned_def fun_eq_iff)

lemma planned_accepted [simp]: "planned (w\<lparr>accepted := c\<rparr>) = planned w"
  by (simp add: planned_def fun_eq_iff)

lemma disjoint_moves_upd [simp]:
  "disjoint_moves (w\<lparr>considered := c\<rparr>) = disjoint_moves w"
  "disjoint_moves (w\<lparr>accepted := c\<rparr>) = disjoint_moves w"
  by (simp_all add: disjoint_moves_def fun_eq_iff)

lemma sacrifice_frame [simp]:
  "accept_inv cnt (w\<lparr>sacrifice_robot_idx := v\<rparr>) = accept_inv cnt w"
  "wh_shape (w\<lparr>sacrifice_robot_idx := v\<rparr>) = wh_shape w"
  "same_world w (w\<lparr>sacrifice_robot_idx := v\<rparr>)"
  by (simp_all add: accept_inv_def planned_def disjoint_moves_def wh_shape_def same_world_def)

lemma disjoint_moves_sym: "disjoint_moves w i j \<Longrightarrow> disjoint_moves w j i"
  by (auto simp: disjoint_moves_def)

lemma can_accept_disjoint:
  "can_accept_batch_move k w \<Longrightarrow> i < n_robots w \<Longrightarrow> i \<noteq> k \<Longrightarrow> accepted w ! i \<noteq> 0 \<Longrightarrow> disjoint_moves w k i"
  by (auto simp: can_accept_batch_move_def list_all_upt disjoint_moves_def)

lemma pick_fold_bound:
  assumes "set is \<subseteq> {..<n}" "\<And>k. fst best = Some k \<Longrightarrow> k < n"
  shows "fst (fold (pick_step w) is best) = Some k \<Longrightarrow> k < n"
  using assms
proof (induction "is" arbitrary: best)
  case (Cons i "is")
  have "\<And>k. fst (pick_step w i best) = Some k \<Longrightarrow> k < n"
    using Cons.prems by (auto simp: pick_step_def split: prod.splits if_splits)
  then show ?case using Cons.IH Cons.prems by auto
qed simp

lemma pick_robot_bound: "pick_robot w = Some k \<Longrightarrow> k < n_robots w"
  unfolding pick_robot_def
  by (rule pick_fold_bound [of "[0..<n_robots w]" "n_robots w" "(None, - 1)"]) auto

lemma accept_inv_add:
  assumes inv: "accept_inv cnt w" and k: "k < n_robots w" "k < length (accepted w)"
    and d: "desired_cmd w ! k \<noteq> 0" and can: "can_accept_batch_move k w"
  shows "accept_inv (cnt + 1) (w\<lparr>accepted := (accepted w)[k := 1]\<rparr>)"
proof -
  have "disjoint_moves w i j"
    if ij: "i < n_robots w" "j < n_robots w" "i \<noteq> j" "(accepted w)[k := 1] ! i \<noteq> 0" "(accepted w)[k := 1] ! j \<noteq> 0"
    for i j
  proof -
    consider "i = k" | "j = k" | "i \<noteq> k" "j \<noteq> k" by blast
    then show ?thesis
    proof cases
      case 1
      with ij can_accept_disjoint [OF can, of j] show ?thesis by auto
    next
      case 2
      with ij can_accept_disjoint [OF can, of i] disjoint_moves_sym show ?thesis by auto
    next
      case 3
      with ij inv show ?thesis by (auto simp: accept_inv_def)
    qed
  qed
  moreover have "\<forall>i<n_robots w. (accepted w)[k := 1] ! i \<noteq> 0 \<longrightarrow> desired_cmd w ! i \<noteq> 0"
  proof (intro allI impI)
    fix i assume "i < n_robots w" "(accepted w)[k := 1] ! i \<noteq> 0"
    then show "desired_cmd w ! i \<noteq> 0"
      using inv d by (cases "i = k") (auto simp: accept_inv_def)
  qed
  moreover have "\<not> (\<forall>i<n_robots w. (accepted w)[k := 1] ! i = 0)"
    using k by (auto intro!: exI [of _ k])
  ultimately show ?thesis
    using inv by (auto simp: accept_inv_def)
qed

lemma accept_moves_inv:
  assumes "accept_inv cnt w" "wh_shape w" "accept_moves rounds cnt w = (cnt', w')"
  shows "accept_inv cnt' w' \<and> wh_shape w' \<and> same_world w w' \<and> desired_cmd w' = desired_cmd w
    \<and> target_pos w' = target_pos w
    \<and> sacrifice_robot_idx w' = sacrifice_robot_idx w"
  using assms
proof (induction rounds arbitrary: cnt w)
  case 0
  then show ?case by simp
next
  case (Suc rounds)
  show ?case
  proof (cases "pick_robot w")
    case None
    with Suc.prems show ?thesis by simp
  next
    case (Some k)
    then have k: "k < n_robots w" by (rule pick_robot_bound)
    let ?w1 = "w\<lparr>considered := (considered w)[k := 1]\<rparr>"
    let ?w2 = "?w1\<lparr>accepted := (accepted ?w1)[k := 1]\<rparr>"
    have inv1: "accept_inv cnt ?w1" "wh_shape ?w1" "same_world w ?w1"
      using Suc.prems by (auto simp: accept_inv_def wh_shape_def same_world_def)
    show ?thesis
    proof (cases "desired_cmd ?w1 ! k \<noteq> 0 \<and> can_accept_batch_move k ?w1")
      case True
      have "accept_inv (cnt + 1) ?w2"
        using True k inv1 Suc.prems(2) by (intro accept_inv_add) (auto simp: wh_shape_def)
      moreover have "wh_shape ?w2" "same_world w ?w2"
        using inv1 by (auto simp: wh_shape_def same_world_def)
      moreover have "accept_moves rounds (cnt + 1) ?w2 = (cnt', w')"
        using Suc.prems(3) Some True by (simp add: Let_def)
      ultimately show ?thesis
        using Suc.IH [of "cnt + 1" ?w2] by (auto intro: same_world_trans)
    next
      case False
      then have "accept_moves rounds cnt ?w1 = (cnt', w')"
        using Suc.prems(3) Some by (auto simp: Let_def)
      with inv1 show ?thesis using Suc.IH [of cnt ?w1] by (auto intro: same_world_trans)
    qed
  qed
qed

subsection \<open>Deadlock\<close>

lemma victim_fold:
  assumes "fold (victim_step w) is (v, vw, d) = (v', vw', d')" "set is \<subseteq> {..<n}"
    and "\<And>k. v = Some k \<Longrightarrow> k < n \<and> task_completed (robots w ! k) = 0 \<and> d = escape_of w k \<and> d \<noteq> 0"
  shows "v' = Some k \<Longrightarrow> k < n \<and> task_completed (robots w ! k) = 0 \<and> d' = escape_of w k \<and> d' \<noteq> 0"
  using assms
proof (induction "is" arbitrary: v vw d)
  case Nil
  then show ?case by simp
next
  case (Cons i "is")
  obtain v1 vw1 d1 where s: "victim_step w i (v, vw, d) = (v1, vw1, d1)" using prod_cases3 by blast
  have "\<And>k. v1 = Some k \<Longrightarrow> k < n \<and> task_completed (robots w ! k) = 0 \<and> d1 = escape_of w k \<and> d1 \<noteq> 0"
    using s Cons.prems(3,4) by (auto simp: victim_step_def Let_def split: if_splits)
  then show ?case using Cons.prems s by (intro Cons.IH [of v1 vw1 d1]) auto
qed

lemma choose_deadlock_victim_ok:
  assumes "choose_deadlock_victim w = (Some k, d, w')"
  shows "k < n_robots w" "task_completed (robots w ! k) = 0" "d = escape_of w k" "d \<noteq> 0"
    "w' = w\<lparr>sacrifice_robot_idx := Some k\<rparr>"
proof -
  have "k < n_robots w \<and> task_completed (robots w ! k) = 0 \<and> d = escape_of w k \<and> d \<noteq> 0
    \<and> w' = w\<lparr>sacrifice_robot_idx := Some k\<rparr>"
  proof (cases "case sacrifice_robot_idx w of None \<Rightarrow> False
      | Some k \<Rightarrow> k < n_robots w \<and> task_completed (robots w ! k) = 0 \<and> escape_of w k \<noteq> 0")
    case True
    then obtain s where s: "sacrifice_robot_idx w = Some s" by (auto split: option.splits)
    with True assms show ?thesis by (auto simp: choose_deadlock_victim_def Let_def)
  next
    case False
    obtain v vw d1 where f: "fold (victim_step w) [0..<n_robots w] (None, - 1, 0) = (v, vw, d1)"
      using prod_cases3 by blast
    with False assms have "v = Some k" "d = d1" "w' = w\<lparr>sacrifice_robot_idx := Some k\<rparr>"
      by (auto simp: choose_deadlock_victim_def Let_def)
    moreover have "set [0..<n_robots w] \<subseteq> {..<n_robots w}" by auto
    ultimately show ?thesis using victim_fold [OF f, of "n_robots w" k] by auto
  qed
  then show "k < n_robots w" "task_completed (robots w ! k) = 0" "d = escape_of w k" "d \<noteq> 0"
    "w' = w\<lparr>sacrifice_robot_idx := Some k\<rparr>" by auto
qed

lemma choose_deadlock_victim_none:
  assumes "choose_deadlock_victim w = (None, d, w')"
  shows "w' = w\<lparr>sacrifice_robot_idx := None\<rparr>"
  using assms by (auto simp: choose_deadlock_victim_def Let_def split: option.splits if_splits prod.splits)


lemma resolve_deadlock_inv:
  assumes inv: "accept_inv cnt w" and shape: "wh_shape w"
    and r: "resolve_deadlock cnt w = (cnt', w')"
  shows "accept_inv cnt' w' \<and> wh_shape w' \<and> same_world w w'"
proof (cases "cnt = 0")
  case False
  with r have "cnt' = cnt" "w' = w\<lparr>sacrifice_robot_idx := None\<rparr>" by (auto simp: resolve_deadlock_def)
  with inv shape show ?thesis by simp
next
  case True
  obtain v d w1 where c: "choose_deadlock_victim w = (v, d, w1)" using prod_cases3 by blast
  show ?thesis
  proof (cases v)
    case None
    with r c True choose_deadlock_victim_none [of w d w1]
    have "cnt' = cnt" "w' = w\<lparr>sacrifice_robot_idx := None\<rparr>" by (auto simp: resolve_deadlock_def)
    with inv shape show ?thesis by simp
  next
    case (Some k)
    note k = choose_deadlock_victim_ok [OF c [unfolded Some]]
    let ?g = "goal (robots w ! k) d"
    have w': "cnt' = 1" "w' = w\<lparr>sacrifice_robot_idx := Some k, desired_cmd := (desired_cmd w)[k := d],
        next_pos := (next_pos w)[k := ?g], accepted := (accepted w)[k := 1]\<rparr>"
      using r c True Some k by (auto simp: resolve_deadlock_def goal_def)
    have d: "d \<in> {1, 2, 3, 4}" "\<not> blocked_at (is_blocked_cell (robots w) (robots w ! k)) ?g"
      using get_escape_direction_free [of "robots w" "robots w ! k" _ _ d] k(3,4)
      unfolding escape_of_def goal_def by (metis prod.collapse)+
    have lens: "k < length (desired_cmd w)" "k < length (next_pos w)" "k < length (accepted w)"
      using k(1) shape by (auto simp: wh_shape_def)
    have none: "\<forall>i<n_robots w. accepted w ! i = 0" using inv True by (simp add: accept_inv_def)
    have "planned w' i" if "i < n_robots w" for i
    proof (cases "i = k")
      case True
      have "planned w k" using inv k(1) by (simp add: accept_inv_def)
      then show ?thesis using True w'(2) d lens k(2) by (auto simp: planned_def)
    next
      case False
      have "planned w i" using inv that by (simp add: accept_inv_def)
      then show ?thesis using False w'(2) by (auto simp: planned_def)
    qed
    moreover have "\<forall>i<n_robots w. accepted w' ! i \<noteq> 0 \<longleftrightarrow> i = k"
      using none lens w'(2) by (auto simp: nth_list_update)
    moreover have "desired_cmd w' ! k \<noteq> 0" using w'(2) lens k(4) by simp
    moreover have "n_robots w' = n_robots w" using w'(2) by simp
    ultimately have "accept_inv cnt' w'"
      using k(1) w'(1) by (auto simp: accept_inv_def)
    moreover have "wh_shape w'" "same_world w w'"
      using shape w'(2) by (auto simp: wh_shape_def same_world_def)
    ultimately show ?thesis by simp
  qed
qed

subsection \<open>Commands and waiting times\<close>

lemma update_wait_frame [simp]:
  "robots (update_wait i w) = robots w" "number_of_robots (update_wait i w) = number_of_robots w"
  "boxes (update_wait i w) = boxes w" "step (update_wait i w) = step w"
  "accepted (update_wait i w) = accepted w" "printed (update_wait i w) = printed w"
  "powered_off (update_wait i w) = powered_off w"
  "wh_shape (update_wait i w) = wh_shape w"
  "sacrifice_robot_idx (update_wait i w) = sacrifice_robot_idx w"
  by (simp_all add: update_wait_def wh_shape_def)

lemma fold_update_wait_frame [simp]:
  "robots (fold update_wait is w) = robots w" "number_of_robots (fold update_wait is w) = number_of_robots w"
  "boxes (fold update_wait is w) = boxes w" "step (fold update_wait is w) = step w"
  "accepted (fold update_wait is w) = accepted w" "printed (fold update_wait is w) = printed w"
  "powered_off (fold update_wait is w) = powered_off w"
  "wh_shape (fold update_wait is w) = wh_shape w"
  "sacrifice_robot_idx (fold update_wait is w) = sacrifice_robot_idx w"
  by (induction "is" arbitrary: w) simp_all

lemma increase_step_shape [simp]: "wh_shape (increase_step w) = wh_shape w"
  by (simp add: increase_step_def wh_shape_def)

lemma update_wait_nth:
  assumes "i < length (wait_steps w)"
  shows "wait_steps (update_wait i w) ! j =
    (if j = i then (if task_completed (robots w ! i) \<noteq> 0 \<or> accepted w ! i \<noteq> 0 then 0 else wait_steps w ! i + 1)
     else wait_steps w ! j)"
    "length (wait_steps (update_wait i w)) = length (wait_steps w)"
  using assms by (auto simp: update_wait_def nth_list_update)

lemma fold_update_wait_nth:
  assumes "n \<le> length (wait_steps w)"
  shows "wait_steps (fold update_wait [0..<n] w) ! j =
    (if j < n then (if task_completed (robots w ! j) \<noteq> 0 \<or> accepted w ! j \<noteq> 0 then 0 else wait_steps w ! j + 1)
     else wait_steps w ! j) \<and> length (wait_steps (fold update_wait [0..<n] w)) = length (wait_steps w)"
  using assms
proof (induction n arbitrary: j)
  case 0
  then show ?case by simp
next
  case (Suc n)
  then have len: "n < length (wait_steps (fold update_wait [0..<n] w))" by simp
  show ?case
    using Suc.IH Suc.prems by (auto simp: update_wait_nth [OF len] less_Suc_eq)
qed

text \<open>What the robots are told: the desired command if the move was accepted, else wait.\<close>

definition sent_cmd :: "warehouse \<Rightarrow> nat \<Rightarrow> int" where
  "sent_cmd w i = receive_command_from_central i (boxes w)"

lemma dispatch_commands_sent:
  assumes "wh_shape w" "accept_inv cnt w" "\<forall>i<n_robots w. sent_cmd w i = 0" "i < n_robots w"
  shows "sent_cmd (dispatch_commands cnt w) i = (if accepted w ! i \<noteq> 0 then desired_cmd w ! i else 0)"
proof (cases "cnt > 0")
  case True
  have "i < length (boxes_from_central_control_node (boxes w))"
    using assms(1,4) by (simp add: wh_shape_def)
  from to_robot.receive_fold_if [OF this, of "\<lambda>j. accepted w ! j \<noteq> 0" "\<lambda>j. desired_cmd w ! j" "[0..<n_robots w]"]
  show ?thesis using True assms(3,4) by (auto simp: dispatch_commands_def sent_cmd_def)
next
  case False
  then have "cnt = 0" using assms(2) by (simp add: accept_inv_def)
  with assms show ?thesis by (auto simp: dispatch_commands_def accept_inv_def sent_cmd_def)
qed

lemma dispatch_commands_frame:
  "robots (dispatch_commands cnt w) = robots w" "number_of_robots (dispatch_commands cnt w) = number_of_robots w"
  "accepted (dispatch_commands cnt w) = accepted w" "wait_steps (dispatch_commands cnt w) = wait_steps w"
  "step (dispatch_commands cnt w) = step w" "printed (dispatch_commands cnt w) = printed w"
  "powered_off (dispatch_commands cnt w) = powered_off w"
  "boxes_from_robots (boxes (dispatch_commands cnt w)) = boxes_from_robots (boxes w)"
  "wh_shape (dispatch_commands cnt w) = wh_shape w"
proof -
  have f: "boxes_from_robots (fold (\<lambda>i b. if P i then send_command_to_robot i (v i) b else b) is b) = boxes_from_robots b"
    for P v "is" b by (rule fold_frame) simp
  have l: "length (boxes_from_central_control_node (fold (\<lambda>i b. if P i then send_command_to_robot i (v i) b else b) is b)) =
      length (boxes_from_central_control_node b)" for P v "is" b
    by (rule to_robot.slots_fold_if)
  show "robots (dispatch_commands cnt w) = robots w" "number_of_robots (dispatch_commands cnt w) = number_of_robots w"
  "accepted (dispatch_commands cnt w) = accepted w" "wait_steps (dispatch_commands cnt w) = wait_steps w"
  "step (dispatch_commands cnt w) = step w" "printed (dispatch_commands cnt w) = printed w"
  "powered_off (dispatch_commands cnt w) = powered_off w"
  "boxes_from_robots (boxes (dispatch_commands cnt w)) = boxes_from_robots (boxes w)"
  "wh_shape (dispatch_commands cnt w) = wh_shape w"
    by (simp_all add: dispatch_commands_def wh_shape_def f l)
qed

lemma send_wait_all_sent:
  assumes "wh_shape w" "i < n_robots w"
  shows "sent_cmd (send_wait_all w) i = 0"
  using to_robot.receive_fold [of i "boxes w" "\<lambda>_. 0" "[0..<n_robots w]"] assms
  by (simp add: sent_cmd_def send_wait_all_def wh_shape_def)

lemma send_wait_all_frame:
  "robots (send_wait_all w) = robots w" "number_of_robots (send_wait_all w) = number_of_robots w"
  "wait_steps (send_wait_all w) = wait_steps w" "step (send_wait_all w) = step w"
  "printed (send_wait_all w) = printed w" "powered_off (send_wait_all w) = powered_off w"
  "sacrifice_robot_idx (send_wait_all w) = sacrifice_robot_idx w"
  "boxes_from_robots (boxes (send_wait_all w)) = boxes_from_robots (boxes w)"
  "wh_shape (send_wait_all w) = wh_shape w"
proof -
  have f: "boxes_from_robots (fold (\<lambda>i. send_command_to_robot i 0) is b) = boxes_from_robots b" for "is" b
    by (rule fold_frame) simp
  have l: "length (boxes_from_central_control_node (fold (\<lambda>i. send_command_to_robot i 0) is b)) =
      length (boxes_from_central_control_node b)" for "is" b
    by (rule to_robot.slots_fold)
  show "robots (send_wait_all w) = robots w" "number_of_robots (send_wait_all w) = number_of_robots w"
  "wait_steps (send_wait_all w) = wait_steps w" "step (send_wait_all w) = step w"
  "printed (send_wait_all w) = printed w" "powered_off (send_wait_all w) = powered_off w"
  "sacrifice_robot_idx (send_wait_all w) = sacrifice_robot_idx w"
  "boxes_from_robots (boxes (send_wait_all w)) = boxes_from_robots (boxes w)"
  "wh_shape (send_wait_all w) = wh_shape w"
    by (simp_all add: send_wait_all_def wh_shape_def f l)
qed


lemma accept_inv_start:
  assumes "\<forall>i<n_robots w. planned w i \<and> undecided w i"
  shows "accept_inv 0 w"
  using assms by (auto simp: accept_inv_def undecided_def)

lemma accept_inv_safe:
  assumes inv: "accept_inv cnt w" and shape: "wh_shape w"
  shows "safe_batch (robots w) (\<lambda>i. if accepted w ! i \<noteq> 0 then desired_cmd w ! i else 0)"
proof -
  let ?rs = "robots w" and ?c = "\<lambda>i. if accepted w ! i \<noteq> 0 then desired_cmd w ! i else 0"
  have n: "length ?rs = n_robots w" using shape by (simp add: wh_shape_def)
  have mover: "task_completed (?rs ! i) = 0 \<and> \<not> blocked_at (is_blocked_cell ?rs (?rs ! i)) (goal (?rs ! i) (?c i))"
    if "i < length ?rs" "?c i \<noteq> 0" for i
    using that inv unfolding n by (auto simp: accept_inv_def planned_def split: if_splits)
  have both: "robot_pos (?rs ! i) \<noteq> robot_pos (?rs ! j) \<and> robot_pos (?rs ! i) \<noteq> goal (?rs ! j) (?c j)
      \<and> goal (?rs ! i) (?c i) \<noteq> robot_pos (?rs ! j) \<and> goal (?rs ! i) (?c i) \<noteq> goal (?rs ! j) (?c j)"
    if "i < length ?rs" "j < length ?rs" "j \<noteq> i" "?c i \<noteq> 0" "?c j \<noteq> 0" for i j
  proof -
    have "disjoint_moves w i j" "planned w i" "planned w j"
      using that inv unfolding n by (auto simp: accept_inv_def split: if_splits)
    with that show ?thesis by (simp add: disjoint_moves_def planned_def split: if_splits)
  qed
  have stay: "is_shared_place (robot_row (?rs ! j)) (robot_col (?rs ! j))"
    if "i < length ?rs" "j < length ?rs" "?c i \<noteq> 0" "goal (?rs ! i) (?c i) = robot_pos (?rs ! j)" for i j
    using free_occupied_shared [of ?rs "?rs ! i" "robot_row (?rs ! j)" "robot_col (?rs ! j)" "?rs ! j"]
      mover [OF that(1,3)] that by auto
  have "?c i \<in> {0, 1, 2, 3, 4}" if "i < length ?rs" for i
    using that inv unfolding n accept_inv_def planned_def by auto
  then show ?thesis
    unfolding safe_batch_def using mover both stay by presburger
qed

lemma safe_batch_cong:
  assumes "\<And>i. i < length rs \<Longrightarrow> cmd i = cmd' i"
  shows "safe_batch rs cmd = safe_batch rs cmd'"
  using assms unfolding safe_batch_def by simp

text \<open>What \<open>decide_moves\<close> keeps and changes besides the commands.\<close>

definition decided :: "warehouse \<Rightarrow> warehouse \<Rightarrow> bool" where
  "decided w w' \<longleftrightarrow> robots w' = robots w \<and> number_of_robots w' = number_of_robots w \<and> wh_shape w'
     \<and> boxes_from_robots (boxes w') = boxes_from_robots (boxes w)
     \<and> step w' = step w + 1 \<and> printed w' = printed w \<and> powered_off w' = powered_off w
     \<and> (\<forall>i<n_robots w. wait_steps w' ! i =
          (if task_completed (robots w ! i) \<noteq> 0 \<or> sent_cmd w' i \<noteq> 0 then 0 else wait_steps w ! i + 1))"

lemma decide_moves_stages:
  assumes shape: "wh_shape w" and on: "robots_on_map (robots w)"
  obtains w1 c2 w2 c3 w3 w' where
    "\<forall>i<n_robots w. planned w1 i \<and> undecided w1 i" "same_world (send_wait_all w) w1" "wh_shape w1"
    "sacrifice_robot_idx w1 = sacrifice_robot_idx w"
    "accept_moves (n_robots w) 0 w1 = (c2, w2)" "accept_inv c2 w2" "wh_shape w2" "same_world w1 w2"
    "desired_cmd w2 = desired_cmd w1" "target_pos w2 = target_pos w1"
    "resolve_deadlock c2 w2 = (c3, w3)" "accept_inv c3 w3" "wh_shape w3" "same_world w2 w3"
    "decide_moves w = Inr w'" "decided w w'"
    "c3 \<noteq> 0 \<longrightarrow> sacrifice_robot_idx w' = sacrifice_robot_idx w3"
    "\<forall>i<n_robots w. sent_cmd w' i = (if accepted w3 ! i \<noteq> 0 then desired_cmd w3 ! i else 0)"
proof -
  let ?w0 = "send_wait_all w"
  have w0: "wh_shape ?w0" "robots_on_map (robots ?w0)" "set [0..<n_robots w] \<subseteq> {..<n_robots ?w0}"
    using shape on by (auto simp: send_wait_all_frame)
  from plan_robots_ok [OF w0(1,3,2), of "{}"] obtain w1 where w1:
    "plan_robots [0..<n_robots w] ?w0 = Inr w1" "same_world ?w0 w1" "wh_shape w1"
    "sacrifice_robot_idx w1 = sacrifice_robot_idx w" "\<forall>i<n_robots w. planned w1 i \<and> undecided w1 i"
    by (auto simp: send_wait_all_frame)
  have n1: "number_of_robots w1 = number_of_robots w" using w1(2) by (simp add: same_world_def send_wait_all_frame)
  obtain c2 w2 where a: "accept_moves (n_robots w) 0 w1 = (c2, w2)" by fastforce
  have "accept_inv 0 w1" using w1(5) n1 by (intro accept_inv_start) simp
  note w2 = accept_moves_inv [OF this w1(3) a]
  obtain c3 w3 where r: "resolve_deadlock c2 w2 = (c3, w3)" by fastforce
  note w3 = resolve_deadlock_inv [OF _ _ r]
  have world: "same_world ?w0 w3" using w1 w2 w3 by (meson same_world_trans)
  then have n3: "number_of_robots w3 = number_of_robots w" and b3: "boxes w3 = boxes ?w0"
    by (auto simp: same_world_def send_wait_all_frame)
  define w4 where "w4 = dispatch_commands c3 w3"
  define w5 where "w5 = fold update_wait [0..<n_robots w4] w4"
  have n4: "number_of_robots w4 = number_of_robots w" by (simp add: w4_def dispatch_commands_frame n3)
  have dec: "decide_moves w = Inr (increase_step w5)"
    by (simp add: decide_moves_def w1(1) n1 a r w4_def w5_def Let_def)
  have "sent_cmd w3 i = 0" if "i < n_robots w" for i
    using send_wait_all_sent [OF shape that] b3 by (simp add: sent_cmd_def)
  then have sent4: "sent_cmd w4 i = (if accepted w3 ! i \<noteq> 0 then desired_cmd w3 ! i else 0)"
    if "i < n_robots w" for i
    using dispatch_commands_sent [of w3 c3 i] that w3 w2 n3 unfolding w4_def by auto
  have sent: "sent_cmd (increase_step w5) i = (if accepted w3 ! i \<noteq> 0 then desired_cmd w3 ! i else 0)"
    if "i < n_robots w" for i
    using sent4 [OF that] by (simp add: sent_cmd_def w5_def increase_step_def)
  have acc: "sent_cmd (increase_step w5) i \<noteq> 0 \<longleftrightarrow> accepted w4 ! i \<noteq> 0" if "i < n_robots w" for i
    using sent [OF that] w3 w2 that n3 by (auto simp: accept_inv_def w4_def dispatch_commands_frame)
  have len: "n_robots w \<le> length (wait_steps w4)"
    using w3 w2 shape by (auto simp: w4_def dispatch_commands_frame wh_shape_def MAX_ROBOTS_def)
  have sac: "c3 \<noteq> 0 \<longrightarrow> sacrifice_robot_idx (increase_step w5) = sacrifice_robot_idx w3"
    using w3 w2 by (auto simp: increase_step_def w5_def w4_def dispatch_commands_def accept_inv_def)
  have w4: "robots w4 = robots w" "wait_steps w4 = wait_steps w" "step w4 = step w" "printed w4 = printed w"
    "powered_off w4 = powered_off w"
    using world by (simp_all add: w4_def dispatch_commands_frame same_world_def send_wait_all_frame)
  have w4': "boxes_from_robots (boxes w4) = boxes_from_robots (boxes w)" "wh_shape w4"
    using b3 w3 w2 by (simp_all add: w4_def dispatch_commands_frame send_wait_all_frame)
  have "wait_steps (increase_step w5) ! i =
      (if task_completed (robots w ! i) \<noteq> 0 \<or> sent_cmd (increase_step w5) i \<noteq> 0 then 0 else wait_steps w ! i + 1)"
    if "i < n_robots w" for i
    using fold_update_wait_nth [OF len, of i] that
    by (simp only: acc [OF that]) (simp add: increase_step_def w5_def n4 w4)
  moreover have "wh_shape (increase_step w5)"
    using w4'(2) fold_update_wait_frame(8) by (simp add: w5_def)
  ultimately have "decided w (increase_step w5)"
    unfolding decided_def using w4 w4' n4 by (simp add: increase_step_def w5_def)
  then show ?thesis using that [OF w1(5,2,3,4) a _ _ _ _ _ r _ _ _ dec] w2 w3 sac sent by blast
qed

lemma decide_moves_safe:
  assumes "wh_shape w" "robots_on_map (robots w)"
  shows "\<exists>w'. decide_moves w = Inr w' \<and> decided w w' \<and> safe_batch (robots w') (sent_cmd w')"
proof -
  from assms obtain w1 c2 w2 c3 w3 w' where s:
    "same_world (send_wait_all w) w1" "same_world w1 w2" "accept_inv c3 w3" "wh_shape w3" "same_world w2 w3"
    "decide_moves w = Inr w'" "decided w w'"
    "\<forall>i<n_robots w. sent_cmd w' i = (if accepted w3 ! i \<noteq> 0 then desired_cmd w3 ! i else 0)"
    by (rule decide_moves_stages)
  let ?c = "\<lambda>i. if accepted w3 ! i \<noteq> 0 then desired_cmd w3 ! i else 0"
  have rs: "robots w3 = robots w" "robots w' = robots w" "length (robots w) = n_robots w"
    using s(1,2,5,7) assms(1) by (auto simp: same_world_def send_wait_all_frame decided_def wh_shape_def)
  have "safe_batch (robots w) ?c" using accept_inv_safe [OF s(3,4)] rs by simp
  moreover have "sent_cmd w' i = ?c i" if "i < length (robots w)" for i using s(8) that rs by simp
  ultimately have "safe_batch (robots w) (sent_cmd w')"
    using safe_batch_cong [of "robots w" "sent_cmd w'" ?c] by simp
  then show ?thesis using s rs by auto
qed

end
