(* ===== verification/Progress.thy ===== *)
theory Progress
  imports Safe_Moves
begin

text \<open>
  Progress of the central control thread: the longest waiting robot that wants to move is always
  told to, and nobody is told to move only when nobody can. Stage 2 of
  \<^verbatim>\<open>central_control_thread\<close> considers the robots by waiting time (the lowest index first among
  equals); the first of them that has a command meets no accepted move, so it is accepted.
\<close>

text \<open>The order in which stage 2 considers the robots.\<close>

definition before :: "warehouse \<Rightarrow> nat \<Rightarrow> nat \<Rightarrow> bool" where
  "before w k i \<longleftrightarrow> wait_steps w ! i < wait_steps w ! k \<or> (wait_steps w ! i = wait_steps w ! k \<and> k \<le> i)"

definition eligible :: "warehouse \<Rightarrow> nat \<Rightarrow> bool" where
  "eligible w i \<longleftrightarrow> considered w ! i = 0 \<and> task_completed (robots w ! i) = 0"

lemma before_antisym: "before w k i \<Longrightarrow> before w i k \<Longrightarrow> i = k"
  by (auto simp: before_def)

lemma pick_fold:
  assumes "fold (pick_step w) [0..<m] (None, - 1) = (b, bw)"
  shows "case b of None \<Rightarrow> \<forall>i<m. \<not> eligible w i
    | Some k \<Rightarrow> k < m \<and> eligible w k \<and> bw = wait_steps w ! k \<and> (\<forall>i<m. eligible w i \<longrightarrow> before w k i)"
  using assms
proof (induction m arbitrary: b bw)
  case 0
  then show ?case by simp
next
  case (Suc m)
  obtain b1 bw1 where f: "fold (pick_step w) [0..<m] (None, - 1) = (b1, bw1)" by fastforce
  have s: "(b, bw) = pick_step w m (b1, bw1)" using Suc.prems f by simp
  show ?case
  proof (cases b1)
    case None
    with s Suc.IH [OF f] show ?thesis
      by (auto simp: pick_step_def less_Suc_eq eligible_def before_def split: if_splits)
  next
    case (Some k)
    with s Suc.IH [OF f] show ?thesis
      by (auto simp: pick_step_def less_Suc_eq eligible_def before_def split: if_splits)
  qed
qed

lemma pick_robot_none: "pick_robot w = None \<Longrightarrow> i < n_robots w \<Longrightarrow> \<not> eligible w i"
  using pick_fold [of w "n_robots w"] by (cases "fold (pick_step w) [0..<n_robots w] (None, - 1)") (auto simp: pick_robot_def)

lemma pick_robot_first:
  assumes "pick_robot w = Some k"
  shows "k < n_robots w" "eligible w k" "i < n_robots w \<Longrightarrow> eligible w i \<Longrightarrow> before w k i"
  using pick_fold [of w "n_robots w"] assms
  by (cases "fold (pick_step w) [0..<n_robots w] (None, - 1)"; auto simp: pick_robot_def)+

text \<open>Moves are only added to the accepted ones.\<close>

lemma accept_moves_keeps:
  assumes "accept_moves rounds cnt w = (cnt', w')" "accepted w ! k \<noteq> 0" "n_robots w \<le> length (accepted w)"
  shows "accepted w' ! k \<noteq> 0"
  using assms
proof (induction rounds arbitrary: cnt w)
  case (Suc rounds)
  have upd: "(accepted w)[j := 1] ! k \<noteq> 0" if "pick_robot w = Some j" for j
    using Suc.prems(2,3) pick_robot_bound [OF that] by (cases "j = k") auto
  show ?case
  proof (cases "pick_robot w")
    case None
    with Suc.prems show ?thesis by simp
  next
    case (Some j)
    let ?w1 = "w\<lparr>considered := (considered w)[j := 1]\<rparr>"
    from Suc.prems(1) Some consider
      "accept_moves rounds (cnt + 1) (?w1\<lparr>accepted := (accepted w)[j := 1]\<rparr>) = (cnt', w')"
      | "accept_moves rounds cnt ?w1 = (cnt', w')" by (auto simp: Let_def split: if_splits)
    then show ?thesis by cases (rule Suc.IH, assumption, use Suc.prems upd [OF Some] in simp, use Suc.prems in simp)+
  qed
qed simp

text \<open>With nothing accepted yet, a robot with a command can be accepted: its next cell is free.\<close>

lemma can_accept_first:
  assumes "\<forall>i<n_robots w. planned w i" "\<forall>i<n_robots w. accepted w ! i = 0" "wh_shape w"
    and "k < n_robots w" "desired_cmd w ! k \<noteq> 0"
  shows "can_accept_batch_move k w"
proof -
  have k: "next_pos w ! k = goal (robots w ! k) (desired_cmd w ! k)"
    "\<not> blocked_at (is_blocked_cell (robots w) (robots w ! k)) (next_pos w ! k)"
    using assms by (auto simp: planned_def)
  have "is_shared_place (fst (next_pos w ! k)) (snd (next_pos w ! k))"
    if "i < n_robots w" "next_pos w ! k = current_pos w ! i" for i
  proof -
    have "robot_pos (robots w ! i) = next_pos w ! k" "robots w ! i \<in> set (robots w)"
      using that assms(1,3) by (auto simp: planned_def wh_shape_def)
    with k(2) free_occupied_shared [of "robots w" "robots w ! k" "fst (next_pos w ! k)" "snd (next_pos w ! k)" "robots w ! i"]
    show ?thesis by (metis prod.collapse)
  qed
  with assms(2) show ?thesis by (auto simp: can_accept_batch_move_def list_all_upt)
qed

lemma accept_moves_first:
  assumes "accept_moves rounds cnt w = (cnt', w')" "wh_shape w"
    and "\<forall>i<n_robots w. planned w i" "\<forall>i<n_robots w. accepted w ! i = 0"
    and "k < n_robots w" "eligible w k" "desired_cmd w ! k \<noteq> 0"
    and "\<And>i. i < n_robots w \<Longrightarrow> eligible w i \<Longrightarrow> desired_cmd w ! i \<noteq> 0 \<Longrightarrow> before w k i"
    and "card {i. i < n_robots w \<and> eligible w i} \<le> rounds"
  shows "accepted w' ! k \<noteq> 0"
  using assms
proof (induction rounds arbitrary: cnt w)
  case 0
  then have "{i. i < n_robots w \<and> eligible w i} = {}" by simp
  with "0.prems"(5,6) show ?case by blast
next
  case (Suc rounds)
  then obtain p where p: "pick_robot w = Some p" using pick_robot_none by (cases "pick_robot w") auto
  note pf = pick_robot_first [OF p]
  let ?w1 = "w\<lparr>considered := (considered w)[p := 1]\<rparr>"
  have shape: "wh_shape ?w1" "n_robots w \<le> 100" "length (considered w) = 100" "length (accepted w) = 100"
    using Suc.prems(2) by (auto simp: wh_shape_def MAX_ROBOTS_def)
  show ?case
  proof (cases "desired_cmd w ! p = 0")
    case False
    then have pk: "p = k" using before_antisym Suc.prems(5,6,8) pf by blast
    have "can_accept_batch_move k ?w1"
      using Suc.prems shape(1) by (intro can_accept_first) auto
    then have "accept_moves rounds (cnt + 1) (?w1\<lparr>accepted := (accepted ?w1)[k := 1]\<rparr>) = (cnt', w')"
      using Suc.prems(1,7) p pk by (simp add: Let_def)
    then show ?thesis
      by (rule accept_moves_keeps) (use Suc.prems(5) shape in auto)
  next
    case True
    have el: "eligible ?w1 i \<longleftrightarrow> eligible w i \<and> i \<noteq> p" for i
      using pf shape by (cases "i = p") (auto simp: eligible_def)
    have "{i. i < n_robots w \<and> eligible ?w1 i} = {i. i < n_robots w \<and> eligible w i} - {p}"
      by (auto simp: el)
    then have "card {i. i < n_robots w \<and> eligible ?w1 i} \<le> rounds"
      using Suc.prems(9) pf(1,2) by simp
    moreover have "accept_moves rounds cnt ?w1 = (cnt', w')"
      using Suc.prems(1) p True by (simp add: Let_def)
    moreover have "eligible ?w1 k" using Suc.prems(6,7) True by (auto simp: el)
    moreover have "before ?w1 = before w" by (simp add: before_def fun_eq_iff)
    ultimately show ?thesis
      using Suc.prems shape(1) by (intro Suc.IH [of cnt ?w1]) (auto simp: el)
  qed
qed


text \<open>The longest waiting robot that wants to move gets its command.\<close>

lemma longest_waiting_sent:
  assumes shape: "wh_shape w" and on: "robots_on_map (robots w)" and k: "k < n_robots w" "wanted_cmd w k \<noteq> 0"
    and first: "\<And>i. i < n_robots w \<Longrightarrow> wanted_cmd w i \<noteq> 0 \<Longrightarrow> before w k i"
    and dec: "decide_moves w = Inr w'"
  shows "sent_cmd w' k = wanted_cmd w k" "sacrifice_robot_idx w' = None"
proof -
  from shape on obtain w1 c2 w2 c3 w3 w'' where s:
    "\<forall>i<n_robots w. planned w1 i \<and> undecided w1 i" "same_world (send_wait_all w) w1" "wh_shape w1"
    "sacrifice_robot_idx w1 = sacrifice_robot_idx w"
    "accept_moves (n_robots w) 0 w1 = (c2, w2)" "accept_inv c2 w2" "wh_shape w2" "same_world w1 w2"
    "desired_cmd w2 = desired_cmd w1" "resolve_deadlock c2 w2 = (c3, w3)"
    "decide_moves w = Inr w''" "c3 \<noteq> 0 \<longrightarrow> sacrifice_robot_idx w'' = sacrifice_robot_idx w3"
    "\<forall>i<n_robots w. sent_cmd w'' i = (if accepted w3 ! i \<noteq> 0 then desired_cmd w3 ! i else 0)"
    by (rule decide_moves_stages)
  have w1: "robots w1 = robots w" "number_of_robots w1 = number_of_robots w" "wait_steps w1 = wait_steps w"
    using s(2) by (auto simp: same_world_def send_wait_all_frame)
  have want: "desired_cmd w1 ! i = wanted_cmd w i" if "i < n_robots w" for i
    using s(1) that w1 s(4) by (auto simp: undecided_def wanted_cmd_def)
  have unfinished: "task_completed (robots w ! i) = 0" if "wanted_cmd w i \<noteq> 0" for i
    using that by (auto simp: wanted_cmd_def split: if_splits)
  have "accepted w2 ! k \<noteq> 0"
  proof (rule accept_moves_first [OF s(5,3)])
    show "\<forall>i<n_robots w1. planned w1 i" "\<forall>i<n_robots w1. accepted w1 ! i = 0"
      using s(1) w1 by (auto simp: undecided_def)
    show "k < n_robots w1" "desired_cmd w1 ! k \<noteq> 0" using k want w1 by auto
    show "eligible w1 k" using s(1) k unfinished w1 by (auto simp: eligible_def undecided_def)
    show "before w1 k i" if "i < n_robots w1" "eligible w1 i" "desired_cmd w1 ! i \<noteq> 0" for i
      using first [of i] that want w1 by (simp add: before_def)
    have "card {i. i < n_robots w1 \<and> eligible w1 i} \<le> card {..<n_robots w}"
      using w1 by (intro card_mono) auto
    then show "card {i. i < n_robots w1 \<and> eligible w1 i} \<le> n_robots w" by simp
  qed
  moreover from this have "c2 \<noteq> 0" using s(6,8) k w1 by (auto simp: accept_inv_def same_world_def)
  then have "w3 = w2\<lparr>sacrifice_robot_idx := None\<rparr>" "c3 \<noteq> 0" using s(10) by (auto simp: resolve_deadlock_def)
  moreover have "w'' = w'" using s(11) dec by simp
  ultimately show "sent_cmd w' k = wanted_cmd w k" "sacrifice_robot_idx w' = None"
    using s(9,12,13) k want by auto
qed

subsection \<open>Standing still\<close>

lemma victim_fold_none:
  assumes "fold (victim_step w) is (v, vw, d) = (None, vw', d')" "\<forall>i \<in> set is. wait_steps w ! i \<ge> 0"
  shows "v = None \<and> (vw = - 1 \<longrightarrow> (\<forall>i \<in> set is. task_completed (robots w ! i) = 0 \<longrightarrow> escape_of w i = 0))"
  using assms
proof (induction "is" arbitrary: v vw d)
  case (Cons i "is")
  obtain v1 vw1 d1 where s: "victim_step w i (v, vw, d) = (v1, vw1, d1)" using prod_cases3 by blast
  then have "v1 = None \<and> (vw1 = - 1 \<longrightarrow> (\<forall>i \<in> set is. task_completed (robots w ! i) = 0 \<longrightarrow> escape_of w i = 0))"
    using Cons.prems by (intro Cons.IH [of v1 vw1 d1]) auto
  with s Cons.prems(2) show ?case by (auto simp: victim_step_def Let_def split: if_splits)
qed simp

text \<open>If nobody is told to move, no robot wanted to and no unfinished robot has a cell to step aside to.\<close>

lemma standstill:
  assumes shape: "wh_shape w" and on: "robots_on_map (robots w)"
    and wait: "\<forall>i<n_robots w. wait_steps w ! i \<ge> 0"
    and dec: "decide_moves w = Inr w'" and still: "\<forall>i<n_robots w. sent_cmd w' i = 0"
    and i: "i < n_robots w" "task_completed (robots w ! i) = 0"
  shows "wanted_cmd w i = 0 \<and> get_escape_direction (robots w) (robots w ! i)
    (fst (get_robot_target (robots w ! i))) (snd (get_robot_target (robots w ! i))) = 0"
proof -
  from shape on obtain w1 c2 w2 c3 w3 w'' where s:
    "\<forall>i<n_robots w. planned w1 i \<and> undecided w1 i" "same_world (send_wait_all w) w1"
    "accept_inv c2 w2" "same_world w1 w2" "target_pos w2 = target_pos w1"
    "resolve_deadlock c2 w2 = (c3, w3)" "accept_inv c3 w3" "same_world w2 w3" "decide_moves w = Inr w''"
    "\<forall>i<n_robots w. sent_cmd w'' i = (if accepted w3 ! i \<noteq> 0 then desired_cmd w3 ! i else 0)"
    by (rule decide_moves_stages)
  have w2: "robots w2 = robots w" "number_of_robots w2 = number_of_robots w" "wait_steps w2 = wait_steps w"
    "number_of_robots w3 = number_of_robots w" "robots w1 = robots w"
    using s(2,4,8) by (auto simp: same_world_def send_wait_all_frame)
  have "w'' = w'" using s(9) dec by simp
  then have "\<forall>i<n_robots w. accepted w3 ! i = 0"
    using s(7,10) still w2 by (fastforce simp: accept_inv_def)
  then have c3: "c3 = 0" using s(7) w2 by (simp add: accept_inv_def)
  then have c2: "c2 = 0" using s(6) by (auto simp: resolve_deadlock_def split: if_splits prod.splits option.splits)
  obtain v d wv where cv: "choose_deadlock_victim w2 = (v, d, wv)" using prod_cases3 by blast
  have v: "v = None"
    using choose_deadlock_victim_ok [of w2 _ d wv] cv s(6) c2 c3 by (cases v) (auto simp: resolve_deadlock_def)
  have "escape_of w2 i = 0"
  proof -
    obtain vw where "fold (victim_step w2) [0..<n_robots w2] (None, - 1, 0) = (None, vw, d)"
      using cv v by (auto simp: choose_deadlock_victim_def Let_def split: option.splits if_splits prod.splits)
    from victim_fold_none [OF this] wait i w2 show ?thesis by auto
  qed
  moreover have "target_pos w2 ! i = get_robot_target (robots w ! i)"
    using s(1,5) i w2 by (simp add: undecided_def)
  moreover have "wanted_cmd w i = 0"
  proof (rule ccontr)
    let ?W = "{j. j < n_robots w \<and> wanted_cmd w j \<noteq> 0}"
    assume "wanted_cmd w i \<noteq> 0"
    then have ne: "?W \<noteq> {}" "finite ?W" using i by auto
    define m where "m = Max ((\<lambda>j. wait_steps w ! j) ` ?W)"
    define k where "k = (LEAST j. j \<in> ?W \<and> wait_steps w ! j = m)"
    have "m \<in> (\<lambda>j. wait_steps w ! j) ` ?W" unfolding m_def using ne by (intro Max_in) auto
    then have "\<exists>j. j \<in> ?W \<and> wait_steps w ! j = m" by auto
    then have k: "k \<in> ?W" "wait_steps w ! k = m" unfolding k_def by (metis (mono_tags, lifting) LeastI)+
    have "before w k j" if "j \<in> ?W" for j
    proof (cases "wait_steps w ! j = m")
      case True
      then have "k \<le> j" unfolding k_def using that by (intro Least_le) simp
      with True k show ?thesis by (simp add: before_def)
    next
      case False
      have "wait_steps w ! j \<le> m" unfolding m_def using that ne by (intro Max_ge) auto
      with False k show ?thesis by (simp add: before_def)
    qed
    with longest_waiting_sent(1) [OF shape on _ _ _ dec, of k] k(1) still show False by auto
  qed
  ultimately show ?thesis using w2 by (simp add: escape_of_def)
qed

end
