(* ===== verification/Robot_Thread.thy ===== *)
theory Robot_Thread
  imports Progress
begin

text \<open>
  The robot threads, from \<^verbatim>\<open>move_robot_one_step_by_direction\<close> and \<^verbatim>\<open>robot_thread\<close> of
  \<^verbatim>\<open>projects/automated_warehouse/automated_warehouse.c\<close>. One turn of a robot runs from its wake-up
  to its next report: \<open>robot_execute\<close> then \<open>robot_report\<close>. Kernel threads can be preempted, so the
  turn is also cut into the steps \<open>robot_check\<close>, \<open>robot_write\<close> and \<open>robot_work\<close>, between which other
  robots may run; \<open>robot_execute_steps\<close> shows that together they are the whole turn.
\<close>

definition move_robot_one_step_by_direction :: "robot list \<Rightarrow> robot \<Rightarrow> int \<Rightarrow> robot" where
  "move_robot_one_step_by_direction all_robots robot direction =
     (if direction = 0 then robot
      else
        let next_row = robot_row robot; next_col = robot_col robot;
            (next_row, next_col) =
              (if direction = 1 then (next_row - 1, next_col)
               else if direction = 2 then (next_row + 1, next_col)
               else if direction = 3 then (next_row, next_col - 1)
               else if direction = 4 then (next_row, next_col + 1)
               else (next_row, next_col))
        in if \<not> is_blocked_cell all_robots robot next_row next_col
           then robot\<lparr>robot_row := next_row, robot_col := next_col\<rparr>
           else robot)"

text \<open>The local variables \<^verbatim>\<open>item_row\<close>, \<^verbatim>\<open>item_col\<close> and \<^verbatim>\<open>dest_row\<close>, \<^verbatim>\<open>dest_col\<close>, set once before the loop.\<close>

definition item_of :: "robot \<Rightarrow> int \<times> int" where
  "item_of robot = get_item_position (to_char (schar (required_item robot) + schar (CHR ''0'')))"

definition dest_of :: "robot \<Rightarrow> int \<times> int" where
  "dest_of robot = get_destination_position (destination robot)"

definition update_robot :: "nat \<Rightarrow> (robot \<Rightarrow> robot) \<Rightarrow> warehouse \<Rightarrow> warehouse" where
  "update_robot i f w = w\<lparr>robots := (robots w)[i := f (robots w ! i)]\<rparr>"

definition robot_start :: "nat \<Rightarrow> warehouse \<Rightarrow> warehouse" where
  "robot_start idx w = update_robot idx (\<lambda>robot. robot\<lparr>task_completed := 0\<rparr>) w"

text \<open>The status message; its field \<^verbatim>\<open>cmd\<close> is not assigned, so it has some value \<open>cmd0\<close>.\<close>

definition status_message :: "robot \<Rightarrow> int \<Rightarrow> message" where
  "status_message robot cmd0 =
     \<lparr>msg_row = robot_row robot, msg_col = robot_col robot, msg_current_payload = current_payload robot,
      msg_required_payload = required_payload robot, msg_completed = task_completed robot, msg_cmd = cmd0\<rparr>"

definition robot_report :: "nat \<Rightarrow> int \<Rightarrow> warehouse \<Rightarrow> warehouse" where
  "robot_report idx cmd0 w =
     w\<lparr>boxes := send_message_to_central idx (status_message (robots w ! idx) cmd0) (boxes w)\<rparr>"

text \<open>Loading at the item's shelf, unloading at the destination.\<close>

definition handle_payload :: "int \<times> int \<Rightarrow> int \<times> int \<Rightarrow> robot \<Rightarrow> robot" where
  "handle_payload item dest robot =
     (if current_payload robot = 0 \<and> robot_row robot = fst item \<and> robot_col robot = snd item
      then robot\<lparr>current_payload := required_payload robot\<rparr>
      else if current_payload robot > 0 \<and> robot_row robot = fst dest \<and> robot_col robot = snd dest
      then robot\<lparr>current_payload := 0, task_completed := 1\<rparr>
      else robot)"

definition robot_execute :: "nat \<Rightarrow> int \<times> int \<Rightarrow> int \<times> int \<Rightarrow> warehouse \<Rightarrow> warehouse" where
  "robot_execute idx item dest w =
     (let cmd = receive_command_from_central idx (boxes w);
          w = w\<lparr>boxes := clear_message_box idx True (boxes w)\<rparr>;
          w = (if task_completed (robots w ! idx) = 0 then
                 let w = (if cmd \<noteq> 0
                          then update_robot idx (\<lambda>robot. move_robot_one_step_by_direction (robots w) robot cmd) w
                          else w)
                 in update_robot idx (handle_payload item dest) w
               else w)
      in w\<lparr>boxes := clear_message_box idx False (boxes w)\<rparr>)"

subsection \<open>The steps of a turn\<close>

datatype pc = Starting | Reporting | Reported | Blocked | Woken | Moving "int \<times> int" | Working

text \<open>From the wake-up to the test of the next cell: a free cell is entered in a later step.\<close>

definition robot_check :: "nat \<Rightarrow> warehouse \<Rightarrow> pc \<times> warehouse" where
  "robot_check idx w =
     (let cmd = receive_command_from_central idx (boxes w);
          robot = robots w ! idx;
          cell = get_next_position (robot_row robot) (robot_col robot) cmd
      in (if task_completed robot = 0 \<and> cmd \<noteq> 0 \<and> \<not> is_blocked_cell (robots w) robot (fst cell) (snd cell)
          then Moving cell else Working,
          w\<lparr>boxes := clear_message_box idx True (boxes w)\<rparr>))"

definition robot_write :: "nat \<Rightarrow> int \<times> int \<Rightarrow> warehouse \<Rightarrow> warehouse" where
  "robot_write idx cell w = update_robot idx (\<lambda>robot. robot\<lparr>robot_row := fst cell, robot_col := snd cell\<rparr>) w"

definition robot_work :: "nat \<Rightarrow> int \<times> int \<Rightarrow> int \<times> int \<Rightarrow> warehouse \<Rightarrow> warehouse" where
  "robot_work idx item dest w =
     (let w = (if task_completed (robots w ! idx) = 0 then update_robot idx (handle_payload item dest) w else w)
      in w\<lparr>boxes := clear_message_box idx False (boxes w)\<rparr>)"

lemma move_robot_one_step:
  "move_robot_one_step_by_direction rs rb cmd =
     (let cell = goal rb cmd in
      if cmd \<noteq> 0 \<and> \<not> is_blocked_cell rs rb (fst cell) (snd cell)
      then rb\<lparr>robot_row := fst cell, robot_col := snd cell\<rparr> else rb)"
  by (auto simp: move_robot_one_step_by_direction_def goal_def get_next_position_def Let_def)

lemma robot_execute_steps:
  assumes "idx < length (robots w)" "robot_check idx w = (p, w1)"
  shows "robot_execute idx item dest w =
    robot_work idx item dest (case p of Moving cell \<Rightarrow> robot_write idx cell w1 | _ \<Rightarrow> w1)"
  using assms
  by (auto simp: robot_execute_def robot_check_def robot_write_def robot_work_def update_robot_def
      move_robot_one_step Let_def goal_def [symmetric])

subsection \<open>Frame facts\<close>

lemma update_robot_frame [simp]:
  "number_of_robots (update_robot i f w) = number_of_robots w" "boxes (update_robot i f w) = boxes w"
  "length (robots (update_robot i f w)) = length (robots w)" "step (update_robot i f w) = step w"
  "printed (update_robot i f w) = printed w" "powered_off (update_robot i f w) = powered_off w"
  "wait_steps (update_robot i f w) = wait_steps w" "wh_shape (update_robot i f w) = wh_shape w"
  by (simp_all add: update_robot_def wh_shape_def)

lemma update_robot_nth:
  "j < length (robots w) \<Longrightarrow>
     robots (update_robot i f w) ! j = (if j = i then f (robots w ! i) else robots w ! j)"
  by (simp add: update_robot_def nth_list_update)

lemma handle_payload_frame [simp]:
  "robot_row (handle_payload item dest rb) = robot_row rb"
  "robot_col (handle_payload item dest rb) = robot_col rb"
  "required_item (handle_payload item dest rb) = required_item rb"
  "destination (handle_payload item dest rb) = destination rb"
  "required_payload (handle_payload item dest rb) = required_payload rb"
  "robot_name (handle_payload item dest rb) = robot_name rb"
  by (simp_all add: handle_payload_def)

end
