(* ===== verification/System.thy ===== *)
theory System
  imports Robot_Thread
begin

text \<open>
  The running simulator: the central control thread and the robot threads of
  \<^verbatim>\<open>projects/automated_warehouse/automated_warehouse.c\<close>, interleaved. Each robot has a program
  counter; \<open>sys_step\<close> lets any robot do its next step, and lets the central control thread do one
  iteration of its loop when no robot is inside a turn (\<^verbatim>\<open>timer_sleep(10)\<close> at the end of an
  iteration gives the woken robots the time for their turn). A robot that has reported but is not
  yet on the list of blocked threads is not woken by \<^verbatim>\<open>unblock_threads\<close> and misses that round.

  The invariant \<open>sys_inv\<close> holds in every reachable state: no two robots on a cell that is not a
  shared place, no robot on a wall or on a shelf other than its own, messages up to date whenever
  the central control thread reads them.
\<close>

record system =
  wh :: warehouse
  pcs :: "pc list"

definition idle :: "pc \<Rightarrow> bool" where
  "idle p \<longleftrightarrow> p = Reported \<or> p = Blocked"

definition unblock_threads :: "pc list \<Rightarrow> pc list" where
  "unblock_threads ps = map (\<lambda>p. if p = Blocked then Woken else p) ps"

inductive sys_step :: "system \<Rightarrow> system \<Rightarrow> bool" where
  Start: "\<lbrakk>\<not> powered_off (wh s); i < length (pcs s); pcs s ! i = Starting\<rbrakk> \<Longrightarrow>
    sys_step s \<lparr>wh = robot_start i (wh s), pcs = (pcs s)[i := Reporting]\<rparr>"
| Report: "\<lbrakk>\<not> powered_off (wh s); i < length (pcs s); pcs s ! i = Reporting\<rbrakk> \<Longrightarrow>
    sys_step s \<lparr>wh = robot_report i cmd0 (wh s), pcs = (pcs s)[i := Reported]\<rparr>"
| Block: "\<lbrakk>\<not> powered_off (wh s); i < length (pcs s); pcs s ! i = Reported\<rbrakk> \<Longrightarrow>
    sys_step s \<lparr>wh = wh s, pcs = (pcs s)[i := Blocked]\<rparr>"
| Check: "\<lbrakk>\<not> powered_off (wh s); i < length (pcs s); pcs s ! i = Woken; robot_check i (wh s) = (p, w')\<rbrakk> \<Longrightarrow>
    sys_step s \<lparr>wh = w', pcs = (pcs s)[i := p]\<rparr>"
| Write: "\<lbrakk>\<not> powered_off (wh s); i < length (pcs s); pcs s ! i = Moving cell\<rbrakk> \<Longrightarrow>
    sys_step s \<lparr>wh = robot_write i cell (wh s), pcs = (pcs s)[i := Working]\<rparr>"
| Work: "\<lbrakk>\<not> powered_off (wh s); i < length (pcs s); pcs s ! i = Working\<rbrakk> \<Longrightarrow>
    sys_step s \<lparr>wh = robot_work i (item_of (robots (wh s) ! i)) (dest_of (robots (wh s) ! i)) (wh s),
                pcs = (pcs s)[i := Reporting]\<rparr>"
| Central: "\<lbrakk>\<not> powered_off (wh s); list_all idle (pcs s); central_iteration (wh s) = Inr w'\<rbrakk> \<Longrightarrow>
    sys_step s \<lparr>wh = w', pcs = (if powered_off w' then pcs s else unblock_threads (pcs s))\<rparr>"

inductive_cases sys_stepE: "sys_step s s'"

text \<open>The globals when the threads are created: static arrays hold zeros.\<close>

definition initial_warehouse :: "robot list \<Rightarrow> warehouse" where
  "initial_warehouse rs =
     \<lparr>robots = rs, number_of_robots = int (length rs),
      current_pos = replicate MAX_ROBOTS (0, 0), target_pos = replicate MAX_ROBOTS (0, 0),
      desired_cmd = replicate MAX_ROBOTS 0, next_pos = replicate MAX_ROBOTS (0, 0),
      accepted = replicate MAX_ROBOTS 0, considered = replicate MAX_ROBOTS 0,
      wait_steps = replicate MAX_ROBOTS 0, sacrifice_robot_idx = None,
      boxes = init_message_boxes (int (length rs)), step = 0, printed = [], powered_off = False\<rparr>"

definition boot :: "robot list \<Rightarrow> system result" where
  "boot rs = rbind (central_start (initial_warehouse rs)) (\<lambda>w.
     Inr \<lparr>wh = w, pcs = replicate (length rs) Starting\<rparr>)"

inductive reachable :: "robot list \<Rightarrow> system \<Rightarrow> bool" for rs where
  booted: "boot rs = Inr s \<Longrightarrow> reachable rs s"
| stepped: "reachable rs s \<Longrightarrow> sys_step s s' \<Longrightarrow> reachable rs s'"

subsection \<open>Safe floors\<close>

text \<open>A cell a robot may stand on: not a wall, and a shelf only if it is the shelf of its item.\<close>

definition open_for :: "robot \<Rightarrow> bool" where
  "open_for rb \<longleftrightarrow> on_map (robot_row rb) (robot_col rb) \<and> map_cell (robot_row rb) (robot_col rb) \<noteq> CHR ''X''
     \<and> (schar (map_cell (robot_row rb) (robot_col rb)) \<in> {schar (CHR ''1'')..schar (CHR ''9'')} \<longrightarrow>
          schar (map_cell (robot_row rb) (robot_col rb)) = schar (required_item rb) + schar (CHR ''0''))"

definition no_collision :: "robot list \<Rightarrow> bool" where
  "no_collision rs \<longleftrightarrow> (\<forall>i<length rs. \<forall>j<length rs. i \<noteq> j \<and> robot_pos (rs ! i) = robot_pos (rs ! j) \<longrightarrow>
     is_shared_place (robot_row (rs ! i)) (robot_col (rs ! i)))"

definition floor_ok :: "robot list \<Rightarrow> bool" where
  "floor_ok rs \<longleftrightarrow> (\<forall>rb \<in> set rs. open_for rb) \<and> no_collision rs"

text \<open>A robot's books: a finished robot is empty and at its destination; a load is the required one.\<close>

definition robot_ok :: "robot \<Rightarrow> bool" where
  "robot_ok rb \<longleftrightarrow> task_completed rb \<in> {0, 1}
     \<and> (task_completed rb = 1 \<longrightarrow> current_payload rb = 0 \<and> robot_pos rb = dest_of rb)
     \<and> current_payload rb \<in> {0, required_payload rb}"

text \<open>Halfway through a batch, every robot is where it was or where it was told to go.\<close>

definition in_batch :: "robot list \<Rightarrow> (nat \<Rightarrow> int) \<Rightarrow> robot list \<Rightarrow> bool" where
  "in_batch bs cmd rs \<longleftrightarrow> length rs = length bs \<and> (\<forall>i<length bs.
     required_item (rs ! i) = required_item (bs ! i)
     \<and> (robot_pos (rs ! i) = robot_pos (bs ! i) \<or> robot_pos (rs ! i) = goal (bs ! i) (cmd i)))"

lemma blocked_free_open:
  assumes "\<not> is_blocked_cell rs rb r c"
  shows "on_map r c" "map_cell r c \<noteq> CHR ''X''"
    "schar (map_cell r c) \<in> {schar (CHR ''1'')..schar (CHR ''9'')} \<Longrightarrow>
       schar (map_cell r c) = schar (required_item rb) + schar (CHR ''0'')"
  using assms shared_not_shelf [of r c rb]
  by (auto simp: is_blocked_cell_iff shelf_closed_def split: if_splits)

lemma in_batch_floor_ok:
  assumes base: "floor_ok bs" and safe: "safe_batch bs cmd" and mid: "in_batch bs cmd rs"
  shows "floor_ok rs"
proof -
  have len: "length rs = length bs" using mid by (simp add: in_batch_def)
  have at: "robot_pos (rs ! i) = robot_pos (bs ! i) \<or> (cmd i \<noteq> 0 \<and> robot_pos (rs ! i) = goal (bs ! i) (cmd i))"
    if "i < length bs" for i
    using mid that by (cases "cmd i = 0") (auto simp: in_batch_def)
  have "open_for (rs ! i)" if i: "i < length bs" for i
  proof -
    have item: "required_item (rs ! i) = required_item (bs ! i)" using mid i by (simp add: in_batch_def)
    from at [OF i] show ?thesis
    proof
      assume "robot_pos (rs ! i) = robot_pos (bs ! i)"
      then show ?thesis using base i item by (auto simp: floor_ok_def open_for_def)
    next
      assume g: "cmd i \<noteq> 0 \<and> robot_pos (rs ! i) = goal (bs ! i) (cmd i)"
      then have "\<not> is_blocked_cell bs (bs ! i) (robot_row (rs ! i)) (robot_col (rs ! i))"
        using safe_batch_free [OF safe i] by (metis fst_conv snd_conv)
      from blocked_free_open [OF this] show ?thesis using item by (auto simp: open_for_def)
    qed
  qed
  moreover have "is_shared_place (robot_row (rs ! i)) (robot_col (rs ! i))"
    if ij: "i < length bs" "j < length bs" "i \<noteq> j" and p: "robot_pos (rs ! i) = robot_pos (rs ! j)" for i j
  proof -
    have meet: "is_shared_place (robot_row (bs ! l)) (robot_col (bs ! l))"
      if "k < length bs" "l < length bs" "k \<noteq> l" "cmd k \<noteq> 0" "goal (bs ! k) (cmd k) = robot_pos (bs ! l)" for k l
      using safe_batch_movers [OF safe that(1,2)] safe_batch_waiting [OF safe that(1,2)] that by metis
    have apart: "goal (bs ! k) (cmd k) \<noteq> goal (bs ! l) (cmd l)"
      if "k < length bs" "l < length bs" "k \<noteq> l" "cmd k \<noteq> 0" "cmd l \<noteq> 0" for k l
      using safe_batch_movers [OF safe that(1,2)] that by metis
    have still: "is_shared_place (robot_row (bs ! i)) (robot_col (bs ! i))"
      if "robot_pos (bs ! i) = robot_pos (bs ! j)"
      using base ij that by (auto simp: floor_ok_def no_collision_def)
    from at [OF ij(1)] at [OF ij(2)] show ?thesis
      using p still meet [of i j] meet [of j i] apart [of i j] ij by (metis fst_conv snd_conv)
  qed
  ultimately show ?thesis
    by (simp add: floor_ok_def no_collision_def len all_set_conv_all_nth)
qed

text \<open>A robot's target cell stays free however far the others have got.\<close>

lemma in_batch_free:
  assumes safe: "safe_batch bs cmd" and mid: "in_batch bs cmd rs"
    and i: "i < length bs" "cmd i \<noteq> 0" "rs ! i = bs ! i"
  shows "\<not> blocked_at (is_blocked_cell rs (rs ! i)) (goal (bs ! i) (cmd i))"
proof -
  obtain r c where g: "goal (bs ! i) (cmd i) = (r, c)" by fastforce
  have free: "\<not> is_blocked_cell bs (bs ! i) r c" "cmd i \<in> {0, 1, 2, 3, 4}"
    using safe_batch_free [OF safe i(1,2)] safe_batch_code [OF safe i(1)] g by auto
  have away: "robot_pos (bs ! i) \<noteq> (r, c)" using g free(2) i(2) by (auto simp: goal_def get_next_position_def)
  have "is_shared_place r c" if q: "q \<in> set rs" "robot_pos q = (r, c)" for q
  proof -
    obtain j where j: "j < length bs" "q = rs ! j"
      using q(1) mid by (auto simp: in_batch_def in_set_conv_nth)
    have ne: "j \<noteq> i" using j that(2) i(3) away by auto
    have "robot_pos (rs ! j) = robot_pos (bs ! j) \<or> robot_pos (rs ! j) = goal (bs ! j) (cmd j)"
      using mid j(1) by (auto simp: in_batch_def)
    with that(2) j(2) have at: "robot_pos (bs ! j) = (r, c) \<or> goal (bs ! j) (cmd j) = (r, c)" by auto
    show ?thesis
    proof (cases "cmd j = 0")
      case True
      then have "robot_pos (bs ! j) = (r, c)" using at by auto
      with safe_batch_waiting [OF safe i(1) j(1) ne i(2) True] g show ?thesis by auto
    next
      case False
      with safe_batch_movers [OF safe i(1) j(1) ne i(2)] g at show ?thesis by auto
    qed
  qed
  from free_cell_stays_free [OF free(1) this] show ?thesis using g i(3) by simp
qed

subsection \<open>The invariant\<close>

definition synced :: "warehouse \<Rightarrow> nat \<Rightarrow> bool" where
  "synced w i \<longleftrightarrow> is_message_from_robot_ready i (boxes w)
     \<and> (\<exists>c. receive_message_from_robot i (boxes w) = status_message (robots w ! i) c)"

definition pc_ok :: "robot \<Rightarrow> int \<Rightarrow> robot \<Rightarrow> pc \<Rightarrow> bool" where
  "pc_ok b c rb p \<longleftrightarrow>
     (p = Woken \<longrightarrow> rb = b) \<and> (\<forall>cell. p = Moving cell \<longrightarrow> rb = b \<and> c \<noteq> 0 \<and> cell = goal b c)"

text \<open>The maps printed so far, and the end of the run.\<close>

definition log_ok :: "warehouse \<Rightarrow> bool" where
  "log_ok w \<longleftrightarrow> (\<forall>(st, rs) \<in> set (printed w). floor_ok rs)
     \<and> map fst (rev (printed w)) = map of_nat [0..<length (printed w)]
     \<and> (\<not> powered_off w \<longrightarrow> step w = of_nat (length (printed w)))
     \<and> (powered_off w \<longrightarrow> all_tasks_completed w)"

definition sys_inv :: "system \<Rightarrow> bool" where
  "sys_inv s \<longleftrightarrow> wh_shape (wh s) \<and> length (pcs s) = n_robots (wh s)
     \<and> (\<forall>i<n_robots (wh s). wait_steps (wh s) ! i \<ge> 0)
     \<and> (\<forall>i<n_robots (wh s). robot_ok (robots (wh s) ! i))
     \<and> (\<forall>i<n_robots (wh s). idle (pcs s ! i) \<longrightarrow> synced (wh s) i)
     \<and> log_ok (wh s)
     \<and> (\<exists>bs. floor_ok bs \<and> safe_batch bs (sent_cmd (wh s)) \<and> in_batch bs (sent_cmd (wh s)) (robots (wh s))
          \<and> (\<forall>i<n_robots (wh s). pc_ok (bs ! i) (sent_cmd (wh s) i) (robots (wh s) ! i) (pcs s ! i)))"

lemma sys_inv_floor_ok: "sys_inv s \<Longrightarrow> floor_ok (robots (wh s))"
  using in_batch_floor_ok by (auto simp: sys_inv_def)

lemma floor_ok_on_map: "floor_ok rs \<Longrightarrow> robots_on_map rs"
  by (simp add: floor_ok_def open_for_def robots_on_map_def)

text \<open>One robot's step: it changes its own entry, its own boxes and its own program counter.\<close>

lemma sys_inv_robot:
  assumes inv: "sys_inv s" and off: "\<not> powered_off (wh s)" and i: "i < length (pcs s)"
    and w': "robots w' = (robots (wh s))[i := rb']" "number_of_robots w' = number_of_robots (wh s)"
      "wait_steps w' = wait_steps (wh s)" "step w' = step (wh s)" "printed w' = printed (wh s)"
      "\<not> powered_off w'" "wh_shape w'" "sent_cmd w' = sent_cmd (wh s)"
    and others: "\<And>j. j \<noteq> i \<Longrightarrow> synced (wh s) j \<Longrightarrow> synced w' j"
    and own: "robot_ok rb'" "idle p' \<Longrightarrow> synced w' i" "required_item rb' = required_item (robots (wh s) ! i)"
    and at: "\<And>b. pc_ok b (sent_cmd (wh s) i) (robots (wh s) ! i) (pcs s ! i) \<Longrightarrow>
        pc_ok b (sent_cmd (wh s) i) rb' p'
        \<and> (robot_pos rb' = robot_pos (robots (wh s) ! i) \<or> robot_pos rb' = goal b (sent_cmd (wh s) i))"
  shows "sys_inv \<lparr>wh = w', pcs = (pcs s)[i := p']\<rparr>"
proof -
  let ?w = "wh s"
  from inv obtain bs where bs: "floor_ok bs" "safe_batch bs (sent_cmd ?w)" "in_batch bs (sent_cmd ?w) (robots ?w)"
    "\<forall>j<n_robots ?w. pc_ok (bs ! j) (sent_cmd ?w j) (robots ?w ! j) (pcs s ! j)" by (auto simp: sys_inv_def)
  have n: "length (robots ?w) = n_robots ?w" "length (pcs s) = n_robots ?w" "length bs = n_robots ?w"
    using inv bs(3) by (auto simp: sys_inv_def wh_shape_def in_batch_def)
  have rs: "robots w' ! j = (if j = i then rb' else robots ?w ! j)" if "j < n_robots ?w" for j
    using that w'(1) n by (simp add: nth_list_update)
  have ps: "(pcs s)[i := p'] ! j = (if j = i then p' else pcs s ! j)" if "j < n_robots ?w" for j
    using that n by (simp add: nth_list_update)
  note at_i = at [OF bs(4) [rule_format, OF i [unfolded n(2)]]]
  have "in_batch bs (sent_cmd ?w) (robots w')"
    unfolding in_batch_def
  proof (intro conjI allI impI)
    fix j assume "j < length bs"
    then have j: "j < n_robots ?w" "required_item (robots ?w ! j) = required_item (bs ! j)"
      "robot_pos (robots ?w ! j) = robot_pos (bs ! j) \<or> robot_pos (robots ?w ! j) = goal (bs ! j) (sent_cmd ?w j)"
      using bs(3) n(3) unfolding in_batch_def by auto
    show "required_item (robots w' ! j) = required_item (bs ! j)" using j(1,2) own(3) by (cases "j = i") (auto simp: rs)
    show "robot_pos (robots w' ! j) = robot_pos (bs ! j) \<or> robot_pos (robots w' ! j) = goal (bs ! j) (sent_cmd ?w j)"
      using j(1,3) at_i by (cases "j = i") (auto simp: rs)
  qed (use w'(1) n in simp)
  moreover have "\<forall>j<n_robots ?w. pc_ok (bs ! j) (sent_cmd ?w j) (robots w' ! j) ((pcs s)[i := p'] ! j)"
    using bs(4) at_i by (auto simp: rs ps)
  moreover have "\<forall>j<n_robots ?w. robot_ok (robots w' ! j)"
    using inv own(1) by (auto simp: rs sys_inv_def)
  moreover have "\<forall>j<n_robots ?w. idle ((pcs s)[i := p'] ! j) \<longrightarrow> synced w' j"
    using inv own(2) others by (auto simp: ps sys_inv_def)
  moreover have "log_ok w'" using inv w'(4,5,6) off by (simp add: sys_inv_def log_ok_def)
  moreover have "\<forall>j<n_robots ?w. wait_steps w' ! j \<ge> 0" using inv w'(3) by (simp add: sys_inv_def)
  ultimately show ?thesis
    unfolding sys_inv_def using w'(2,7,8) n(2) bs(1,2) by auto
qed

subsection \<open>Preservation\<close>

lemma sys_inv_robot_at:
  assumes "sys_inv s" "i < length (pcs s)"
  shows "robot_ok (robots (wh s) ! i)" "i < length (robots (wh s))"
    "i < length (boxes_from_robots (boxes (wh s)))" "wh_shape (wh s)"
    "i < length (boxes_from_central_control_node (boxes (wh s)))"
  using assms by (auto simp: sys_inv_def wh_shape_def)

lemma start_inv:
  assumes "sys_inv s" "\<not> powered_off (wh s)" "i < length (pcs s)" "pcs s ! i = Starting"
  shows "sys_inv \<lparr>wh = robot_start i (wh s), pcs = (pcs s)[i := Reporting]\<rparr>"
proof (rule sys_inv_robot [OF assms(1-3)])
  show "robots (robot_start i (wh s)) = (robots (wh s))[i := (robots (wh s) ! i)\<lparr>task_completed := 0\<rparr>]"
    by (simp add: robot_start_def update_robot_def)
  show "robot_ok ((robots (wh s) ! i)\<lparr>task_completed := 0\<rparr>)"
    using sys_inv_robot_at(1) [OF assms(1,3)] by (simp add: robot_ok_def)
  show "synced (robot_start i (wh s)) j" if "j \<noteq> i" "synced (wh s) j" for j
    using that by (simp add: synced_def robot_start_def update_robot_def)
qed (use assms sys_inv_robot_at(4) [OF assms(1,3)] in
    \<open>simp_all add: robot_start_def sent_cmd_def fun_eq_iff pc_ok_def idle_def\<close>)

lemma report_inv:
  assumes "sys_inv s" "\<not> powered_off (wh s)" "i < length (pcs s)" "pcs s ! i = Reporting"
  shows "sys_inv \<lparr>wh = robot_report i cmd0 (wh s), pcs = (pcs s)[i := Reported]\<rparr>"
proof (rule sys_inv_robot [OF assms(1-3)])
  note len = sys_inv_robot_at [OF assms(1,3)]
  show "robots (robot_report i cmd0 (wh s)) = (robots (wh s))[i := robots (wh s) ! i]"
    by (simp add: robot_report_def)
  show "synced (robot_report i cmd0 (wh s)) j" if "j \<noteq> i" "synced (wh s) j" for j
    using that by (simp add: synced_def robot_report_def to_central.receive_send_other to_central.ready_send_other)
  show "synced (robot_report i cmd0 (wh s)) i"
    using len(3) by (auto simp: synced_def robot_report_def to_central.receive_send_same to_central.ready_send_same)
  show "wh_shape (robot_report i cmd0 (wh s))" using len(4) by (simp add: robot_report_def wh_shape_def)
qed (use assms sys_inv_robot_at [OF assms(1,3)] in
    \<open>simp_all add: robot_report_def sent_cmd_def fun_eq_iff pc_ok_def\<close>)

lemma block_inv:
  assumes "sys_inv s" "\<not> powered_off (wh s)" "i < length (pcs s)" "pcs s ! i = Reported"
  shows "sys_inv \<lparr>wh = wh s, pcs = (pcs s)[i := Blocked]\<rparr>"
  by (rule sys_inv_robot [OF assms(1-3), of _ "robots (wh s) ! i"])
    (use assms sys_inv_robot_at [OF assms(1,3)] in \<open>auto simp: pc_ok_def idle_def sys_inv_def\<close>)

lemma check_inv:
  assumes "sys_inv s" "\<not> powered_off (wh s)" "i < length (pcs s)" "pcs s ! i = Woken"
    and "robot_check i (wh s) = (p, w')"
  shows "sys_inv \<lparr>wh = w', pcs = (pcs s)[i := p]\<rparr>"
proof (rule sys_inv_robot [OF assms(1-3)])
  have w': "w' = (wh s)\<lparr>boxes := clear_message_box i True (boxes (wh s))\<rparr>"
    and p: "p = Working \<or> p = Moving (goal (robots (wh s) ! i) (sent_cmd (wh s) i)) \<and> sent_cmd (wh s) i \<noteq> 0"
    using assms(5) by (auto simp: robot_check_def Let_def goal_def sent_cmd_def split: if_splits)
  show "robots w' = (robots (wh s))[i := robots (wh s) ! i]" "number_of_robots w' = number_of_robots (wh s)"
    "wait_steps w' = wait_steps (wh s)" "step w' = step (wh s)" "printed w' = printed (wh s)"
    "\<not> powered_off w'" "sent_cmd w' = sent_cmd (wh s)"
    using assms(2) by (simp_all add: w' sent_cmd_def fun_eq_iff)
  show "wh_shape w'" using sys_inv_robot_at(4) [OF assms(1,3)] by (simp add: w' wh_shape_def)
  show "synced w' j" if "synced (wh s) j" for j
    using that by (simp add: synced_def w' is_message_from_robot_ready_def)
  show "synced w' i" if "idle p" using that p by (auto simp: idle_def)
  fix b assume "pc_ok b (sent_cmd (wh s) i) (robots (wh s) ! i) (pcs s ! i)"
  then show "pc_ok b (sent_cmd (wh s) i) (robots (wh s) ! i) p
      \<and> (robot_pos (robots (wh s) ! i) = robot_pos (robots (wh s) ! i) \<or>
          robot_pos (robots (wh s) ! i) = goal b (sent_cmd (wh s) i))"
    using p assms(4) by (auto simp: pc_ok_def)
qed (use sys_inv_robot_at(1) [OF assms(1,3)] in simp_all)

lemma write_inv:
  assumes "sys_inv s" "\<not> powered_off (wh s)" "i < length (pcs s)" "pcs s ! i = Moving cell"
  shows "sys_inv \<lparr>wh = robot_write i cell (wh s), pcs = (pcs s)[i := Working]\<rparr>"
proof (rule sys_inv_robot [OF assms(1-3)])
  let ?rb = "robots (wh s) ! i"
  note at = sys_inv_robot_at [OF assms(1,3)]
  show "robots (robot_write i cell (wh s)) = (robots (wh s))[i := ?rb\<lparr>robot_row := fst cell, robot_col := snd cell\<rparr>]"
    by (simp add: robot_write_def update_robot_def)
  from assms(1) obtain bs where bs: "safe_batch bs (sent_cmd (wh s))" "length bs = n_robots (wh s)"
    "pc_ok (bs ! i) (sent_cmd (wh s) i) ?rb (pcs s ! i)"
    using assms(3) by (auto simp: sys_inv_def in_batch_def wh_shape_def)
  then have "task_completed ?rb = 0"
    using safe_batch_unfinished [OF bs(1), of i] assms(1,3,4) by (auto simp: pc_ok_def sys_inv_def)
  with at(1) show "robot_ok (?rb\<lparr>robot_row := fst cell, robot_col := snd cell\<rparr>)" by (simp add: robot_ok_def)
  show "synced (robot_write i cell (wh s)) j" if "j \<noteq> i" "synced (wh s) j" for j
    using that by (simp add: synced_def robot_write_def update_robot_def)
qed (use assms sys_inv_robot_at(4) [OF assms(1,3)] in
    \<open>auto simp: robot_write_def sent_cmd_def fun_eq_iff pc_ok_def idle_def\<close>)

lemma handle_payload_ok:
  assumes "robot_ok rb" "task_completed rb = 0"
  shows "robot_ok (handle_payload (item_of rb) (dest_of rb) rb)"
  using assms by (auto simp: robot_ok_def handle_payload_def dest_of_def prod_eq_iff)

lemma work_inv:
  assumes "sys_inv s" "\<not> powered_off (wh s)" "i < length (pcs s)" "pcs s ! i = Working"
  shows "sys_inv \<lparr>wh = robot_work i (item_of (robots (wh s) ! i)) (dest_of (robots (wh s) ! i)) (wh s),
                pcs = (pcs s)[i := Reporting]\<rparr>"
proof (rule sys_inv_robot [OF assms(1-3)])
  let ?rb = "robots (wh s) ! i"
  let ?rb' = "if task_completed ?rb = 0 then handle_payload (item_of ?rb) (dest_of ?rb) ?rb else ?rb"
  let ?w' = "robot_work i (item_of ?rb) (dest_of ?rb) (wh s)"
  note at = sys_inv_robot_at [OF assms(1,3)]
  show "robots ?w' = (robots (wh s))[i := ?rb']"
    by (simp add: robot_work_def update_robot_def Let_def)
  show "robot_ok ?rb'" using at(1) handle_payload_ok by simp
  show "wh_shape ?w'" using at(4) by (auto simp: robot_work_def update_robot_def Let_def wh_shape_def)
  show "synced ?w' j" if "j \<noteq> i" "synced (wh s) j" for j
    using that at(2,3) to_central.ready_clear_other [of i j] to_central.receive_clear [of i]
    by (simp add: synced_def robot_work_def update_robot_def Let_def)
qed (use assms in \<open>simp_all add: robot_work_def sent_cmd_def fun_eq_iff pc_ok_def idle_def Let_def\<close>)

text \<open>With the messages up to date, collecting them changes nothing.\<close>

lemma collect_state_synced:
  assumes "synced w i" shows "collect_state i w = w"
proof -
  obtain c where "receive_message_from_robot i (boxes w) = status_message (robots w ! i) c"
    using assms by (auto simp: synced_def)
  then show ?thesis by (simp add: collect_state_def status_message_def)
qed

lemma collect_states_synced:
  assumes "\<forall>i<n_robots w. synced w i" shows "collect_states w = w"
proof -
  have "fold collect_state is w = w" if "\<forall>i \<in> set is. synced w i" for "is"
    using that by (induction "is") (auto simp: collect_state_synced)
  with assms show ?thesis by (simp add: collect_states_def)
qed

lemma idle_synced:
  assumes "sys_inv s" "list_all idle (pcs s)"
  shows "\<forall>i<n_robots (wh s). synced (wh s) i"
  using assms by (auto simp: sys_inv_def list_all_length)

text \<open>An iteration on up-to-date messages: it prints the map, then stops or decides the moves.\<close>

lemma central_iteration_synced:
  assumes "\<forall>i<n_robots w. synced w i"
  shows "central_iteration w =
    (let w = w\<lparr>printed := (step w, robots w) # printed w\<rparr> in
     if all_tasks_completed w then Inr (w\<lparr>powered_off := True\<rparr>) else decide_moves w)"
  by (simp add: central_iteration_def collect_states_synced [OF assms] Let_def)

lemma printed_shape [simp]: "wh_shape (w\<lparr>printed := p\<rparr>) = wh_shape w"
  by (simp add: wh_shape_def)

lemma synced_same: "robots w' = robots w \<Longrightarrow> boxes_from_robots (boxes w') = boxes_from_robots (boxes w) \<Longrightarrow>
    synced w' i = synced w i"
  by (simp add: synced_def is_message_from_robot_ready_def receive_message_from_robot_def)

lemma print_log_ok:
  assumes "log_ok w" "floor_ok (robots w)" "\<not> powered_off w"
  shows "(\<forall>(st, rs) \<in> set ((step w, robots w) # printed w). floor_ok rs)"
    "map fst (rev ((step w, robots w) # printed w)) = map of_nat [0..<Suc (length (printed w))]"
  using assms by (auto simp: log_ok_def)

lemma decided_inv:
  assumes inv: "sys_inv s" and off: "\<not> powered_off (wh s)" and idle: "list_all idle (pcs s)"
    and w0: "w0 = (wh s)\<lparr>printed := (step (wh s), robots (wh s)) # printed (wh s)\<rparr>"
    and dec: "decide_moves w0 = Inr w'"
  shows "\<not> powered_off w'" "sys_inv \<lparr>wh = w', pcs = unblock_threads (pcs s)\<rparr>"
proof -
  have floor: "floor_ok (robots (wh s))" by (rule sys_inv_floor_ok [OF inv])
  have "wh_shape w0" "robots_on_map (robots w0)"
    using inv floor_ok_on_map [OF floor] by (auto simp: w0 sys_inv_def)
  from decide_moves_safe [OF this] dec
  have d: "decided w0 w'" "safe_batch (robots w') (sent_cmd w')" by auto
  have same: "robots w' = robots (wh s)" "number_of_robots w' = number_of_robots (wh s)" "wh_shape w'"
    "boxes_from_robots (boxes w') = boxes_from_robots (boxes (wh s))"
    "step w' = step (wh s) + 1" "printed w' = (step (wh s), robots (wh s)) # printed (wh s)"
    using d(1) by (auto simp: decided_def w0)
  show on: "\<not> powered_off w'" using d(1) off by (simp add: decided_def w0)
  have wait: "\<forall>i<n_robots (wh s). wait_steps w' ! i \<ge> 0"
    using d(1) inv by (auto simp: decided_def w0 sys_inv_def)
  have log: "log_ok w'"
    using print_log_ok [of "wh s"] inv floor off on same(5,6)
    by (simp add: log_ok_def sys_inv_def add.commute)
  have "\<forall>i<n_robots (wh s). synced w' i"
    using idle_synced [OF inv idle] synced_same [OF same(1,4)] by simp
  moreover have "in_batch (robots w') (sent_cmd w') (robots w')" by (simp add: in_batch_def)
  moreover have "\<forall>i<n_robots w'. pc_ok (robots w' ! i) (sent_cmd w' i) (robots w' ! i) (unblock_threads (pcs s) ! i)"
    using idle inv same(2) by (auto simp: pc_ok_def unblock_threads_def idle_def list_all_length sys_inv_def)
  moreover have "length (unblock_threads (pcs s)) = n_robots w'" "\<forall>i<n_robots w'. robot_ok (robots w' ! i)"
    using inv same by (auto simp: unblock_threads_def sys_inv_def)
  ultimately show "sys_inv \<lparr>wh = w', pcs = unblock_threads (pcs s)\<rparr>"
    unfolding sys_inv_def using wait log same floor d(2) by auto
qed

lemma central_inv:
  assumes inv: "sys_inv s" and off: "\<not> powered_off (wh s)" and idle: "list_all idle (pcs s)"
    and it: "central_iteration (wh s) = Inr w'"
  shows "sys_inv \<lparr>wh = w', pcs = (if powered_off w' then pcs s else unblock_threads (pcs s))\<rparr>"
proof -
  define w0 where w0: "w0 = (wh s)\<lparr>printed := (step (wh s), robots (wh s)) # printed (wh s)\<rparr>"
  have it': "(if all_tasks_completed w0 then Inr (w0\<lparr>powered_off := True\<rparr>) else decide_moves w0) = Inr w'"
    using it unfolding central_iteration_synced [OF idle_synced [OF inv idle]] w0 Let_def .
  show ?thesis
  proof (cases "all_tasks_completed w0")
    case True
    with it' have w': "w' = w0\<lparr>powered_off := True\<rparr>" by simp
    have fin: "all_tasks_completed w'" using True by (simp add: w' all_tasks_completed_def)
    have log: "log_ok w'"
      using print_log_ok [of "wh s"] inv sys_inv_floor_ok [OF inv] off fin
      by (auto simp: log_ok_def sys_inv_def w' w0)
    have "wh_shape w'" "sent_cmd w' = sent_cmd (wh s)" "\<forall>i. synced w' i = synced (wh s) i"
      using inv by (auto simp: w' w0 sys_inv_def wh_shape_def sent_cmd_def fun_eq_iff synced_def)
    with log inv show ?thesis unfolding sys_inv_def by (auto simp: w' w0)
  next
    case False
    with it' decided_inv [OF inv off idle w0, of w'] show ?thesis by simp
  qed
qed

lemma sys_step_inv: "sys_step s s' \<Longrightarrow> sys_inv s \<Longrightarrow> sys_inv s'"
  by (induction rule: sys_step.induct)
    (auto intro: start_inv report_inv block_inv check_inv write_inv work_inv dest: central_inv)

subsection \<open>Reachable states\<close>

text \<open>Robots as \<^verbatim>\<open>parse_robot_tasks\<close> sets them up: at the waiting place, empty, not finished.\<close>

definition parked :: "robot list \<Rightarrow> bool" where
  "parked rs \<longleftrightarrow> (\<forall>rb \<in> set rs. robot_pos rb = (ROW_W, COL_W) \<and> current_payload rb = 0 \<and> task_completed rb = 0)"

lemma fold_zero: "fold (\<lambda>i w. w\<lparr>wait_steps := (wait_steps w)[i := 0]\<rparr>) is w =
    w\<lparr>wait_steps := fold (\<lambda>i l. l[i := 0]) is (wait_steps w)\<rparr>"
  by (induction "is" arbitrary: w) simp_all

lemma fold_zero_replicate: "fold (\<lambda>i l. l[i := 0]) is (replicate n (0 :: int)) = replicate n 0"
proof (induction "is")
  case (Cons i "is")
  have "(replicate n (0 :: int))[i := 0] = replicate n 0"
    by (cases "i < n") (auto simp: list_eq_iff_nth_eq nth_list_update list_update_beyond)
  with Cons show ?case by simp
qed simp

lemma boot_eq:
  "boot rs = (if length rs > MAX_ROBOTS then Inl Out_of_bounds
     else Inr \<lparr>wh = initial_warehouse rs, pcs = replicate (length rs) Starting\<rparr>)"
  by (simp add: boot_def central_start_def fold_zero fold_zero_replicate initial_warehouse_def)

lemma wait_place: "map_cell 6 5 = CHR ''W''"
  by (simp add: map_cell_def map_draw_default_def)

lemma boot_inv:
  assumes "boot rs = Inr s" "parked rs"
  shows "sys_inv s"
proof -
  have s: "s = \<lparr>wh = initial_warehouse rs, pcs = replicate (length rs) Starting\<rparr>" "length rs \<le> MAX_ROBOTS"
    using assms(1) by (auto simp: boot_eq split: if_splits)
  have floor: "floor_ok rs"
    using assms(2) by (auto simp: floor_ok_def parked_def open_for_def no_collision_def is_shared_place_def
        on_map_def wait_place schar_def Let_def)
  have sent: "sent_cmd (initial_warehouse rs) i = 0" if "i < length rs" for i
    using that by (simp add: sent_cmd_def initial_warehouse_def init_message_boxes_def
        receive_command_from_central_def zero_message_def)
  have "safe_batch rs (sent_cmd (initial_warehouse rs)) = safe_batch rs (\<lambda>_. 0)"
    by (rule safe_batch_cong) (rule sent)
  moreover have "safe_batch rs (\<lambda>_. 0)" by (simp add: safe_batch_def)
  ultimately have "safe_batch rs (sent_cmd (initial_warehouse rs))" by simp
  moreover have "in_batch rs (sent_cmd (initial_warehouse rs)) rs" by (simp add: in_batch_def)
  moreover have "\<forall>rb \<in> set rs. robot_ok rb" using assms(2) by (auto simp: parked_def robot_ok_def)
  ultimately show ?thesis
    using floor s(2) unfolding sys_inv_def s(1)
    by (auto simp: initial_warehouse_def wh_shape_def init_message_boxes_def MAX_ROBOTS_def idle_def log_ok_def
        pc_ok_def intro!: exI [of _ rs])
qed

lemma reachable_inv:
  assumes "reachable rs s" "parked rs"
  shows "sys_inv s"
  using assms by (induction rule: reachable.induct) (auto intro: boot_inv sys_step_inv)

lemma central_iteration_robots:
  assumes "sys_inv s" "list_all idle (pcs s)" "central_iteration (wh s) = Inr w'"
  shows "robots w' = robots (wh s)"
proof -
  let ?w = "(wh s)\<lparr>printed := (step (wh s), robots (wh s)) # printed (wh s)\<rparr>"
  have it: "(if all_tasks_completed ?w then Inr (?w\<lparr>powered_off := True\<rparr>) else decide_moves ?w) = Inr w'"
    using assms(3) unfolding central_iteration_synced [OF idle_synced [OF assms(1,2)]] Let_def .
  have "wh_shape ?w" "robots_on_map (robots ?w)"
    using assms(1) floor_ok_on_map [OF sys_inv_floor_ok [OF assms(1)]] by (auto simp: sys_inv_def)
  from decide_moves_safe [OF this] it show ?thesis by (auto simp: decided_def split: if_splits)
qed

text \<open>A woken robot with a command finds its cell free, and enters it only when it is still free.\<close>

lemma woken_moves:
  assumes inv: "sys_inv s" and i: "i < length (pcs s)" "pcs s ! i = Woken" and c: "sent_cmd (wh s) i \<noteq> 0"
  shows "fst (robot_check i (wh s)) = Moving (goal (robots (wh s) ! i) (sent_cmd (wh s) i))"
proof -
  let ?rb = "robots (wh s) ! i" and ?c = "sent_cmd (wh s)"
  from inv i(1) obtain bs where bs: "safe_batch bs ?c" "in_batch bs ?c (robots (wh s))" "i < length bs"
    "pc_ok (bs ! i) (?c i) ?rb (pcs s ! i)"
    by (auto simp: sys_inv_def in_batch_def wh_shape_def)
  then have "?rb = bs ! i" using i(2) by (simp add: pc_ok_def)
  with in_batch_free [OF bs(1,2,3) c] safe_batch_unfinished [OF bs(1,3) c] c show ?thesis
    by (simp add: robot_check_def Let_def goal_def sent_cmd_def)
qed

lemma moving_free:
  assumes inv: "sys_inv s" and i: "i < length (pcs s)" "pcs s ! i = Moving cell"
  shows "\<not> blocked_at (is_blocked_cell (robots (wh s)) (robots (wh s) ! i)) cell"
    "adjacent (robot_pos (robots (wh s) ! i)) cell"
proof -
  let ?rb = "robots (wh s) ! i" and ?c = "sent_cmd (wh s)"
  from inv i(1) obtain bs where bs: "safe_batch bs ?c" "in_batch bs ?c (robots (wh s))" "i < length bs"
    "pc_ok (bs ! i) (?c i) ?rb (pcs s ! i)"
    by (auto simp: sys_inv_def in_batch_def wh_shape_def)
  then have rb: "?rb = bs ! i" "?c i \<noteq> 0" "cell = goal (bs ! i) (?c i)" using i(2) by (auto simp: pc_ok_def)
  show "\<not> blocked_at (is_blocked_cell (robots (wh s)) ?rb) cell" using in_batch_free [OF bs(1,2,3) rb(2,1)] rb by simp
  show "adjacent (robot_pos ?rb) cell"
    using safe_batch_code [OF bs(1,3)] rb by (auto simp: adjacent_def bfs_dirs_def goal_def get_next_position_def)
qed

subsection \<open>The floor, abstractly\<close>

text \<open>The warehouse floor as an observer sees it: the cells of the robots. In one move one robot goes
  to an adjacent cell that is no wall, and that no other robot is on unless it is a shared place.\<close>

inductive floor_move :: "(int \<times> int) list \<Rightarrow> (int \<times> int) list \<Rightarrow> bool" where
  "\<lbrakk>i < length ps; adjacent (ps ! i) q; on_map (fst q) (snd q); map_cell (fst q) (snd q) \<noteq> CHR ''X'';
    \<forall>j<length ps. j \<noteq> i \<and> ps ! j = q \<longrightarrow> is_shared_place (fst q) (snd q)\<rbrakk> \<Longrightarrow>
   floor_move ps (ps[i := q])"

definition positions :: "system \<Rightarrow> (int \<times> int) list" where
  "positions s = map robot_pos (robots (wh s))"

lemma write_floor_move:
  assumes inv: "sys_inv s" and i: "i < length (pcs s)" "pcs s ! i = Moving cell"
  shows "floor_move (positions s) (positions \<lparr>wh = robot_write i cell (wh s), pcs = ps\<rparr>)"
proof -
  have len: "i < length (robots (wh s))" using inv i(1) by (auto simp: sys_inv_def wh_shape_def)
  have eq: "positions \<lparr>wh = robot_write i cell (wh s), pcs = ps\<rparr> = (positions s)[i := cell]"
    by (simp add: positions_def robot_write_def update_robot_def map_update)
  note free = moving_free [OF inv i]
  show ?thesis
    unfolding eq
  proof (rule floor_move.intros)
    show "i < length (positions s)" "adjacent (positions s ! i) cell"
      using len free(2) by (simp_all add: positions_def)
    show "on_map (fst cell) (snd cell)" "map_cell (fst cell) (snd cell) \<noteq> CHR ''X''"
      using blocked_free_open [OF free(1)] by auto
    show "\<forall>j<length (positions s). j \<noteq> i \<and> positions s ! j = cell \<longrightarrow> is_shared_place (fst cell) (snd cell)"
      using free_occupied_shared [OF free(1), of "robots (wh s) ! _"] by (force simp: positions_def)
  qed
qed

lemma update_robot_positions:
  assumes "\<And>rb. robot_pos (f rb) = robot_pos rb"
  shows "map robot_pos (robots (update_robot i f w)) = map robot_pos (robots w)"
  using assms
  by (cases "i < length (robots w)") (auto simp: update_robot_def list_eq_iff_nth_eq nth_list_update list_update_beyond)

lemma sys_step_floor:
  assumes "sys_step s s'" "sys_inv s"
  shows "positions s' = positions s \<or> floor_move (positions s) (positions s')"
  using assms(1)
proof cases
  case (Start i)
  then show ?thesis
    by (simp add: positions_def robot_start_def update_robot_positions)
next
  case (Check i p w')
  then show ?thesis by (auto simp: positions_def robot_check_def Let_def)
next
  case (Write i cell)
  then show ?thesis using write_floor_move [OF assms(2)] by simp
next
  case (Work i)
  then show ?thesis
    by (simp add: positions_def robot_work_def update_robot_positions Let_def)
next
  case (Central w')
  then show ?thesis using central_iteration_robots [OF assms(2), of w'] by (simp add: positions_def)
qed (simp_all add: positions_def robot_report_def)

lemma central_iteration_runs:
  assumes "sys_inv s" "list_all idle (pcs s)"
  shows "\<exists>w'. central_iteration (wh s) = Inr w'"
proof -
  let ?w = "(wh s)\<lparr>printed := (step (wh s), robots (wh s)) # printed (wh s)\<rparr>"
  have "wh_shape ?w" "robots_on_map (robots ?w)"
    using assms(1) floor_ok_on_map [OF sys_inv_floor_ok [OF assms(1)]] by (auto simp: sys_inv_def)
  from decide_moves_safe [OF this] show ?thesis
    unfolding central_iteration_synced [OF idle_synced [OF assms]] Let_def by auto
qed

lemma robot_can_step:
  assumes "\<not> powered_off (wh s)" "i < length (pcs s)" "\<not> idle (pcs s ! i)"
  shows "\<exists>s'. sys_step s s'"
proof (cases "pcs s ! i")
  case Woken
  obtain p w' where "robot_check i (wh s) = (p, w')" by fastforce
  with Woken assms show ?thesis by (blast intro: sys_step.intros)
qed (use assms in \<open>auto simp: idle_def intro: sys_step.intros\<close>)

lemma all_ready_synced: "\<forall>i<nat n. is_message_from_robot_ready i b \<Longrightarrow> all_ready n b"
  by (auto simp: all_ready_def list_all_upt)

text \<open>The robots are never added or removed, and keep their names, items and destinations.\<close>

lemma sys_step_count: "sys_step s s' \<Longrightarrow> sys_inv s \<Longrightarrow> length (pcs s') = length (pcs s)"
  by (cases rule: sys_step.cases) (auto simp: unblock_threads_def)

lemma reachable_count:
  assumes "reachable rs s" "parked rs"
  shows "length (pcs s) = length rs" "n_robots (wh s) = length rs"
proof -
  show "length (pcs s) = length rs"
    using assms by (induction rule: reachable.induct) (auto simp: boot_eq sys_step_count reachable_inv split: if_splits)
  then show "n_robots (wh s) = length rs" using reachable_inv [OF assms] by (simp add: sys_inv_def)
qed

subsection \<open>What holds in every run\<close>






end
