(* ===== verification/Simulation.thy ===== *)
theory Simulation
  imports System
begin

text \<open>
  The simulator run round by round: one iteration of the central control thread, then the turn of
  every robot in the order of their indices. \<open>simulate\<close> computes such a run. Every state it reaches
  is reachable in the interleaving model of \<^verbatim>\<open>System\<close>, so all that holds there holds of it; and on it
  one can count: a robot alone in the warehouse carries its item to its destination, and the machine
  is shut down.
\<close>

definition robot_turn :: "nat \<Rightarrow> warehouse \<Rightarrow> warehouse" where
  "robot_turn i w = robot_report i 0 (robot_execute i (item_of (robots w ! i)) (dest_of (robots w ! i)) w)"

definition warehouse_round :: "warehouse \<Rightarrow> warehouse result" where
  "warehouse_round w = rbind (central_iteration w) (\<lambda>w.
     if powered_off w then Inr w else Inr (fold robot_turn [0..<n_robots w] w))"

fun simulate :: "nat \<Rightarrow> warehouse \<Rightarrow> warehouse result" where
  "simulate 0 w = Inr w"
| "simulate (Suc k) w = (if powered_off w then Inr w else rbind (warehouse_round w) (simulate k))"

text \<open>All robot threads have started and reported once.\<close>

definition started :: "robot list \<Rightarrow> warehouse" where
  "started rs = fold (\<lambda>i w. robot_report i 0 (robot_start i w)) [0..<length rs] (initial_warehouse rs)"

subsection \<open>Rounds are runs of the system\<close>

lemma turn_reachable:
  assumes r: "reachable rs s" and off: "\<not> powered_off (wh s)"
    and i: "i < length (pcs s)" "i < length (robots (wh s))" "pcs s ! i = Woken"
  shows "reachable rs \<lparr>wh = robot_turn i (wh s), pcs = (pcs s)[i := Blocked]\<rparr>"
proof -
  let ?w = "wh s"
  obtain p w1 where c: "robot_check i ?w = (p, w1)" by fastforce
  have w1: "robots w1 = robots ?w" "powered_off w1 = powered_off ?w"
    and p: "p = Working \<or> (\<exists>cell. p = Moving cell)"
    using c by (auto simp: robot_check_def Let_def split: if_splits)
  define w2 where "w2 = (case p of Moving cell \<Rightarrow> robot_write i cell w1 | _ \<Rightarrow> w1)"
  have s1: "reachable rs \<lparr>wh = w1, pcs = (pcs s)[i := p]\<rparr>"
    using sys_step.Check [OF off i(1,3) c] r by (rule stepped [rotated])
  have s2: "reachable rs \<lparr>wh = w2, pcs = (pcs s)[i := Working]\<rparr>"
    using p
  proof
    assume "\<exists>cell. p = Moving cell"
    then obtain cell where cell: "p = Moving cell" by blast
    from sys_step.Write [of "\<lparr>wh = w1, pcs = (pcs s)[i := p]\<rparr>" i cell] show ?thesis
      using stepped [OF s1] off w1 i cell by (simp add: w2_def)
  qed (use s1 in \<open>simp add: w2_def\<close>)
  have w2: "powered_off w2 = powered_off ?w" "i < length (robots w2)"
    "item_of (robots w2 ! i) = item_of (robots ?w ! i)" "dest_of (robots w2 ! i) = dest_of (robots ?w ! i)"
    using p w1 i(2) by (auto simp: w2_def robot_write_def update_robot_def item_of_def dest_of_def)
  let ?w3 = "robot_work i (item_of (robots ?w ! i)) (dest_of (robots ?w ! i)) w2"
  have ex: "robot_execute i (item_of (robots ?w ! i)) (dest_of (robots ?w ! i)) ?w = ?w3"
    using robot_execute_steps [OF i(2) c] by (simp add: w2_def)
  have off3: "\<not> powered_off ?w3" using off w2(1) by (simp add: robot_work_def Let_def)
  have s3: "reachable rs \<lparr>wh = ?w3, pcs = (pcs s)[i := Reporting]\<rparr>"
    using stepped [OF s2 sys_step.Work [of "\<lparr>wh = w2, pcs = (pcs s)[i := Working]\<rparr>" i]] off w2 i by simp
  have s4: "reachable rs \<lparr>wh = robot_turn i ?w, pcs = (pcs s)[i := Reported]\<rparr>"
    using stepped [OF s3 sys_step.Report [of "\<lparr>wh = ?w3, pcs = (pcs s)[i := Reporting]\<rparr>" i 0]] off3 i
    by (simp add: robot_turn_def ex)
  have "\<not> powered_off (robot_turn i ?w)" using off3 by (simp add: robot_turn_def ex robot_report_def)
  with stepped [OF s4 sys_step.Block [of "\<lparr>wh = robot_turn i ?w, pcs = (pcs s)[i := Reported]\<rparr>" i]] i
  show ?thesis by simp
qed

lemma robot_turn_frame [simp]:
  "powered_off (robot_turn i w) = powered_off w" "number_of_robots (robot_turn i w) = number_of_robots w"
  "length (robots (robot_turn i w)) = length (robots w)"
  "sacrifice_robot_idx (robot_turn i w) = sacrifice_robot_idx w"
  by (simp_all add: robot_turn_def robot_report_def robot_execute_def update_robot_def Let_def)

lemma fold_turn_frame [simp]:
  "number_of_robots (fold robot_turn is w) = number_of_robots w"
  "sacrifice_robot_idx (fold robot_turn is w) = sacrifice_robot_idx w"
  "powered_off (fold robot_turn is w) = powered_off w"
  by (induction "is" arbitrary: w) simp_all

lemma fold_turn_reachable:
  assumes r: "reachable rs \<lparr>wh = w, pcs = replicate n Woken\<rparr>" and off: "\<not> powered_off w"
    and n: "length (robots w) = n" and k: "k \<le> n"
  shows "reachable rs \<lparr>wh = fold robot_turn [0..<k] w, pcs = replicate k Blocked @ replicate (n - k) Woken\<rparr>
    \<and> \<not> powered_off (fold robot_turn [0..<k] w) \<and> length (robots (fold robot_turn [0..<k] w)) = n"
  using k
proof (induction k)
  case 0
  then show ?case using assms by simp
next
  case (Suc k)
  let ?ps = "replicate k Blocked @ replicate (n - k) Woken"
  have IH: "reachable rs \<lparr>wh = fold robot_turn [0..<k] w, pcs = ?ps\<rparr>"
    "\<not> powered_off (fold robot_turn [0..<k] w)" "length (robots (fold robot_turn [0..<k] w)) = n"
    using Suc by auto
  have "?ps[k := Blocked] = replicate (Suc k) Blocked @ replicate (n - Suc k) Woken"
    using Suc.prems
    by (simp add: list_update_append replicate_app_Cons_same Suc_diff_Suc [symmetric] del: Suc_diff_Suc)
  with turn_reachable [OF IH(1), of k] IH Suc.prems show ?case by (simp add: nth_append)
qed

lemma round_reachable:
  assumes r: "reachable rs \<lparr>wh = w, pcs = replicate (n_robots w) Blocked\<rparr>" and p: "parked rs"
    and off: "\<not> powered_off w" and round: "warehouse_round w = Inr w'"
  shows "reachable rs \<lparr>wh = w', pcs = replicate (n_robots w') Blocked\<rparr>"
proof -
  let ?s = "\<lparr>wh = w, pcs = replicate (n_robots w) Blocked\<rparr>"
  have inv: "sys_inv ?s" by (rule reachable_inv [OF r p])
  have idle: "list_all idle (pcs ?s)" by (auto simp: list_all_length idle_def)
  obtain w1 where w1: "central_iteration w = Inr w1" using central_iteration_runs [OF inv idle] by auto
  let ?s1 = "\<lparr>wh = w1, pcs = if powered_off w1 then pcs ?s else unblock_threads (pcs ?s)\<rparr>"
  have s1: "reachable rs ?s1" using stepped [OF r sys_step.Central] off idle w1 by simp
  then have inv1: "sys_inv ?s1" by (rule reachable_inv [OF _ p])
  have len: "length (robots w1) = n_robots w1" using inv1 by (simp add: sys_inv_def wh_shape_def)
  have n1: "n_robots w1 = n_robots w"
    using len central_iteration_robots [OF inv idle, of w1] w1 inv by (simp add: sys_inv_def wh_shape_def)
  show ?thesis
  proof (cases "powered_off w1")
    case True
    with round w1 s1 n1 show ?thesis by (simp add: warehouse_round_def)
  next
    case False
    have "unblock_threads (replicate (n_robots w) Blocked) = replicate (n_robots w1) Woken"
      by (simp add: unblock_threads_def n1 map_replicate_const)
    with fold_turn_reachable [OF _ False len order_refl, of rs] s1 False round w1 n1 show ?thesis
      by (auto simp: warehouse_round_def)
  qed
qed

lemma start_reachable:
  assumes r: "reachable rs s" and off: "\<not> powered_off (wh s)"
    and i: "i < length (pcs s)" "pcs s ! i = Starting"
  shows "reachable rs \<lparr>wh = robot_report i 0 (robot_start i (wh s)), pcs = (pcs s)[i := Blocked]\<rparr>"
proof -
  let ?w1 = "robot_start i (wh s)"
  have s1: "reachable rs \<lparr>wh = ?w1, pcs = (pcs s)[i := Reporting]\<rparr>"
    by (rule stepped [OF r sys_step.Start [OF off i]])
  have off1: "\<not> powered_off ?w1" using off by (simp add: robot_start_def)
  have s2: "reachable rs \<lparr>wh = robot_report i 0 ?w1, pcs = (pcs s)[i := Reported]\<rparr>"
    using stepped [OF s1 sys_step.Report [of "\<lparr>wh = ?w1, pcs = (pcs s)[i := Reporting]\<rparr>" i 0]] off1 i by simp
  have "\<not> powered_off (robot_report i 0 ?w1)" using off1 by (simp add: robot_report_def)
  with stepped [OF s2 sys_step.Block [of "\<lparr>wh = robot_report i 0 ?w1, pcs = (pcs s)[i := Reported]\<rparr>" i]] i
  show ?thesis by simp
qed

lemma started_frame:
  "powered_off (started rs) = False" "number_of_robots (started rs) = int (length rs)"
  "sacrifice_robot_idx (started rs) = None"
proof -
  have "powered_off (fold (\<lambda>i w. robot_report i 0 (robot_start i w)) is w) = powered_off w"
    "number_of_robots (fold (\<lambda>i w. robot_report i 0 (robot_start i w)) is w) = number_of_robots w"
    "sacrifice_robot_idx (fold (\<lambda>i w. robot_report i 0 (robot_start i w)) is w) = sacrifice_robot_idx w" for "is" w
    by (induction "is" arbitrary: w) (simp_all add: robot_report_def robot_start_def update_robot_def)
  then show "powered_off (started rs) = False" "number_of_robots (started rs) = int (length rs)"
    "sacrifice_robot_idx (started rs) = None"
    by (simp_all add: started_def initial_warehouse_def)
qed

lemma started_robots:
  assumes "parked rs" shows "robots (started rs) = rs"
proof -
  have "robots (fold (\<lambda>i w. robot_report i 0 (robot_start i w)) is w) = robots w"
    if "\<forall>rb \<in> set (robots w). task_completed rb = 0" "\<forall>i \<in> set is. i < length (robots w)" for "is" w
    using that
  proof (induction "is" arbitrary: w)
    case (Cons i "is")
    have "task_completed (robots w ! i) = 0" using Cons.prems by simp
    then have "(robots w ! i)\<lparr>task_completed := 0\<rparr> = robots w ! i" by simp
    then have "robots (robot_report i 0 (robot_start i w)) = robots w"
      by (simp add: robot_report_def robot_start_def update_robot_def)
    with Cons show ?case by simp
  qed simp
  from this [of "initial_warehouse rs" "[0..<length rs]"] assms show ?thesis
    by (simp add: started_def initial_warehouse_def parked_def)
qed

lemma started_reachable:
  assumes "length rs \<le> MAX_ROBOTS"
  shows "reachable rs \<lparr>wh = started rs, pcs = replicate (length rs) Blocked\<rparr>"
proof -
  let ?f = "\<lambda>k. fold (\<lambda>i w. robot_report i 0 (robot_start i w)) [0..<k] (initial_warehouse rs)"
  have "reachable rs \<lparr>wh = ?f k, pcs = replicate k Blocked @ replicate (length rs - k) Starting\<rparr>
    \<and> \<not> powered_off (?f k)" if "k \<le> length rs" for k
    using that
  proof (induction k)
    case 0
    then show ?case
      using booted [of rs] assms by (auto simp: boot_eq initial_warehouse_def)
  next
    case (Suc k)
    let ?ps = "replicate k Blocked @ replicate (length rs - k) Starting"
    have IH: "reachable rs \<lparr>wh = ?f k, pcs = ?ps\<rparr>" "\<not> powered_off (?f k)" using Suc by auto
    have "?ps[k := Blocked] = replicate (Suc k) Blocked @ replicate (length rs - Suc k) Starting"
      using Suc.prems
      by (simp add: list_update_append replicate_app_Cons_same Suc_diff_Suc [symmetric] del: Suc_diff_Suc)
    with start_reachable [OF IH(1), of k] IH(2) Suc.prems show ?case
      by (simp add: nth_append robot_report_def robot_start_def)
  qed
  from this [of "length rs"] show ?thesis by (simp add: started_def)
qed

lemma simulate_reachable:
  assumes "reachable rs \<lparr>wh = w, pcs = replicate (n_robots w) Blocked\<rparr>" "parked rs" "simulate k w = Inr w'"
  shows "reachable rs \<lparr>wh = w', pcs = replicate (n_robots w') Blocked\<rparr>"
  using assms
proof (induction k arbitrary: w)
  case (Suc k)
  show ?case
  proof (cases "powered_off w")
    case False
    then obtain w1 where w1: "warehouse_round w = Inr w1" "simulate k w1 = Inr w'"
      using Suc.prems(3) by (cases "warehouse_round w") auto
    from Suc.IH [OF round_reachable [OF Suc.prems(1,2) False w1(1)] Suc.prems(2) w1(2)] show ?thesis .
  qed (use Suc.prems in simp)
qed simp

lemma simulate_add:
  assumes "simulate j w = Inr w1"
  shows "simulate (j + k) w = simulate k w1"
  using assms
proof (induction j arbitrary: w)
  case (Suc j)
  have stop: "simulate k w = Inr w" if "powered_off w" using that by (cases k) auto
  show ?case using Suc stop by (cases "powered_off w"; cases "warehouse_round w") auto
qed simp

end
