(* ===== verification/Lone_Robot.thy ===== *)
theory Lone_Robot
  imports Simulation
begin

text \<open>
  A robot alone in the warehouse finishes its task. In each round the central control thread sends it
  along a shortest path, the command is executed, and the way that is left gets shorter by one cell;
  at the shelf it loads its item, at the destination it unloads, and the next iteration shuts the
  machine down. For each of the twenty-one tasks of the floor plan a route to the shelf and a route on
  to the destination are given.
\<close>

subsection \<open>One round\<close>

definition lone :: "robot \<Rightarrow> warehouse \<Rightarrow> robot \<Rightarrow> bool" where
  "lone rb0 w rb \<longleftrightarrow> reachable [rb0] \<lparr>wh = w, pcs = [Blocked]\<rparr> \<and> \<not> powered_off w \<and> robots w = [rb]
     \<and> sacrifice_robot_idx w = None"

lemma lone_inv:
  assumes "lone rb0 w rb" "parked [rb0]"
  shows "sys_inv \<lparr>wh = w, pcs = [Blocked]\<rparr>" "n_robots w = 1" "\<forall>i<n_robots w. synced w i"
proof -
  show inv: "sys_inv \<lparr>wh = w, pcs = [Blocked]\<rparr>"
    using reachable_inv assms by (auto simp: lone_def)
  then show "n_robots w = 1" by (simp add: sys_inv_def)
  show "\<forall>i<n_robots w. synced w i" using idle_synced [OF inv] by (simp add: idle_def)
qed

lemma lone_decide:
  assumes l: "lone rb0 w rb" and p: "parked [rb0]" and c: "task_completed rb = 0"
    and d: "get_next_direction [rb] rb (fst (get_robot_target rb)) (snd (get_robot_target rb)) = Inr d" "d \<noteq> 0"
  obtains w1 where "central_iteration w = Inr w1" "\<not> powered_off w1" "robots w1 = [rb]" "n_robots w1 = 1"
    "sent_cmd w1 0 = d" "sacrifice_robot_idx w1 = None" "safe_batch [rb] (sent_cmd w1)"
proof -
  note inv = lone_inv [OF l p]
  define w0 where "w0 = w\<lparr>printed := (step w, robots w) # printed w\<rparr>"
  have rs: "robots w0 = [rb]" "n_robots w0 = 1" "sacrifice_robot_idx w0 = None" "\<not> powered_off w0"
    using l inv(2) by (auto simp: w0_def lone_def)
  have shape: "wh_shape w0" using inv(1) by (simp add: w0_def sys_inv_def)
  have on: "robots_on_map (robots w0)"
    using floor_ok_on_map [OF sys_inv_floor_ok [OF inv(1)]] by (simp add: w0_def)
  from decide_moves_safe [OF shape on] obtain w1 where w1: "decide_moves w0 = Inr w1" "decided w0 w1"
    "safe_batch (robots w1) (sent_cmd w1)" by blast
  have "\<not> all_tasks_completed w0" using rs c by (simp add: all_tasks_completed_def)
  then have it: "central_iteration w = Inr w1"
    using central_iteration_synced [OF inv(3)] w1(1) by (simp add: w0_def Let_def)
  have want: "wanted_cmd w0 0 = d" using rs c d by (simp add: wanted_cmd_def)
  have "0 < n_robots w0" "wanted_cmd w0 0 \<noteq> 0" "\<And>i. i < n_robots w0 \<Longrightarrow> wanted_cmd w0 i \<noteq> 0 \<Longrightarrow> before w0 0 i"
    using rs want d(2) by (auto simp: before_def)
  from longest_waiting_sent [OF shape on this w1(1)] want
  have "sent_cmd w1 0 = d" "sacrifice_robot_idx w1 = None" by auto
  moreover have "\<not> powered_off w1" "robots w1 = [rb]" "n_robots w1 = 1"
    using w1(2) rs by (auto simp: decided_def)
  ultimately show ?thesis using that it w1(3) by simp
qed

lemma lone_turn:
  assumes "robots w1 = [rb]" "sent_cmd w1 0 = d" "d \<noteq> 0" "safe_batch [rb] (sent_cmd w1)"
  shows "robots (robot_turn 0 w1) =
    [handle_payload (item_of rb) (dest_of rb) (rb\<lparr>robot_row := fst (goal rb d), robot_col := snd (goal rb d)\<rparr>)]"
proof -
  have "\<not> blocked_at (is_blocked_cell [rb] rb) (goal rb d)" "task_completed rb = 0"
    using safe_batch_free [OF assms(4), of 0] safe_batch_unfinished [OF assms(4), of 0] assms(2,3) by auto
  then show ?thesis
    using assms(1-3)
    by (simp add: robot_turn_def robot_report_def robot_execute_def update_robot_def sent_cmd_def
        move_robot_one_step Let_def)
qed

lemma lone_round:
  assumes l: "lone rb0 w rb" and p: "parked [rb0]" and c: "task_completed rb = 0"
    and d: "get_next_direction [rb] rb (fst (get_robot_target rb)) (snd (get_robot_target rb)) = Inr d" "d \<noteq> 0"
  shows "\<exists>w'. simulate 1 w = Inr w' \<and> lone rb0 w'
    (handle_payload (item_of rb) (dest_of rb) (rb\<lparr>robot_row := fst (goal rb d), robot_col := snd (goal rb d)\<rparr>))"
proof -
  from assms obtain w1 where w1: "central_iteration w = Inr w1" "\<not> powered_off w1" "robots w1 = [rb]" "n_robots w1 = 1"
    "sent_cmd w1 0 = d" "sacrifice_robot_idx w1 = None" "safe_batch [rb] (sent_cmd w1)"
    by (rule lone_decide)
  have off: "\<not> powered_off w" using l by (simp add: lone_def)
  have round: "warehouse_round w = Inr (robot_turn 0 w1)" using w1(1,2,4) by (simp add: warehouse_round_def)
  have "reachable [rb0] \<lparr>wh = w, pcs = replicate (n_robots w) Blocked\<rparr>"
    using l lone_inv(2) [OF l p] by (simp add: lone_def)
  from round_reachable [OF this p off round] w1 lone_turn [OF w1(3,5) d(2) w1(7)]
  have "lone rb0 (robot_turn 0 w1)
    (handle_payload (item_of rb) (dest_of rb) (rb\<lparr>robot_row := fst (goal rb d), robot_col := snd (goal rb d)\<rparr>))"
    by (simp add: lone_def)
  moreover have "simulate 1 w = Inr (robot_turn 0 w1)"
    using off round by simp
  ultimately show ?thesis by blast
qed

subsection \<open>One leg\<close>

text \<open>After the first step of a shortest walk, the rest of it is still open.\<close>

lemma walk_mono: "walk b p qs \<Longrightarrow> (\<And>q. q \<in> set qs \<Longrightarrow> \<not> blocked_at b q \<Longrightarrow> \<not> blocked_at b' q) \<Longrightarrow> walk b' p qs"
  by (induction qs arbitrary: p) auto

lemma walk_free: "walk b p qs \<Longrightarrow> q \<in> set qs \<Longrightarrow> \<not> blocked_at b q"
  by (induction qs arbitrary: p) auto

lemma shortestD: "shortest b p qs t \<Longrightarrow> walk b p qs' \<Longrightarrow> last (p # qs') = t \<Longrightarrow> length qs \<le> length qs'"
  unfolding shortest_def by blast

lemma shortest_no_return:
  assumes "shortest b p (q # qs) t" shows "q \<notin> set qs"
proof
  assume "q \<in> set qs"
  then obtain as bs where qs: "qs = as @ q # bs" by (meson split_list)
  have w: "walk b p (q # as @ q # bs)" "last (p # q # as @ q # bs) = t"
    using assms qs by (simp_all add: shortest_def)
  then have "walk b p (q # bs)" by (auto simp: walk_append)
  moreover have "last (p # q # bs) = t" using w(2) by simp
  ultimately have "length (q # qs) \<le> length (q # bs)" using assms unfolding shortest_def by blast
  then show False using qs by simp
qed

lemma free_for_lone:
  assumes "\<not> is_blocked_cell [rb] rb r c" "robot_pos rb' \<noteq> (r, c)"
    and "current_payload rb' = current_payload rb" "required_item rb' = required_item rb"
  shows "\<not> is_blocked_cell [rb'] rb' r c"
proof -
  have "\<not> shelf_closed rb r c"
    using assms(1) shared_not_shelf by (auto simp: is_blocked_cell_iff split: if_splits)
  then have "\<not> shelf_closed rb' r c" using assms(3,4) by (simp add: shelf_closed_def)
  with assms(1,2) show ?thesis by (auto simp: is_blocked_cell_iff)
qed

lemma walk_after_step:
  assumes "shortest (is_blocked_cell [rb] rb) (robot_pos rb) (q # qs) t"
    and rb': "rb' = rb\<lparr>robot_row := fst q, robot_col := snd q\<rparr>"
  shows "walk (is_blocked_cell [rb'] rb') (robot_pos rb') qs" "last (robot_pos rb' # qs) = t"
proof -
  have w: "walk (is_blocked_cell [rb] rb) q qs" "last (q # qs) = t"
    using assms(1) by (auto simp: shortest_def)
  have q: "robot_pos rb' = q" by (simp add: rb')
  show "last (robot_pos rb' # qs) = t" using w(2) q by simp
  have "\<not> blocked_at (is_blocked_cell [rb'] rb') x"
    if "x \<in> set qs" "\<not> blocked_at (is_blocked_cell [rb] rb) x" for x
  proof (rule free_for_lone [OF that(2)])
    have "x \<noteq> q" using shortest_no_return [OF assms(1)] that(1) by blast
    then show "robot_pos rb' \<noteq> (fst x, snd x)" using q by (cases x) (metis fst_conv snd_conv)
  qed (simp_all add: rb')
  with walk_mono [OF w(1)] show "walk (is_blocked_cell [rb'] rb') (robot_pos rb') qs" unfolding q by blast
qed

text \<open>Away from the target nothing is loaded or unloaded.\<close>

lemma handle_payload_away:
  assumes "robot_pos rb \<noteq> get_robot_target rb" "current_payload rb \<ge> 0"
  shows "handle_payload (item_of rb) (dest_of rb) rb = rb"
  using assms by (auto simp: handle_payload_def get_robot_target_def item_of_def dest_of_def prod_eq_iff split: if_splits)

lemma target_moved [simp]:
  "get_robot_target (rb\<lparr>robot_row := r, robot_col := c\<rparr>) = get_robot_target rb"
  "item_of (rb\<lparr>robot_row := r, robot_col := c\<rparr>) = item_of rb"
  "dest_of (rb\<lparr>robot_row := r, robot_col := c\<rparr>) = dest_of rb"
  by (simp_all add: get_robot_target_def item_of_def dest_of_def)

lemma lone_leg:
  assumes "lone rb0 w rb" "parked [rb0]" "task_completed rb = 0" "current_payload rb \<ge> 0"
    and "robot_pos rb \<noteq> t" "t = get_robot_target rb"
    and "walk (is_blocked_cell [rb] rb) (robot_pos rb) qs" "last (robot_pos rb # qs) = t" "length qs \<le> n"
  shows "\<exists>k w'. k \<le> n \<and> simulate k w = Inr w' \<and>
    lone rb0 w' (handle_payload (item_of rb) (dest_of rb) (rb\<lparr>robot_row := fst t, robot_col := snd t\<rparr>))"
  using assms
proof (induction n arbitrary: w rb qs)
  case 0
  then show ?case by simp
next
  case (Suc n)
  have on: "on_map (robot_row rb) (robot_col rb)"
    using floor_ok_on_map [OF sys_inv_floor_ok [OF lone_inv(1) [OF Suc.prems(1,2)]]] Suc.prems(1)
    by (simp add: robots_on_map_def lone_def)
  have "reaches (is_blocked_cell [rb] rb) (robot_pos rb) (fst t, snd t)"
    using Suc.prems(7,8) unfolding reaches_def prod.collapse by blast
  from get_next_direction_reachable [OF on this] obtain d where d:
    "get_next_direction [rb] rb (fst t) (snd t) = Inr d" "heads_for [rb] rb d t"
    using Suc.prems(5) by (auto split: if_splits)
  then obtain q qs' where q: "shortest (is_blocked_cell [rb] rb) (robot_pos rb) (q # qs') t" "q = goal rb d" "d \<noteq> 0"
  proof -
    from d(2) obtain xs where "shortest (is_blocked_cell [rb] rb) (robot_pos rb) xs t" "xs \<noteq> []" "hd xs = goal rb d"
      "d \<noteq> 0" by (auto simp: heads_for_def goal_def)
    with that show ?thesis by (cases xs) auto
  qed
  have len: "length (q # qs') \<le> Suc n"
    using shortestD [OF q(1) Suc.prems(7,8)] Suc.prems(9) by simp
  define rb1 where "rb1 = rb\<lparr>robot_row := fst q, robot_col := snd q\<rparr>"
  from lone_round [OF Suc.prems(1-3), of d] d(1) q(2,3) Suc.prems(6) obtain w1 where w1: "simulate 1 w = Inr w1"
    "lone rb0 w1 (handle_payload (item_of rb) (dest_of rb) rb1)" by (auto simp: rb1_def)
  have rb1: "robot_pos rb1 = q" "get_robot_target rb1 = t" "item_of rb1 = item_of rb" "dest_of rb1 = dest_of rb"
    "task_completed rb1 = 0" "current_payload rb1 \<ge> 0"
    "rb1\<lparr>robot_row := fst t, robot_col := snd t\<rparr> = rb\<lparr>robot_row := fst t, robot_col := snd t\<rparr>"
    using Suc.prems(3,4,6) by (simp_all add: rb1_def)
  show ?case
  proof (cases "q = t")
    case True
    with w1 show ?thesis by (auto simp: rb1_def intro!: exI [of _ 1])
  next
    case False
    then have same: "handle_payload (item_of rb) (dest_of rb) rb1 = rb1"
      using handle_payload_away [of rb1] rb1 by simp
    note wk = walk_after_step [OF q(1) rb1_def]
    have "\<exists>k w'. k \<le> n \<and> simulate k w1 = Inr w' \<and>
        lone rb0 w' (handle_payload (item_of rb1) (dest_of rb1) (rb1\<lparr>robot_row := fst t, robot_col := snd t\<rparr>))"
      using w1(2) same rb1 wk len False Suc.prems(2) by (intro Suc.IH [of w1 rb1 qs']) auto
    then obtain k w' where "k \<le> n" "simulate k w1 = Inr w'"
      "lone rb0 w' (handle_payload (item_of rb) (dest_of rb) (rb\<lparr>robot_row := fst t, robot_col := snd t\<rparr>))"
      using rb1 by auto
    then show ?thesis using simulate_add [OF w1(1), of k] by (intro exI [of _ "1 + k"]) auto
  qed
qed

subsection \<open>All tasks of the floor plan\<close>

text \<open>For each task: the way from the waiting place to the shelf, and on to the destination.\<close>

definition routes :: "(string \<times> (int \<times> int) list \<times> (int \<times> int) list) list" where
  "routes =
    [(''1A'', [(5, 5), (5, 4), (5, 3), (5, 2), (5, 1), (4, 1), (3, 1), (2, 1), (2, 2)],
       [(1, 2), (1, 1), (1, 0)]),
     (''1B'', [(5, 5), (5, 4), (5, 3), (5, 2), (5, 1), (4, 1), (3, 1), (2, 1), (2, 2)],
       [(2, 1), (3, 1), (3, 0)]),
     (''1C'', [(5, 5), (5, 4), (5, 3), (5, 2), (5, 1), (4, 1), (3, 1), (2, 1), (2, 2)],
       [(2, 1), (3, 1), (4, 1), (5, 1), (5, 0)]),
     (''2A'', [(5, 5), (5, 4), (5, 3), (5, 2), (5, 1), (4, 1), (3, 1), (3, 2)],
       [(3, 1), (2, 1), (1, 1), (1, 0)]),
     (''2B'', [(5, 5), (5, 4), (5, 3), (5, 2), (5, 1), (4, 1), (3, 1), (3, 2)],
       [(3, 1), (3, 0)]),
     (''2C'', [(5, 5), (5, 4), (5, 3), (5, 2), (5, 1), (4, 1), (3, 1), (3, 2)],
       [(3, 1), (4, 1), (5, 1), (5, 0)]),
     (''3A'', [(5, 5), (5, 4), (5, 3), (5, 2), (4, 2)],
       [(4, 1), (3, 1), (2, 1), (1, 1), (1, 0)]),
     (''3B'', [(5, 5), (5, 4), (5, 3), (5, 2), (4, 2)],
       [(4, 1), (3, 1), (3, 0)]),
     (''3C'', [(5, 5), (5, 4), (5, 3), (5, 2), (4, 2)],
       [(5, 2), (5, 1), (5, 0)]),
     (''4A'', [(5, 5), (4, 5), (3, 5), (2, 5), (2, 4)],
       [(2, 5), (3, 5), (4, 5), (5, 5), (5, 4), (5, 3), (5, 2), (5, 1), (4, 1), (3, 1), (2, 1), (1, 1), (1, 0)]),
     (''4B'', [(5, 5), (4, 5), (3, 5), (2, 5), (2, 4)],
       [(2, 5), (3, 5), (4, 5), (5, 5), (5, 4), (5, 3), (5, 2), (5, 1), (4, 1), (3, 1), (3, 0)]),
     (''4C'', [(5, 5), (4, 5), (3, 5), (2, 5), (2, 4)],
       [(2, 5), (3, 5), (4, 5), (5, 5), (5, 4), (5, 3), (5, 2), (5, 1), (5, 0)]),
     (''5A'', [(5, 5), (4, 5), (3, 5), (3, 4)],
       [(3, 5), (4, 5), (5, 5), (5, 4), (5, 3), (5, 2), (5, 1), (4, 1), (3, 1), (2, 1), (1, 1), (1, 0)]),
     (''5B'', [(5, 5), (4, 5), (3, 5), (3, 4)],
       [(3, 5), (4, 5), (5, 5), (5, 4), (5, 3), (5, 2), (5, 1), (4, 1), (3, 1), (3, 0)]),
     (''5C'', [(5, 5), (4, 5), (3, 5), (3, 4)],
       [(3, 5), (4, 5), (5, 5), (5, 4), (5, 3), (5, 2), (5, 1), (5, 0)]),
     (''6A'', [(5, 5), (4, 5), (4, 4)],
       [(5, 4), (5, 3), (5, 2), (5, 1), (4, 1), (3, 1), (2, 1), (1, 1), (1, 0)]),
     (''6B'', [(5, 5), (4, 5), (4, 4)],
       [(5, 4), (5, 3), (5, 2), (5, 1), (4, 1), (3, 1), (3, 0)]),
     (''6C'', [(5, 5), (4, 5), (4, 4)],
       [(5, 4), (5, 3), (5, 2), (5, 1), (5, 0)]),
     (''7A'', [(5, 5), (4, 5), (3, 5), (2, 5), (1, 5), (1, 4), (1, 3)],
       [(1, 2), (1, 1), (1, 0)]),
     (''7B'', [(5, 5), (4, 5), (3, 5), (2, 5), (1, 5), (1, 4), (1, 3)],
       [(1, 2), (1, 1), (2, 1), (3, 1), (3, 0)]),
     (''7C'', [(5, 5), (4, 5), (3, 5), (2, 5), (1, 5), (1, 4), (1, 3)],
       [(1, 2), (1, 1), (2, 1), (3, 1), (4, 1), (5, 1), (5, 0)])]"

definition loaded :: "robot \<Rightarrow> robot" where
  "loaded rb = rb\<lparr>robot_row := fst (item_of rb), robot_col := snd (item_of rb), current_payload := required_payload rb\<rparr>"

definition route_ok :: "string \<times> (int \<times> int) list \<times> (int \<times> int) list \<Rightarrow> bool" where
  "route_ok rt \<longleftrightarrow> (case rt of (tok, qs1, qs2) \<Rightarrow>
     let rb = token_robot tok; rb1 = loaded rb in
     walk (is_blocked_cell [rb] rb) (robot_pos rb) qs1 \<and> last (robot_pos rb # qs1) = item_of rb
     \<and> robot_pos rb \<noteq> item_of rb \<and> required_payload rb > 0
     \<and> walk (is_blocked_cell [rb1] rb1) (robot_pos rb1) qs2 \<and> last (robot_pos rb1 # qs2) = dest_of rb1
     \<and> robot_pos rb1 \<noteq> dest_of rb1 \<and> length qs1 + length qs2 \<le> 18)"

lemma routes_ok: "list_all route_ok routes"
  by code_simp

lemma lone_done:
  assumes l: "lone rb0 w rb" and p: "parked [rb0]" and c: "task_completed rb \<noteq> 0" "current_payload rb = 0"
  shows "\<exists>w'. simulate 1 w = Inr w' \<and> powered_off w'"
proof -
  note inv = lone_inv [OF l p]
  let ?w = "w\<lparr>printed := (step w, robots w) # printed w\<rparr>"
  have "all_tasks_completed ?w" using l inv(2) c by (simp add: all_tasks_completed_def lone_def)
  then have "central_iteration w = Inr (?w\<lparr>powered_off := True\<rparr>)"
    using central_iteration_synced [OF inv(3)] by (simp add: Let_def)
  then show ?thesis using l by (simp add: warehouse_round_def lone_def)
qed

lemma token_parked: "parked [token_robot tok]" "task_completed (token_robot tok) = 0" "current_payload (token_robot tok) = 0"
  by (simp_all add: parked_def token_robot_def task_robot_def setRobot_def Let_def)

lemma loaded_simps [simp]:
  "task_completed (loaded rb) = task_completed rb" "current_payload (loaded rb) = required_payload rb"
  "dest_of (loaded rb) = dest_of rb"
  by (simp_all add: loaded_def dest_of_def)

lemma lone_finishes:
  assumes "route_ok (tok, qs1, qs2)"
  shows "\<exists>k w'. k \<le> 19 \<and> simulate k (started [token_robot tok]) = Inr w' \<and> powered_off w'
    \<and> reachable [token_robot tok] \<lparr>wh = w', pcs = [Blocked]\<rparr>"
proof -
  define rb where "rb = token_robot tok"
  let ?rb1 = "loaded rb"
  have r: "walk (is_blocked_cell [rb] rb) (robot_pos rb) qs1" "last (robot_pos rb # qs1) = item_of rb"
    "robot_pos rb \<noteq> item_of rb" "required_payload rb > 0"
    "walk (is_blocked_cell [?rb1] ?rb1) (robot_pos ?rb1) qs2" "last (robot_pos ?rb1 # qs2) = dest_of rb"
    "robot_pos ?rb1 \<noteq> dest_of rb" "length qs1 + length qs2 \<le> 18"
    using assms by (simp_all add: route_ok_def rb_def Let_def)
  have p: "parked [rb]" "task_completed rb = 0" "current_payload rb = 0" using token_parked by (simp_all add: rb_def)
  have st: "reachable [rb] \<lparr>wh = started [rb], pcs = [Blocked]\<rparr>"
    using started_reachable [of "[rb]"] by (simp add: MAX_ROBOTS_def)
  then have l0: "lone rb (started [rb]) rb"
    using started_frame [of "[rb]"] started_robots [OF p(1)] by (simp add: lone_def)
  have t0: "item_of rb = get_robot_target rb" using p(3) by (simp add: get_robot_target_def item_of_def)
  from lone_leg [OF l0 p(1,2) _ r(3) t0 r(1,2) order_refl] obtain k1 w1 where k1: "k1 \<le> length qs1"
    "simulate k1 (started [rb]) = Inr w1"
    "lone rb w1 (handle_payload (item_of rb) (dest_of rb) (rb\<lparr>robot_row := fst (item_of rb), robot_col := snd (item_of rb)\<rparr>))"
    using p(3) by auto
  then have l1: "lone rb w1 ?rb1" using p(3) by (simp add: handle_payload_def loaded_def)
  have t1: "dest_of rb = get_robot_target ?rb1" using r(4) by (simp add: get_robot_target_def dest_of_def loaded_def)
  have c1: "task_completed ?rb1 = 0" "current_payload ?rb1 \<ge> 0" using p(2) r(4) by simp_all
  from lone_leg [OF l1 p(1) c1 r(7) t1 r(5,6) order_refl] obtain k2 w2 where k2: "k2 \<le> length qs2"
    "simulate k2 w1 = Inr w2"
    "lone rb w2 (handle_payload (item_of ?rb1) (dest_of ?rb1) (?rb1\<lparr>robot_row := fst (dest_of rb), robot_col := snd (dest_of rb)\<rparr>))"
    by auto
  from lone_done [OF k2(3) p(1)] r(4) obtain w3 where w3: "simulate 1 w2 = Inr w3" "powered_off w3"
    by (auto simp: handle_payload_def)
  have sim: "simulate (k1 + (k2 + 1)) (started [rb]) = Inr w3"
    using simulate_add [OF k1(2)] simulate_add [OF k2(2)] w3(1) by metis
  have n: "n_robots (started [rb]) = 1" using started_frame(2) [of "[rb]"] by simp
  have st': "reachable [rb] \<lparr>wh = started [rb], pcs = replicate (n_robots (started [rb])) Blocked\<rparr>" using st n by simp
  from simulate_reachable [OF st' p(1) sim]
  have r3: "reachable [rb] \<lparr>wh = w3, pcs = replicate (n_robots w3) Blocked\<rparr>" .
  have "n_robots w3 = n_robots (started [rb])"
    using reachable_count [OF r3 p(1)] reachable_count [OF st' p(1)] by simp
  with r3 n have r4: "reachable [rb] \<lparr>wh = w3, pcs = [Blocked]\<rparr>" by simp
  have "k1 + (k2 + 1) \<le> 19" using k1(1) k2(1) r(8) by simp
  with sim w3(2) r4 show ?thesis unfolding rb_def by blast
qed




end
