(* ===== verification/Warehouse_Properties.thy ===== *)
theory Warehouse_Properties
  imports Lone_Robot
begin

text \<open>
  What the warehouse simulator promises beyond freedom from collisions: it refines a floor on which one
  robot at a time steps to a free neighbouring cell, the central control thread's decisions are safe and
  make progress, and the navigation sends every robot along a shortest way.
\<close>

subsection \<open>Concrete warehouses\<close>

text \<open>A warehouse with one robot that is to fetch item 4, and one in which another robot already stands
  on the shelf of item 4.\<close>

definition lone_4C :: warehouse where
  "lone_4C = initial_warehouse [token_robot ''4C'']"

definition shelf_4_taken :: "robot list" where
  "shelf_4_taken = [token_robot ''4C'', (token_robot ''4A'')\<lparr>robot_row := fst (item_of (token_robot ''4A'')),
                                             robot_col := snd (item_of (token_robot ''4A''))\<rparr>]"

lemma initial_shape: "length rs \<le> MAX_ROBOTS \<Longrightarrow> wh_shape (initial_warehouse rs)"
  by (simp add: wh_shape_def initial_warehouse_def init_message_boxes_def)

lemma on_map_4C: "on_map (robot_row (token_robot ''4C'')) (robot_col (token_robot ''4C''))"
  by code_simp

lemma lone_4C_ok: "wh_shape lone_4C" "robots_on_map (robots lone_4C)" "n_robots lone_4C = 1"
  "robots lone_4C = [token_robot ''4C'']" "\<forall>i<n_robots lone_4C. wait_steps lone_4C ! i \<ge> 0"
  using on_map_4C initial_shape [of "[token_robot ''4C'']"]
  by (simp_all add: lone_4C_def MAX_ROBOTS_def initial_warehouse_def robots_on_map_def)

lemma item_4C: "item_of (token_robot ''4C'') = get_robot_target (token_robot ''4C'')"
  using token_parked(3) by (simp add: get_robot_target_def item_of_def)

lemma route_4C: obtains qs1 qs2 where "route_ok (''4C'', qs1, qs2)"
proof -
  have "''4C'' \<in> set (map fst routes)" by code_simp
  then obtain qs1 qs2 where "(''4C'', qs1, qs2) \<in> set routes" by auto
  with routes_ok that show ?thesis by (auto simp: list_all_iff)
qed

lemma route_okD:
  assumes "route_ok (tok, qs1, qs2)"
  shows "robot_pos (token_robot tok) \<noteq> item_of (token_robot tok)"
    "reaches (is_blocked_cell [token_robot tok] (token_robot tok)) (robot_pos (token_robot tok)) (item_of (token_robot tok))"
  using assms unfolding route_ok_def Let_def reaches_def prod.case by blast+

lemma target_4C: "get_robot_target (token_robot ''4C'') \<noteq> robot_pos (token_robot ''4C'')"
  by (rule route_4C) (metis route_okD(1) item_4C)

lemma lone_4C_reaches:
  "reaches (is_blocked_cell [token_robot ''4C''] (token_robot ''4C'')) (robot_pos (token_robot ''4C''))
     (get_robot_target (token_robot ''4C''))"
  by (rule route_4C) (metis route_okD(2) item_4C)

lemma lone_4C_wants: "wanted_cmd lone_4C 0 \<noteq> 0"
proof -
  let ?t = "get_robot_target (token_robot ''4C'')"
  have "reaches (is_blocked_cell [token_robot ''4C''] (token_robot ''4C'')) (robot_pos (token_robot ''4C'')) (fst ?t, snd ?t)"
    using lone_4C_reaches by simp
  from get_next_direction_reachable [OF on_map_4C this] target_4C obtain d where
    "get_next_direction [token_robot ''4C''] (token_robot ''4C'') (fst ?t) (snd ?t) = Inr d" "d \<in> {1, 2, 3, 4}"
    by (auto simp: heads_for_def)
  then show ?thesis
    using token_parked(2) by (auto simp: wanted_cmd_def lone_4C_def initial_warehouse_def)
qed

lemma shelf_4_taken_blocked:
  "\<not> reaches (is_blocked_cell shelf_4_taken (token_robot ''4C'')) (robot_pos (token_robot ''4C''))
      (get_robot_target (token_robot ''4C''))"
proof
  assume "reaches (is_blocked_cell shelf_4_taken (token_robot ''4C'')) (robot_pos (token_robot ''4C''))
    (get_robot_target (token_robot ''4C''))"
  then obtain qs where qs: "walk (is_blocked_cell shelf_4_taken (token_robot ''4C'')) (robot_pos (token_robot ''4C'')) qs"
    "last (robot_pos (token_robot ''4C'') # qs) = get_robot_target (token_robot ''4C'')"
    unfolding reaches_def by blast
  with target_4C have "qs \<noteq> []" "last qs = get_robot_target (token_robot ''4C'')"
    by (auto split: if_splits)
  with walk_free [OF qs(1)] have "\<not> blocked_at (is_blocked_cell shelf_4_taken (token_robot ''4C''))
      (get_robot_target (token_robot ''4C''))" by (metis last_in_set)
  moreover have "blocked_at (is_blocked_cell shelf_4_taken (token_robot ''4C'')) (get_robot_target (token_robot ''4C''))"
    by code_simp
  ultimately show False by contradiction
qed


subsection \<open>Refinement of the floor\<close>




subsection \<open>The central control thread's decisions\<close>



text \<open>C14. The robot that has waited longest (the lowest index among equals) of those that want to move is
  sent the command it wants, whatever the others want: no robot waits for ever while it can move.\<close>

theorem longest_waiting_robot_moves:
  assumes "wh_shape w" "robots_on_map (robots w)" "k < n_robots w" "wanted_cmd w k \<noteq> 0"
    and "\<forall>i<n_robots w. wanted_cmd w i \<noteq> 0 \<longrightarrow> before w k i"
  shows "\<exists>w'. decide_moves w = Inr w' \<and> sent_cmd w' k = wanted_cmd w k"
  using decide_moves_safe [OF assms(1,2)] longest_waiting_sent(1) [OF assms(1-4)] assms(5) by blast

theorem longest_waiting_robot_moves_witness:
  "\<exists>w'. decide_moves lone_4C = Inr w' \<and> sent_cmd w' 0 = wanted_cmd lone_4C 0 \<and> sent_cmd w' 0 \<noteq> 0"
proof -
  have "\<exists>w'. decide_moves lone_4C = Inr w' \<and> sent_cmd w' 0 = wanted_cmd lone_4C 0"
    using lone_4C_ok lone_4C_wants by (intro longest_waiting_robot_moves) (simp_all add: before_def)
  with lone_4C_wants show ?thesis by metis
qed

text \<open>C13. A step in which nobody is sent anywhere happens only when nobody can move: if some unfinished
  robot has a command it wants, or a free cell to escape to, then some robot is sent a command.\<close>

theorem no_needless_standstill:
  assumes "wh_shape w" "robots_on_map (robots w)" "\<forall>i<n_robots w. wait_steps w ! i \<ge> 0"
    and "i < n_robots w" "task_completed (robots w ! i) = 0"
    and "wanted_cmd w i \<noteq> 0 \<or> get_escape_direction (robots w) (robots w ! i)
           (fst (get_robot_target (robots w ! i))) (snd (get_robot_target (robots w ! i))) \<noteq> 0"
  shows "\<exists>w' j. decide_moves w = Inr w' \<and> j < n_robots w \<and> sent_cmd w' j \<noteq> 0"
proof -
  obtain w' where w': "decide_moves w = Inr w'" using decide_moves_safe [OF assms(1,2)] by blast
  then show ?thesis using standstill [OF assms(1-3) w' _ assms(4,5)] assms(6) by blast
qed

theorem no_needless_standstill_witness:
  "\<exists>w' j. decide_moves lone_4C = Inr w' \<and> j < n_robots lone_4C \<and> sent_cmd w' j \<noteq> 0"
proof -
  have "task_completed (robots lone_4C ! 0) = 0" using token_parked(2) by (simp add: lone_4C_ok)
  then show ?thesis
    using no_needless_standstill [OF lone_4C_ok(1,2,5), of 0] lone_4C_ok(3) lone_4C_wants by simp
qed


subsection \<open>Navigation\<close>

text \<open>C15. When the target can be reached, \<^verbatim>\<open>get_next_direction\<close> returns the first step of a shortest free
  walk to it, and 0 exactly when the robot is there.\<close>

theorem navigation_is_shortest:
  assumes "on_map (robot_row robot) (robot_col robot)"
    and "reaches (is_blocked_cell rs robot) (robot_pos robot) (tr, tc)"
  shows "\<exists>d. get_next_direction rs robot tr tc = Inr d \<and>
    (if (tr, tc) = robot_pos robot then d = 0 else heads_for rs robot d (tr, tc))"
  by (rule get_next_direction_reachable [OF assms])

theorem navigation_is_shortest_witness:
  "\<exists>d. get_next_direction [token_robot ''4C''] (token_robot ''4C'') (fst (get_robot_target (token_robot ''4C'')))
      (snd (get_robot_target (token_robot ''4C''))) = Inr d
    \<and> heads_for [token_robot ''4C''] (token_robot ''4C'') d (get_robot_target (token_robot ''4C''))"
  using navigation_is_shortest [OF on_map_4C, of "[token_robot ''4C'']" "fst (get_robot_target (token_robot ''4C''))"
      "snd (get_robot_target (token_robot ''4C''))"] lone_4C_reaches target_4C by simp

text \<open>C16. When the target cannot be reached (another robot stands on it, or bars the way),
  \<^verbatim>\<open>get_next_direction\<close> returns the first step of a shortest walk to a reachable cell that is closest
  to the target, and 0 when no reachable cell is closer than the robot's own.\<close>

theorem navigation_falls_back:
  assumes "on_map (robot_row robot) (robot_col robot)"
    and "\<not> reaches (is_blocked_cell rs robot) (robot_pos robot) (tr, tc)"
  shows "\<exists>d. get_next_direction rs robot tr tc = Inr d \<and>
    (if \<exists>q. reaches (is_blocked_cell rs robot) (robot_pos robot) q
            \<and> distance_to tr tc q < distance_to tr tc (robot_pos robot)
     then \<exists>q. reaches (is_blocked_cell rs robot) (robot_pos robot) q
            \<and> (\<forall>q'. reaches (is_blocked_cell rs robot) (robot_pos robot) q' \<longrightarrow>
                  distance_to tr tc q \<le> distance_to tr tc q')
            \<and> heads_for rs robot d q
     else d = 0)"
  by (rule get_next_direction_fallback [OF assms])

theorem navigation_falls_back_witness:
  "\<exists>d. get_next_direction shelf_4_taken (token_robot ''4C'') (fst (get_robot_target (token_robot ''4C'')))
      (snd (get_robot_target (token_robot ''4C''))) = Inr d"
  using navigation_falls_back [OF on_map_4C, of shelf_4_taken "fst (get_robot_target (token_robot ''4C''))"
      "snd (get_robot_target (token_robot ''4C''))"] shelf_4_taken_blocked by auto


subsection \<open>The size of the planning arrays\<close>


end
