(* ===== verification/Stdlib.thy ===== *)
theory Stdlib
  imports C_String
begin

text \<open>
  \<^verbatim>\<open>lib/ctype.h\<close> and \<^verbatim>\<open>lib/stdlib.c\<close>: character classes, decimal conversion, heap sort and binary
  search. \<^verbatim>\<open>atoi\<close> works on the byte memory of \<^verbatim>\<open>C_String\<close>; its \<^verbatim>\<open>int\<close> arithmetic fails with
  \<^const>\<open>Signed_overflow\<close> where C leaves it undefined. \<^verbatim>\<open>sort\<close> and \<^verbatim>\<open>binary_search\<close> work on an array of
  bytes cut into elements of \<^verbatim>\<open>size\<close> bytes, with the comparison function as a parameter.
\<close>

subsection \<open>Character classes\<close>

definition islower :: "int \<Rightarrow> bool" where "islower c \<longleftrightarrow> c \<ge> schar (CHR ''a'') \<and> c \<le> schar (CHR ''z'')"
definition isupper :: "int \<Rightarrow> bool" where "isupper c \<longleftrightarrow> c \<ge> schar (CHR ''A'') \<and> c \<le> schar (CHR ''Z'')"
definition isalpha :: "int \<Rightarrow> bool" where "isalpha c \<longleftrightarrow> islower c \<or> isupper c"
definition isdigit :: "int \<Rightarrow> bool" where "isdigit c \<longleftrightarrow> c \<ge> schar (CHR ''0'') \<and> c \<le> schar (CHR ''9'')"
definition isalnum :: "int \<Rightarrow> bool" where "isalnum c \<longleftrightarrow> isalpha c \<or> isdigit c"

definition isxdigit :: "int \<Rightarrow> bool" where
  "isxdigit c \<longleftrightarrow> isdigit c \<or> (c \<ge> schar (CHR ''a'') \<and> c \<le> schar (CHR ''f''))
     \<or> (c \<ge> schar (CHR ''A'') \<and> c \<le> schar (CHR ''F''))"

definition isspace :: "int \<Rightarrow> bool" where
  "isspace c \<longleftrightarrow> c = schar (CHR '' '') \<or> c = schar (CHR 0x0C) \<or> c = schar (CHR 0x0A)
     \<or> c = schar (CHR 0x0D) \<or> c = schar (CHR 0x09) \<or> c = schar (CHR 0x0B)"

definition isblank :: "int \<Rightarrow> bool" where "isblank c \<longleftrightarrow> c = schar (CHR '' '') \<or> c = schar (CHR 0x09)"
definition isgraph :: "int \<Rightarrow> bool" where "isgraph c \<longleftrightarrow> c > 32 \<and> c < 127"
definition isprint :: "int \<Rightarrow> bool" where "isprint c \<longleftrightarrow> c \<ge> 32 \<and> c < 127"
definition iscntrl :: "int \<Rightarrow> bool" where "iscntrl c \<longleftrightarrow> (c \<ge> 0 \<and> c < 32) \<or> c = 127"
definition isascii :: "int \<Rightarrow> bool" where "isascii c \<longleftrightarrow> c \<ge> 0 \<and> c < 128"
definition ispunct :: "int \<Rightarrow> bool" where "ispunct c \<longleftrightarrow> isprint c \<and> \<not> isalnum c \<and> \<not> isspace c"

definition tolower :: "int \<Rightarrow> int" where
  "tolower c = (if isupper c then c - schar (CHR ''A'') + schar (CHR ''a'') else c)"

definition toupper :: "int \<Rightarrow> int" where
  "toupper c = (if islower c then c - schar (CHR ''a'') + schar (CHR ''A'') else c)"

subsection \<open>Decimal conversion\<close>

partial_function (option) skip_space :: "mem \<Rightarrow> nat \<Rightarrow> nat option" where
  "skip_space m s = (if isspace (of_char (m s)) then skip_space m (s + 1) else Some s)"

partial_function (option) atoi_digits :: "mem \<Rightarrow> nat \<Rightarrow> int \<Rightarrow> int result option" where
  "atoi_digits m s value =
     (if isdigit (schar (m s)) then
        (case rbind (c_int (value * 10)) (\<lambda>v. c_int (v - (schar (m s) - schar (CHR ''0'')))) of
           Inr v \<Rightarrow> atoi_digits m (s + 1) v
         | Inl e \<Rightarrow> Some (Inl e))
      else Some (Inr value))"

declare skip_space.simps [code] atoi_digits.simps [code]

definition atoi :: "mem \<Rightarrow> nat \<Rightarrow> int result" where
  "atoi m s =
     c_assert (s \<noteq> 0) (rbind (of_loop (skip_space m s)) (\<lambda>s.
       let negative = (m s = CHR ''-'');
           s = (if m s = CHR ''+'' \<or> m s = CHR ''-'' then s + 1 else s)
       in rbind (returns (atoi_digits m s 0)) (\<lambda>value.
            if \<not> negative then c_int (- value) else Inr value)))"

text \<open>The number that a string of digits denotes.\<close>

definition dec :: "string \<Rightarrow> int" where
  "dec ds = foldl (\<lambda>v c. v * 10 + (schar c - schar (CHR ''0''))) 0 ds"

definition digit :: "char \<Rightarrow> bool" where
  "digit c \<longleftrightarrow> isdigit (schar c)"

lemma schar_0 [simp]: "schar (CHR ''0'') = 48"
  by (simp add: schar_def)

lemma schar_9 [simp]: "schar (CHR ''9'') = 57"
  by (simp add: schar_def)

lemma digit_iff: "digit c \<longleftrightarrow> 48 \<le> schar c \<and> schar c \<le> 57"
  by (simp add: digit_def isdigit_def)

lemma digit_not_NUL: "\<not> digit NUL"
  by (simp add: digit_iff schar_def)

lemma schar_digit: "k < 10 \<Longrightarrow> schar (char_of (48 + k :: nat)) = int (48 + k)"
proof -
  assume "k < 10"
  moreover have "(of_char (char_of (48 + k) :: char) :: int) = int ((48 + k) mod 256)"
    by (metis of_char_of of_nat_of_char)
  ultimately show ?thesis by (simp add: schar_def)
qed

lemma foldl_dec:
  "foldl (\<lambda>v c. v * 10 + (schar c - 48)) v ds = v * 10 ^ length ds + foldl (\<lambda>v c. v * 10 + (schar c - 48)) 0 ds"
proof (induction ds arbitrary: v)
  case (Cons c ds)
  show ?case
    using Cons.IH [of "v * 10 + (schar c - 48)"] Cons.IH [of "schar c - 48"] by (simp add: algebra_simps)
qed simp

lemma dec_simps [simp]:
  "dec [] = 0" "dec (ds @ [c]) = dec ds * 10 + (schar c - 48)"
  by (simp_all add: dec_def)

lemma dec_Cons: "dec (c # ds) = (schar c - 48) * 10 ^ length ds + dec ds"
  by (simp add: dec_def foldl_dec [of "schar c - 48" ds])

lemma dec_nonneg: "list_all digit ds \<Longrightarrow> 0 \<le> dec ds"
  by (induction ds) (auto simp: dec_Cons digit_iff)

lemma show_nat_digits: "list_all digit (show_nat n) \<and> dec (show_nat n) = int n \<and> show_nat n \<noteq> []"
proof (induction n rule: less_induct)
  case (less n)
  show ?case
  proof (cases "n < 10")
    case True
    then show ?thesis by (simp add: show_nat.simps [of n] digit_iff schar_digit dec_def)
  next
    case False
    then have IH: "list_all digit (show_nat (n div 10))" "dec (show_nat (n div 10)) = int (n div 10)"
      using less by auto
    have d: "schar (char_of (48 + n mod 10)) = int (48 + n mod 10)" by (rule schar_digit) simp
    then have "digit (char_of (48 + n mod 10))" unfolding digit_iff d by simp
    moreover have "int (n div 10) * 10 + int (n mod 10) = int n"
      by (metis div_mult_mod_eq of_nat_add of_nat_mult of_nat_numeral)
    ultimately show ?thesis
      using False IH d by (simp add: show_nat.simps [of n])
  qed
qed

text \<open>Digits are read into the negated value, which fits exactly when the number does.\<close>

lemma atoi_digits_stop:
  "\<not> digit (m s) \<Longrightarrow> atoi_digits m s v = Some (Inr v)"
  by (simp add: atoi_digits.simps digit_def)

lemma too_small_stays:
  "x \<le> 0 \<Longrightarrow> 1 \<le> p \<Longrightarrow> 0 \<le> d \<Longrightarrow> \<not> b \<le> x \<Longrightarrow> \<not> b \<le> x * p - (d :: int)"
  using mult_left_mono_neg [of 1 p x] by simp

lemma atoi_digits_run:
  assumes "\<forall>i<length ds. m (s + i) = ds ! i" "list_all digit ds" "\<not> digit (m (s + length ds))"
    and "- (2 ^ 31) \<le> v" "v \<le> 0"
  shows "atoi_digits m s v =
    Some (let r = v * 10 ^ length ds - dec ds in if - (2 ^ 31) \<le> r then Inr r else Inl Signed_overflow)"
  using assms
proof (induction ds arbitrary: s v)
  case Nil
  then show ?case by (simp add: atoi_digits_stop)
next
  case (Cons c ds)
  have c: "m s = c" "digit c" using Cons.prems(1,2) by force+
  let ?v = "v * 10 - (schar c - 48)"
  have dv: "dec (c # ds) = (schar c - 48) * 10 ^ length ds + dec ds" by (rule dec_Cons)
  have r: "v * 10 ^ length (c # ds) - dec (c # ds) = ?v * 10 ^ length ds - dec ds"
    by (simp add: dv algebra_simps)
  have nn: "0 \<le> dec ds" using Cons.prems(2) by (intro dec_nonneg) simp
  have le: "?v \<le> 0" using c(2) Cons.prems(5) by (simp add: digit_iff)
  have one: "(1 :: int) \<le> 10 ^ length ds" by simp
  show ?case
  proof (cases "- (2 ^ 31) \<le> ?v")
    case True
    then have step: "atoi_digits m s v = atoi_digits m (s + 1) ?v"
      using c le Cons.prems(5) by (simp add: atoi_digits.simps [of m s] digit_def [symmetric] c_int_def digit_iff)
    have "\<forall>i<length ds. m (s + 1 + i) = ds ! i" using Cons.prems(1) by force
    moreover have "\<not> digit (m (s + 1 + length ds))" using Cons.prems(3) by simp
    ultimately show ?thesis
      unfolding step r using Cons.IH [of "s + 1" ?v] Cons.prems(2) True le by simp
  next
    case False
    then have "\<not> - (2 ^ 31) \<le> ?v * 10 ^ length ds - dec ds" by (rule too_small_stays [OF le one nn])
    moreover have "atoi_digits m s v = Some (Inl Signed_overflow)"
      using c le False Cons.prems(5)
      by (simp add: atoi_digits.simps [of m s] digit_def [symmetric] c_int_def digit_iff)
    ultimately show ?thesis unfolding r by (simp add: Let_def)
  qed
qed


lemma skip_space_run:
  assumes "\<forall>i<length ws. isspace (of_char (m (s + i)))" "\<not> isspace (of_char (m (s + length ws)))"
  shows "skip_space m s = Some (s + length ws)"
  using assms
proof (induction ws arbitrary: s)
  case Nil
  then show ?case by (simp add: skip_space.simps)
next
  case (Cons w ws)
  then have "isspace (of_char (m s))" "\<forall>i<length ws. isspace (of_char (m (Suc s + i)))" by force+
  with Cons show ?case by (simp add: skip_space.simps [of m s])
qed

lemma first_not_space:
  assumes "digit c \<or> c = CHR ''-'' \<or> c = CHR ''+''"
  shows "\<not> isspace (of_char c)"
proof
  assume "isspace (of_char c)"
  then have sp: "(of_char c :: int) \<in> {32, 12, 10, 13, 9, 11}" by (auto simp: isspace_def schar_def)
  then have "schar c = of_char c" by (auto simp: schar_def Let_def)
  with sp assms show False by (auto simp: digit_iff)
qed

text \<open>Reading a number: the sign and the digits after white space decide the result.\<close>

lemma atoi_reads:
  assumes str: "cstr m p (ws @ show_int i @ rest)" and p: "p \<noteq> 0"
    and ws: "\<forall>c \<in> set ws. isspace (of_char c)" and rest: "rest = [] \<or> \<not> digit (hd rest)"
  shows "atoi m p = (if - (2 ^ 31) \<le> i \<and> i < 2 ^ 31 then Inr i else Inl Signed_overflow)"
proof -
  define ds where "ds = show_nat (nat \<bar>i\<bar>)"
  have ds: "list_all digit ds" "dec ds = \<bar>i\<bar>" "ds \<noteq> []" using show_nat_digits by (simp_all add: ds_def)
  define s where "s = p + length ws"
  define sg where "sg = (if i < 0 then [CHR ''-''] else [])"
  have si: "show_int i = sg @ ds" by (simp add: show_int_def ds_def sg_def)
  have mem: "m (s + k) = (sg @ ds @ rest) ! k" if "k < length (sg @ ds @ rest)" for k
    using str that unfolding cstr_append si cstr_iff s_def by (simp add: add.assoc)
  have e: "m (s + length (sg @ ds @ rest)) = NUL"
    using str unfolding si cstr_iff s_def by (simp add: add.assoc)
  have first: "m s = (if i < 0 then CHR ''-'' else hd ds)"
    using mem [of 0] ds(3) by (auto simp: sg_def hd_append hd_conv_nth nth_append)
  have hd: "digit (hd ds)" using ds(1,3) by (cases ds) auto
  have "\<forall>k<length ws. isspace (of_char (m (p + k)))" using str ws by (simp add: cstr_append)
  moreover have "\<not> isspace (of_char (m (p + length ws)))"
    using first first_not_space hd unfolding s_def by auto
  ultimately have sk: "skip_space m p = Some s" unfolding s_def by (rule skip_space_run)
  let ?s = "if m s = CHR ''+'' \<or> m s = CHR ''-'' then s + 1 else s"
  have nosign: "\<not> digit (CHR ''+'')" "\<not> digit (CHR ''-'')" by (simp_all add: digit_iff schar_def)
  have s': "?s = s + length sg" and neg: "(m s = CHR ''-'') = (i < 0)"
    using first hd nosign by (auto simp: sg_def)
  have "\<forall>k<length ds. m (?s + k) = ds ! k"
    unfolding s' using mem [of "length sg + k" for k] by (auto simp: nth_append add.assoc)
  moreover have "\<not> digit (m (?s + length ds))"
  proof (cases rest)
    case Nil
    then show ?thesis unfolding s' using e digit_not_NUL by (simp add: add.assoc)
  next
    case (Cons c cs)
    then have "m (?s + length ds) = c" unfolding s' using mem [of "length sg + length ds"] by (simp add: nth_append add.assoc)
    with Cons rest show ?thesis by simp
  qed
  ultimately have "atoi_digits m ?s 0 = Some (let r = 0 * 10 ^ length ds - dec ds in
      if - (2 ^ 31) \<le> r then Inr r else Inl Signed_overflow)"
    using ds(1) by (intro atoi_digits_run) auto
  then have run: "atoi_digits m ?s 0 = Some (if \<bar>i\<bar> \<le> 2 ^ 31 then Inr (- \<bar>i\<bar>) else Inl Signed_overflow)"
    by (simp add: Let_def ds(2))
  show ?thesis
    unfolding atoi_def using p sk run neg by (simp add: Let_def c_int_def)
qed

end
