(* ===== verification/String_Properties.thy ===== *)
theory String_Properties
  imports Stdlib Robot
begin

text \<open>
  The contracts of the string routines (\<^verbatim>\<open>lib/string.c\<close>, \<^verbatim>\<open>lib/stdlib.c\<close>) and of the task parser
  (\<^verbatim>\<open>projects/automated_warehouse/automated_warehouse.c\<close>) as the rest of the program relies on
  them, each with an instance on a concrete memory.
\<close>

subsection \<open>Blocks and strings\<close>

text \<open>C27. \<^verbatim>\<open>memmove\<close> moves a block correctly for every overlap of source and destination and changes
  nothing outside the destination. The pointer it returns is the destination only when the copy runs
  downwards; when it runs upwards the pointer is one past the destination block.\<close>

theorem memmove_any_overlap:
  assumes "dst \<noteq> 0" "src \<noteq> 0"
  shows "\<exists>m'. memmove m dst src n = Inr (m', if dst < src then dst + n else dst)
    \<and> bytes m' dst n = bytes m src n
    \<and> (\<forall>x. x < dst \<or> dst + n \<le> x \<longrightarrow> m' x = m x)"
  by (rule memmove_moves [OF assms])

theorem memmove_any_overlap_witness:
  "\<exists>m'. memmove (put_string 10 ''abcdef'' (\<lambda>_. NUL)) 10 12 4 = Inr (m', 14) \<and> bytes m' 10 4 = ''cdef''
     \<and> m' 14 = CHR ''e''"
  using memmove_any_overlap [of 10 12 "put_string 10 ''abcdef'' (\<lambda>_. NUL)" 4]
  by (auto simp: bytes_def put_string_def upt_rec)



text \<open>A call of \<^verbatim>\<open>strtok_r\<close>, on a fresh string or on the saved position, yields the null pointer when
  only delimiters are left; otherwise it yields a pointer to the next token, terminated in place, and
  saves the position just behind that token. It writes only inside the string.\<close>

theorem strtok_r_next:
  assumes "cstr m s str" "cstr m d delims" "d \<noteq> 0" "s \<noteq> 0" "(if s0 = 0 then save else s0) = s"
  shows "if set str \<subseteq> set delims then strtok_r m s0 d save = Inr (m, 0, s + length str)
    else \<exists>m' token save'. strtok_r m s0 d save = Inr (m', token, save')
      \<and> token \<noteq> 0 \<and> cstr m' token (next_token (set delims) str)
      \<and> cstr m' save' (tl (after_token (set delims) str))
      \<and> s \<le> token \<and> token < save' \<and> save' + length (tl (after_token (set delims) str)) = s + length str
      \<and> (\<forall>x. x < s \<or> s + length str < x \<longrightarrow> m' x = m x)"
  by (rule strtok_r_splits [OF assms])

theorem strtok_r_next_witness:
  "\<exists>m' token save'. strtok_r (put_string 10 '':2A:4C'' (put_string 30 '':'' (\<lambda>_. NUL))) 10 30 0 = Inr (m', token, save')
     \<and> cstr m' token ''2A'' \<and> cstr m' save' ''4C''"
  using strtok_r_next [of "put_string 10 '':2A:4C'' (put_string 30 '':'' (\<lambda>_. NUL))" 10 "'':2A:4C''" 30 "'':''" 10 0]
  by (auto simp: put_string_simps next_token_def after_token_def simp del: cstr.simps)

text \<open>\<^verbatim>\<open>strstr\<close> finds the first occurrence of the needle in the haystack, and yields the null pointer
  when there is none.\<close>

theorem strstr_first:
  assumes "cstr m h hs" "cstr m n ns" "h \<noteq> 0" "n \<noteq> 0"
  shows "strstr m h n =
    Inr (if \<exists>i. i + length ns \<le> length hs \<and> take (length ns) (drop i hs) = ns
         then h + (LEAST i. i + length ns \<le> length hs \<and> take (length ns) (drop i hs) = ns) else 0)"
  by (rule strstr_finds_first [OF assms])

theorem strstr_first_witness:
  "strstr (put_string 10 ''abab'' (put_string 30 ''ba'' (\<lambda>_. NUL))) 10 30 = Inr 11"
proof -
  let ?P = "\<lambda>i. i + length ''ba'' \<le> length ''abab'' \<and> take (length ''ba'') (drop i ''abab'') = ''ba''"
  have p: "?P 1" by simp
  moreover have "\<not> ?P 0" by simp
  ultimately have "(LEAST i. ?P i) = 1"
    by (intro Least_equality) (metis One_nat_def Suc_leI gr0I)+
  then show ?thesis
    using strstr_first [of "put_string 10 ''abab'' (put_string 30 ''ba'' (\<lambda>_. NUL))" 10 "''abab''" 30 "''ba''"] p
    by (auto simp: put_string_simps simp del: cstr.simps)
qed

text \<open>C25. Printing a number in decimal and reading it with \<^verbatim>\<open>atoi\<close> gives the number back for every value
  of type \<^verbatim>\<open>int\<close>, the smallest one included, whatever white space precedes it and whatever non-digit
  follows it; for any number outside the range the accumulation overflows, which C leaves undefined.\<close>

theorem atoi_decimal_roundtrip:
  assumes "cstr m p (ws @ show_int i @ rest)" "p \<noteq> 0"
    and "\<forall>c \<in> set ws. isspace (of_char c)" "rest = [] \<or> \<not> digit (hd rest)"
  shows "atoi m p = (if - (2 ^ 31) \<le> i \<and> i < 2 ^ 31 then Inr i else Inl Signed_overflow)"
  by (rule atoi_reads [OF assms])

theorem atoi_decimal_roundtrip_witness:
  "atoi (put_string 10 '' -407 '' (\<lambda>_. NUL)) 10 = Inr (- 407)
     \<and> atoi (put_string 10 ''2147483648'' (\<lambda>_. NUL)) 10 = Inl Signed_overflow"
proof -
  have s: "show_int (- 407) = ''-407''" "show_int 2147483648 = ''2147483648''"
    by (simp_all add: show_int_def show_nat.simps char_of_def bit_iff_odd)
  have sp: "isspace (of_char CHR '' '')" "\<not> digit CHR '' ''" by code_simp+
  have a: "cstr (put_string 10 '' -407 '' (\<lambda>_. NUL)) 10 ('' '' @ show_int (- 407) @ '' '')"
    unfolding s by (simp add: cstr_put_string del: cstr.simps)
  have b: "cstr (put_string 10 ''2147483648'' (\<lambda>_. NUL)) 10 ('''' @ show_int 2147483648 @ '''')"
    unfolding s by (simp add: cstr_put_string del: cstr.simps)
  show ?thesis
    using atoi_decimal_roundtrip [OF a] atoi_decimal_roundtrip [OF b] sp by simp
qed


subsection \<open>The task list\<close>

text \<open>C24. \<^verbatim>\<open>parse_robot_tasks\<close> gives robot number i the item and the dock of the i-th colon-separated token
  of the command line's task list (read up to its 255th character), starting at the waiting cell; robots
  beyond the number of tokens keep what their memory held. It does not modify the list itself.\<close>

theorem tasks_assigned_in_order:
  assumes "cstr m task_string str" "task_string \<noteq> 0" "task_copy \<noteq> 0"
    and "cstr m colon '':''" "colon \<noteq> 0"
    and "task_copy + 255 < task_string \<or> task_string + length str < task_copy"
    and "task_copy + 255 < colon \<or> colon + 1 < task_copy"
    and "int (length robots) = num_robots"
  shows "\<exists>m'. parse_robot_tasks m task_copy colon task_string robots num_robots =
    Inr (m', assign_tasks (tokens {CHR '':''} (take 255 str)) robots)"
  by (rule parse_robot_tasks_assigns [OF assms])

theorem tasks_assigned_in_order_witness:
  "\<exists>m' rs. parse_robot_tasks (put_string 600 ''4C:2A'' (put_string 700 '':'' (\<lambda>_. NUL))) 100 700 600
      [token_robot ''1B'', token_robot ''1B'', token_robot ''1B''] 3 = Inr (m', rs)
    \<and> rs = [token_robot ''4C'', token_robot ''2A'', token_robot ''1B'']"
proof -
  have "tokens {CHR '':''} (take 255 ''4C:2A'') = [''4C'', ''2A'']"
    by (simp add: tokens.simps next_token_def after_token_def)
  then show ?thesis
    using tasks_assigned_in_order [of "put_string 600 ''4C:2A'' (put_string 700 '':'' (\<lambda>_. NUL))" 600 "''4C:2A''"
        100 700 "[token_robot ''1B'', token_robot ''1B'', token_robot ''1B'']" 3]
    by (simp add: put_string_simps assign_tasks_def upt_rec del: cstr.simps)
qed

end
