(* ===== verification/Sort.thy ===== *)
theory Sort
  imports Prelude
begin

text \<open>
  Heap sort and binary search, from \<^verbatim>\<open>lib/stdlib.c\<close>. The array is a list of bytes; the elements are its
  blocks of \<^verbatim>\<open>size\<close> bytes, numbered from 1 as in the code. The comparison function is a parameter; what
  the code relies on of it, that its sign describes a total preorder, is the predicate \<open>cmp_order\<close>.
  \<open>sort_sorts\<close> below shows that the elements end up in order and are the elements the array had.
\<close>

definition elem_at :: "nat \<Rightarrow> 'b list \<Rightarrow> nat \<Rightarrow> 'b list" where
  "elem_at sz arr idx = take sz (drop ((idx - 1) * sz) arr)"

definition do_swap :: "'b list \<Rightarrow> nat \<Rightarrow> nat \<Rightarrow> nat \<Rightarrow> 'b list" where
  "do_swap arr a_idx b_idx sz =
     (let a = (a_idx - 1) * sz; b = (b_idx - 1) * sz in
      fold (\<lambda>i arr. let t = arr ! (a + i); arr = arr[a + i := arr ! (b + i)] in arr[b + i := t]) [0..<sz] arr)"

definition do_compare :: "'b list \<Rightarrow> nat \<Rightarrow> nat \<Rightarrow> nat \<Rightarrow> ('b list \<Rightarrow> 'b list \<Rightarrow> int) \<Rightarrow> int" where
  "do_compare arr a_idx b_idx sz compare = compare (elem_at sz arr a_idx) (elem_at sz arr b_idx)"

text \<open>The index of the largest element among \<open>i\<close> and its children.\<close>

definition heap_max :: "'b list \<Rightarrow> nat \<Rightarrow> nat \<Rightarrow> nat \<Rightarrow> ('b list \<Rightarrow> 'b list \<Rightarrow> int) \<Rightarrow> nat" where
  "heap_max arr i cnt sz compare =
     (let left = 2 * i; right = 2 * i + 1; max = i;
          max = (if left \<le> cnt \<and> do_compare arr left max sz compare > 0 then left else max)
      in if right \<le> cnt \<and> do_compare arr right max sz compare > 0 then right else max)"

lemma heap_max_cases: "heap_max arr i cnt sz compare = i
    \<or> i < heap_max arr i cnt sz compare \<and> heap_max arr i cnt sz compare \<le> cnt"
  by (auto simp: heap_max_def Let_def)

function heapify :: "'b list \<Rightarrow> nat \<Rightarrow> nat \<Rightarrow> nat \<Rightarrow> ('b list \<Rightarrow> 'b list \<Rightarrow> int) \<Rightarrow> 'b list" where
  "heapify arr i cnt sz compare =
     (let max = heap_max arr i cnt sz compare in
      if max = i then arr else heapify (do_swap arr i max sz) max cnt sz compare)"
  by pat_completeness auto
termination
proof (relation "measure (\<lambda>(arr, i, cnt, sz, compare). cnt - i)", goal_cases)
  case (2 arr i cnt sz compare mx)
  with heap_max_cases [of arr i cnt sz compare] show ?case by auto
qed simp

declare heapify.simps [simp del]

definition sort_array :: "'b list \<Rightarrow> nat \<Rightarrow> nat \<Rightarrow> ('b list \<Rightarrow> 'b list \<Rightarrow> int) \<Rightarrow> 'b list result" where
  "sort_array arr cnt sz compare =
     c_assert (sz > 0)
      (let arr = fold (\<lambda>i arr. heapify arr i cnt sz compare) (rev [1..<cnt div 2 + 1]) arr
       in Inr (fold (\<lambda>i arr. heapify (do_swap arr 1 i sz) 1 (i - 1) sz compare) (rev [2..<cnt + 1]) arr))"

definition compare_thunk :: "'b list \<Rightarrow> 'b list \<Rightarrow> ('b list \<Rightarrow> 'b list \<Rightarrow> int) \<Rightarrow> int" where
  "compare_thunk a b aux = aux a b"

definition qsort :: "'b list \<Rightarrow> nat \<Rightarrow> nat \<Rightarrow> ('b list \<Rightarrow> 'b list \<Rightarrow> int) \<Rightarrow> 'b list result" where
  "qsort arr cnt sz compare = sort_array arr cnt sz (\<lambda>a b. compare_thunk a b compare)"

text \<open>The pointers \<^verbatim>\<open>first\<close> and \<^verbatim>\<open>last\<close> are offsets into the array; the result is the offset of a match.
  With \<^verbatim>\<open>size\<close> 0 the range is empty from the start, so the division in the loop is never reached.\<close>

function search_loop :: "'b list \<Rightarrow> 'b list \<Rightarrow> nat \<Rightarrow> ('b list \<Rightarrow> 'b list \<Rightarrow> int) \<Rightarrow> nat \<Rightarrow> nat \<Rightarrow> nat option" where
  "search_loop key arr sz compare first last0 =
     (if first < last0 \<and> sz > 0 then
        let range = (last0 - first) div sz;
            middle = first + (range div 2) * sz;
            cmp = compare key (take sz (drop middle arr))
        in if cmp < 0 then search_loop key arr sz compare first middle
           else if cmp > 0 then search_loop key arr sz compare (middle + sz) last0
           else Some middle
      else None)"
  by pat_completeness auto
termination
proof (relation "measure (\<lambda>(key, arr, sz, compare, first, last0). last0 - first)", goal_cases)
  case (2 key arr sz compare first last0 range middle cmp)
  have "range div 2 * sz < last0 - first"
  proof (cases "range = 0")
    case False
    then have "range div 2 * sz < range * sz" using 2(1) by simp
    also have "\<dots> \<le> last0 - first" using 2(2) by (simp add: div_times_less_eq_dividend)
    finally show ?thesis .
  qed (use 2 in simp)
  with 2(1,3) show ?case by simp
qed auto

declare search_loop.simps [simp del]

definition binary_search :: "'b list \<Rightarrow> 'b list \<Rightarrow> nat \<Rightarrow> nat \<Rightarrow> ('b list \<Rightarrow> 'b list \<Rightarrow> int) \<Rightarrow> nat option" where
  "binary_search key arr cnt sz compare = search_loop key arr sz compare 0 (sz * cnt)"

definition bsearch :: "'b list \<Rightarrow> 'b list \<Rightarrow> nat \<Rightarrow> nat \<Rightarrow> ('b list \<Rightarrow> 'b list \<Rightarrow> int) \<Rightarrow> nat option" where
  "bsearch key arr cnt sz compare = binary_search key arr cnt sz (\<lambda>a b. compare_thunk a b compare)"

subsection \<open>Swapping elements\<close>

lemma swap_bytes:
  assumes "a + n \<le> length arr" "b + n \<le> length arr" "a + n \<le> b \<or> b + n \<le> a \<or> a = b"
  defines "body \<equiv> \<lambda>i arr. let t = arr ! (a + i); arr = arr[a + i := arr ! (b + i)] in arr[b + i := t]"
  shows "k \<le> n \<Longrightarrow> length (fold body [0..<k] arr) = length arr
    \<and> (\<forall>j<length arr. fold body [0..<k] arr ! j =
        (if a \<le> j \<and> j < a + k then arr ! (b + (j - a))
         else if b \<le> j \<and> j < b + k then arr ! (a + (j - b)) else arr ! j))"
proof (induction k)
  case 0
  then show ?case by auto
next
  case (Suc k)
  let ?A = "fold body [0..<k] arr"
  have IH: "length ?A = length arr" "\<And>j. j < length arr \<Longrightarrow> ?A ! j =
        (if a \<le> j \<and> j < a + k then arr ! (b + (j - a))
         else if b \<le> j \<and> j < b + k then arr ! (a + (j - b)) else arr ! j)"
    using Suc by auto
  have at: "?A ! (a + k) = arr ! (a + k)" "?A ! (b + k) = arr ! (b + k)"
    using IH(2) assms(1-3) Suc.prems by auto
  have "fold body [0..<Suc k] arr = ?A[a + k := arr ! (b + k), b + k := arr ! (a + k)]"
  proof -
    have "body k X = X[a + k := X ! (b + k), b + k := X ! (a + k)]" for X by (simp add: body_def Let_def)
    then show ?thesis by (simp add: at)
  qed
  moreover have "?A[a + k := arr ! (b + k), b + k := arr ! (a + k)] ! j =
      (if a \<le> j \<and> j < a + Suc k then arr ! (b + (j - a))
       else if b \<le> j \<and> j < b + Suc k then arr ! (a + (j - b)) else arr ! j)" if j: "j < length arr" for j
  proof -
    consider "j = a + k" | "j = b + k" "j \<noteq> a + k" | "j \<noteq> a + k" "j \<noteq> b + k" by blast
    then show ?thesis
      using IH assms(1-3) Suc.prems j by cases (auto simp: nth_list_update)
  qed
  ultimately show ?case using IH(1) by simp
qed

lemma block_apart:
  assumes "1 \<le> a" "1 \<le> b" "a \<noteq> (b :: nat)"
  shows "(a - 1) * sz + sz \<le> (b - 1) * sz \<or> (b - 1) * sz + sz \<le> (a - 1) * sz"
proof -
  have "a \<le> b - 1 \<or> b \<le> a - 1" using assms by auto
  then have "a * sz \<le> (b - 1) * sz \<or> b * sz \<le> (a - 1) * sz" using mult_le_mono1 by blast
  then show ?thesis using assms(1,2) by (simp add: diff_mult_distrib le_add_diff_inverse2)
qed

lemma block_inside: "1 \<le> k \<Longrightarrow> k \<le> n \<Longrightarrow> n * sz \<le> len \<Longrightarrow> (k - 1) * sz + sz \<le> (len :: nat)"
  by (metis add.commute le_add_diff_inverse2 le_trans mult_Suc mult_le_mono1 plus_1_eq_Suc)

lemma block_eqI:
  assumes "k + sz \<le> length xs" "k' + sz \<le> length ys" "\<And>i. i < sz \<Longrightarrow> xs ! (k + i) = ys ! (k' + i)"
  shows "take sz (drop k xs) = take sz (drop k' ys)"
  using assms by (intro nth_equalityI) (simp_all add: min_absorb2)

lemma do_swap_elem:
  assumes ab: "1 \<le> a" "a \<le> n" "1 \<le> b" "b \<le> n" and k: "1 \<le> k" "k \<le> n" and len: "n * sz \<le> length arr"
  shows "elem_at sz (do_swap arr a b sz) k = elem_at sz arr (if k = a then b else if k = b then a else k)"
    and "length (do_swap arr a b sz) = length arr"
proof -
  let ?a = "(a - 1) * sz" and ?b = "(b - 1) * sz" and ?k = "(k - 1) * sz"
  note in_a = block_inside [OF ab(1,2) len] and in_b = block_inside [OF ab(3,4) len]
    and in_k = block_inside [OF k len]
  have apart: "?a + sz \<le> ?b \<or> ?b + sz \<le> ?a \<or> ?a = ?b"
    using block_apart [OF ab(1,3), of sz] by auto
  note sw = swap_bytes [OF in_a in_b apart order_refl]
  have swl: "length (do_swap arr a b sz) = length arr"
    and swn: "\<And>j. j < length arr \<Longrightarrow> do_swap arr a b sz ! j =
      (if ?a \<le> j \<and> j < ?a + sz then arr ! (?b + (j - ?a))
       else if ?b \<le> j \<and> j < ?b + sz then arr ! (?a + (j - ?b)) else arr ! j)"
    using sw by (simp_all add: do_swap_def Let_def)
  show "length (do_swap arr a b sz) = length arr" by (rule swl)
  define k' where "k' = (if k = a then b else if k = b then a else k)"
  have in_k': "(k' - 1) * sz + sz \<le> length arr" using in_a in_b in_k by (simp add: k'_def)
  have "do_swap arr a b sz ! (?k + i) = arr ! ((k' - 1) * sz + i)" if i: "i < sz" for i
  proof -
    have j: "?k + i < length arr" using i in_k by simp
    consider "k = a" | "k = b" "k \<noteq> a" | "k \<noteq> a" "k \<noteq> b" by blast
    then show ?thesis
    proof cases
      case 1
      then show ?thesis using swn [OF j] i by (simp add: k'_def)
    next
      case 2
      then show ?thesis using swn [OF j] i block_apart [OF k(1) ab(1), of sz] by (auto simp: k'_def)
    next
      case 3
      then show ?thesis
        using swn [OF j] i block_apart [OF k(1) ab(1), of sz] block_apart [OF k(1) ab(3), of sz] by (auto simp: k'_def)
    qed
  qed
  then have "elem_at sz (do_swap arr a b sz) k = elem_at sz arr k'"
    unfolding elem_at_def by (intro block_eqI) (use in_k in_k' swl in simp_all)
  then show "elem_at sz (do_swap arr a b sz) k = elem_at sz arr (if k = a then b else if k = b then a else k)"
    by (simp add: k'_def)
qed

definition elems :: "nat \<Rightarrow> nat \<Rightarrow> 'b list \<Rightarrow> 'b list list" where
  "elems sz n arr = map (\<lambda>k. elem_at sz arr (Suc k)) [0..<n]"

lemma elems_nth: "i < n \<Longrightarrow> elems sz n arr ! i = elem_at sz arr (Suc i)"
  by (simp add: elems_def)

lemma do_swap_mset:
  assumes "1 \<le> a" "a \<le> n" "1 \<le> b" "b \<le> n" "n * sz \<le> length arr"
  shows "mset (elems sz n (do_swap arr a b sz)) = mset (elems sz n arr)"
proof -
  let ?xs = "elems sz n arr"
  obtain a' b' where ab: "a = Suc a'" "b = Suc b'" using assms by (metis Suc_le_D One_nat_def)
  have len: "length ?xs = n" by (simp add: elems_def)
  have "elems sz n (do_swap arr a b sz) = ?xs[a' := ?xs ! b', b' := ?xs ! a']"
  proof (rule nth_equalityI)
    fix i assume "i < length (elems sz n (do_swap arr a b sz))"
    then have i: "1 \<le> Suc i" "Suc i \<le> n" by (simp_all add: elems_def)
    from do_swap_elem(1) [OF assms(1-4) i assms(5)]
    show "elems sz n (do_swap arr a b sz) ! i = ?xs[a' := ?xs ! b', b' := ?xs ! a'] ! i"
      using assms i len by (auto simp: nth_list_update elems_nth ab)
  qed (simp add: elems_def)
  moreover have "mset (?xs[a' := ?xs ! b', b' := ?xs ! a']) = mset ?xs"
    using assms len ab by (intro mset_swap) auto
  ultimately show ?thesis by simp
qed

subsection \<open>Heaps\<close>

text \<open>The sign of the comparison function describes a total preorder.\<close>

definition cmp_order :: "('e \<Rightarrow> 'e \<Rightarrow> int) \<Rightarrow> bool" where
  "cmp_order compare \<longleftrightarrow> (\<forall>x y. compare x y > 0 \<longleftrightarrow> compare y x < 0)
     \<and> (\<forall>x y z. compare x y \<le> 0 \<and> compare y z \<le> 0 \<longrightarrow> compare x z \<le> 0)"

lemma cmp_flip: "cmp_order compare \<Longrightarrow> compare x y > 0 \<Longrightarrow> compare y x \<le> 0"
  unfolding cmp_order_def by (meson less_imp_le)

lemma cmp_trans: "cmp_order compare \<Longrightarrow> compare x y \<le> 0 \<Longrightarrow> compare y z \<le> 0 \<Longrightarrow> compare x z \<le> 0"
  unfolding cmp_order_def by blast

lemma cmp_refl: "cmp_order compare \<Longrightarrow> compare x x \<le> 0"
proof -
  assume "cmp_order compare"
  then have "compare x x > 0 \<longleftrightarrow> compare x x < 0" by (simp add: cmp_order_def)
  then show ?thesis by linarith
qed

text \<open>Elements \<open>m\<close> to \<open>n\<close> are in heap order, and in heap order except that element \<open>i\<close> may be
  smaller than its children.\<close>

definition heap :: "('e \<Rightarrow> 'e \<Rightarrow> int) \<Rightarrow> (nat \<Rightarrow> 'e) \<Rightarrow> nat \<Rightarrow> nat \<Rightarrow> bool" where
  "heap compare f m n \<longleftrightarrow> (\<forall>k. 2 \<le> k \<and> k \<le> n \<and> m \<le> k div 2 \<longrightarrow> compare (f k) (f (k div 2)) \<le> 0)"

definition heap_except :: "('e \<Rightarrow> 'e \<Rightarrow> int) \<Rightarrow> (nat \<Rightarrow> 'e) \<Rightarrow> nat \<Rightarrow> nat \<Rightarrow> nat \<Rightarrow> bool" where
  "heap_except compare f m n i \<longleftrightarrow> (\<forall>k. 2 \<le> k \<and> k \<le> n \<and> m \<le> k div 2 \<longrightarrow>
     (k div 2 \<noteq> i \<longrightarrow> compare (f k) (f (k div 2)) \<le> 0)
     \<and> (k div 2 = i \<and> 2 \<le> i \<and> m \<le> i div 2 \<longrightarrow> compare (f k) (f (i div 2)) \<le> 0))"

lemma child_cases: "k div 2 = i \<longleftrightarrow> k = 2 * i \<or> k = 2 * i + (1 :: nat)"
  by auto

lemma heap_max_largest:
  assumes "cmp_order compare" "1 \<le> i" "mx = heap_max arr i cnt sz compare"
  shows "mx \<in> {i, 2 * i, 2 * i + 1}" "mx \<noteq> i \<Longrightarrow> mx \<le> cnt"
    "compare (elem_at sz arr i) (elem_at sz arr mx) \<le> 0"
    "2 * i \<le> cnt \<Longrightarrow> compare (elem_at sz arr (2 * i)) (elem_at sz arr mx) \<le> 0"
    "2 * i + 1 \<le> cnt \<Longrightarrow> compare (elem_at sz arr (2 * i + 1)) (elem_at sz arr mx) \<le> 0"
proof -
  let ?E = "elem_at sz arr"
  define m1 where "m1 = (if 2 * i \<le> cnt \<and> compare (?E (2 * i)) (?E i) > 0 then 2 * i else i)"
  have mx: "mx = (if 2 * i + 1 \<le> cnt \<and> compare (?E (2 * i + 1)) (?E m1) > 0 then 2 * i + 1 else m1)"
    by (simp add: assms(3) heap_max_def do_compare_def m1_def Let_def)
  show "mx \<in> {i, 2 * i, 2 * i + 1}" by (simp add: mx m1_def)
  show "mx \<le> cnt" if "mx \<noteq> i" using that by (auto simp: mx m1_def split: if_splits)
  have 1: "compare (?E i) (?E m1) \<le> 0" "2 * i \<le> cnt \<Longrightarrow> compare (?E (2 * i)) (?E m1) \<le> 0"
    using cmp_refl [OF assms(1)] cmp_flip [OF assms(1)] by (auto simp: m1_def)
  have 2: "compare (?E m1) (?E mx) \<le> 0" using cmp_refl [OF assms(1)] cmp_flip [OF assms(1)] by (simp add: mx)
  show "compare (?E i) (?E mx) \<le> 0" by (rule cmp_trans [OF assms(1) 1(1) 2])
  show "compare (?E (2 * i)) (?E mx) \<le> 0" if "2 * i \<le> cnt" by (rule cmp_trans [OF assms(1) 1(2) [OF that] 2])
  show "compare (?E (2 * i + 1)) (?E mx) \<le> 0" if "2 * i + 1 \<le> cnt"
    using that cmp_refl [OF assms(1)] by (auto simp: mx)
qed

lemma heap_except_done:
  assumes "heap_except compare f m n i" "\<And>k. k div 2 = i \<Longrightarrow> k \<le> n \<Longrightarrow> compare (f k) (f i) \<le> 0"
  shows "heap compare f m n"
  using assms by (auto simp: heap_except_def heap_def)

lemma heap_except_step:
  assumes he: "heap_except compare f m n i" and i: "1 \<le> i" "m \<le> i" and c: "c div 2 = i" "c \<le> n"
    and up: "compare (f i) (f c) \<le> 0" "\<And>k. k div 2 = i \<Longrightarrow> k \<le> n \<Longrightarrow> compare (f k) (f c) \<le> 0"
    and f': "\<And>k. 1 \<le> k \<Longrightarrow> k \<le> n \<Longrightarrow> f' k = f (if k = i then c else if k = c then i else k)"
  shows "heap_except compare f' m n c"
  unfolding heap_except_def
proof (intro allI impI conjI)
  fix k assume k: "2 \<le> k \<and> k \<le> n \<and> m \<le> k div 2"
  have k2: "1 \<le> k div 2" "k div 2 \<le> n" "k div 2 \<noteq> k" using k by auto
  have ci: "c \<noteq> i" "i < c" using c(1) i(1) by auto
  { assume kc: "k div 2 \<noteq> c"
    consider "k div 2 = i" | "k = i" "k div 2 \<noteq> i" | "k \<noteq> i" "k div 2 \<noteq> i" by blast
    then show "compare (f' k) (f' (k div 2)) \<le> 0"
    proof cases
      case 1
      then show ?thesis using f' [of k] f' [of i] k k2 up ci by auto
    next
      case 2
      then have "compare (f c) (f (i div 2)) \<le> 0" using he k c i by (auto simp: heap_except_def)
      then show ?thesis using 2 f' [of i] f' [of "i div 2"] k k2 kc ci by auto
    next
      case 3
      then have "k \<noteq> c" using c(1) by auto
      moreover have "compare (f k) (f (k div 2)) \<le> 0" using he k 3 by (auto simp: heap_except_def)
      ultimately show ?thesis using 3 f' [of k] f' [of "k div 2"] k k2 kc by auto
    qed }
  assume kc: "k div 2 = c \<and> 2 \<le> c \<and> m \<le> c div 2"
  then have "compare (f k) (f c) \<le> 0" using he k ci by (auto simp: heap_except_def)
  moreover have "k \<noteq> i" "k \<noteq> c" using kc ci k2 by auto
  ultimately show "compare (f' k) (f' (c div 2)) \<le> 0" using f' [of k] f' [of i] k k2 c ci i by auto
qed

text \<open>Floating an element down restores heap order, moves nothing beyond \<open>n\<close> and keeps the elements.\<close>

lemma heapify_heap:
  assumes "cmp_order compare" "heap_except compare (elem_at sz arr) m n i" "1 \<le> i" "m \<le> i" "i \<le> n"
    and "n \<le> N" "N * sz \<le> length arr"
  shows "heap compare (elem_at sz (heapify arr i n sz compare)) m n
    \<and> length (heapify arr i n sz compare) = length arr
    \<and> (\<forall>k. n < k \<and> k \<le> N \<or> 1 \<le> k \<and> k < i \<longrightarrow> elem_at sz (heapify arr i n sz compare) k = elem_at sz arr k)
    \<and> mset (elems sz N (heapify arr i n sz compare)) = mset (elems sz N arr)"
  using assms
proof (induction arr i n sz compare rule: heapify.induct)
  case (1 arr i cnt sz compare)
  let ?mx = "heap_max arr i cnt sz compare"
  note mx = heap_max_largest [OF "1.prems"(1,3) refl, where arr = arr and cnt = cnt and sz = sz]
  have kids: "compare (elem_at sz arr k) (elem_at sz arr ?mx) \<le> 0" if "k div 2 = i" "k \<le> cnt" for k
    using mx(4,5) that unfolding child_cases by auto
  show ?case
  proof (cases "?mx = i")
    case True
    then show ?thesis
      using heap_except_done [OF "1.prems"(2)] kids by (simp add: heapify.simps [of arr])
  next
    case False
    let ?arr = "do_swap arr i ?mx sz"
    have c: "?mx div 2 = i" "?mx \<le> cnt" "1 \<le> ?mx" "i < ?mx"
      using mx(1,2) False "1.prems"(3) by auto
    have sw: "elem_at sz ?arr k = elem_at sz arr (if k = i then ?mx else if k = ?mx then i else k)"
      if "1 \<le> k" "k \<le> N" for k
      using do_swap_elem(1) [of i N ?mx k sz arr] that c "1.prems" by auto
    have len: "length ?arr = length arr"
      using do_swap_elem(2) [of i N ?mx i sz arr] c "1.prems" by auto
    have "heap_except compare (elem_at sz ?arr) m cnt ?mx"
      using heap_except_step [OF "1.prems"(2,3,4) c(1,2) mx(3) kids] sw "1.prems"(6) by auto
    then have IH: "heap compare (elem_at sz (heapify ?arr ?mx cnt sz compare)) m cnt
      \<and> length (heapify ?arr ?mx cnt sz compare) = length ?arr
      \<and> (\<forall>k. cnt < k \<and> k \<le> N \<or> 1 \<le> k \<and> k < ?mx \<longrightarrow>
            elem_at sz (heapify ?arr ?mx cnt sz compare) k = elem_at sz ?arr k)
      \<and> mset (elems sz N (heapify ?arr ?mx cnt sz compare)) = mset (elems sz N ?arr)"
      using "1.IH" [OF refl False] "1.prems" c len by auto
    have "mset (elems sz N ?arr) = mset (elems sz N arr)"
      using do_swap_mset [of i N ?mx sz arr] c "1.prems" by auto
    moreover have eq: "heapify arr i cnt sz compare = heapify ?arr ?mx cnt sz compare"
      using False by (subst heapify.simps) (simp add: Let_def)
    ultimately show ?thesis
      unfolding eq using IH sw c "1.prems"(5,6) len by auto
  qed
qed

subsection \<open>Sorting\<close>

lemma heap_root:
  assumes "cmp_order compare" "heap compare f 1 n"
  shows "1 \<le> a \<Longrightarrow> a \<le> n \<Longrightarrow> compare (f a) (f 1) \<le> 0"
proof (induction a rule: less_induct)
  case (less a)
  show ?case
  proof (cases "a = 1")
    case True
    then show ?thesis using cmp_refl [OF assms(1)] by simp
  next
    case False
    then have "compare (f (a div 2)) (f 1) \<le> 0" "compare (f a) (f (a div 2)) \<le> 0"
      using less assms(2) by (auto simp: heap_def)
    then show ?thesis using cmp_trans [OF assms(1)] by blast
  qed
qed

lemma upt_rev_Suc: "j \<le> n \<Longrightarrow> rev [j..<Suc n] = rev [Suc j..<Suc n] @ [j]"
  by (subst upt_conv_Cons) auto

lemma build_heap:
  assumes "cmp_order compare" "n * sz \<le> length arr" "1 \<le> j" "j \<le> n div 2 + 1"
  shows "heap compare (elem_at sz (fold (\<lambda>i arr. heapify arr i n sz compare) (rev [j..<n div 2 + 1]) arr)) j n
    \<and> length (fold (\<lambda>i arr. heapify arr i n sz compare) (rev [j..<n div 2 + 1]) arr) = length arr
    \<and> mset (elems sz n (fold (\<lambda>i arr. heapify arr i n sz compare) (rev [j..<n div 2 + 1]) arr)) = mset (elems sz n arr)"
  using assms(4,3)
proof (induction j rule: inc_induct)
  case base
  then show ?case by (auto simp: heap_def)
next
  case (step j)
  let ?f = "fold (\<lambda>i arr. heapify arr i n sz compare)"
  let ?A = "?f (rev [Suc j..<n div 2 + 1]) arr"
  have IH: "heap compare (elem_at sz ?A) (Suc j) n" "length ?A = length arr"
    "mset (elems sz n ?A) = mset (elems sz n arr)" using step by auto
  have "heap_except compare (elem_at sz ?A) j n j"
    using IH(1) step.prems by (auto simp: heap_def heap_except_def)
  moreover have "j \<le> n" "1 \<le> j" using step by auto
  moreover have "?f (rev [j..<n div 2 + 1]) arr = heapify ?A j n sz compare"
    using step.hyps upt_rev_Suc [of j "n div 2"] by simp
  ultimately show ?case
    using heapify_heap [OF assms(1), of sz ?A j n j n] IH assms(2) by simp
qed

text \<open>Positions after \<open>i\<close> hold their final elements.\<close>

definition settled :: "('e \<Rightarrow> 'e \<Rightarrow> int) \<Rightarrow> (nat \<Rightarrow> 'e) \<Rightarrow> nat \<Rightarrow> nat \<Rightarrow> bool" where
  "settled compare f i n \<longleftrightarrow> (\<forall>a b. 1 \<le> a \<and> a \<le> b \<and> i < b \<and> b \<le> n \<longrightarrow> compare (f a) (f b) \<le> 0)"

lemma elems_append: "n \<le> N \<Longrightarrow> elems sz N arr = elems sz n arr @ map (\<lambda>k. elem_at sz arr (Suc k)) [n..<N]"
  unfolding elems_def by (metis le_add_diff_inverse map_append upt_add_eq_append zero_le)

lemma same_front:
  assumes "mset (elems sz N A) = mset (elems sz N B)" "n \<le> N"
    and "\<And>k. n < k \<Longrightarrow> k \<le> N \<Longrightarrow> elem_at sz A k = elem_at sz B k" and a: "1 \<le> a" "a \<le> n"
  shows "\<exists>b. 1 \<le> b \<and> b \<le> n \<and> elem_at sz A a = elem_at sz B b"
proof -
  have "map (\<lambda>k. elem_at sz A (Suc k)) [n..<N] = map (\<lambda>k. elem_at sz B (Suc k)) [n..<N]"
    using assms(3) by auto
  then have "mset (elems sz n A) = mset (elems sz n B)"
    using assms(1) unfolding elems_append [OF assms(2)] mset_append by (metis add_right_cancel)
  then have "set (elems sz n A) = set (elems sz n B)" by (rule mset_eq_setD)
  moreover have "elem_at sz A a \<in> set (elems sz n A)"
    using a by (auto simp: elems_def intro!: image_eqI [of _ _ "a - 1"])
  ultimately obtain k where "k < n" "elem_at sz A a = elem_at sz B (Suc k)" by (auto simp: elems_def)
  then show ?thesis by (intro exI [of _ "Suc k"]) simp
qed

lemma sort_step:
  assumes ord: "cmp_order compare" and len: "n * sz \<le> length A" and i: "2 \<le> i" "i \<le> n"
    and hp: "heap compare (elem_at sz A) 1 i" and st: "settled compare (elem_at sz A) i n"
  defines "B \<equiv> heapify (do_swap A 1 i sz) 1 (i - 1) sz compare"
  shows "heap compare (elem_at sz B) 1 (i - 1)" "settled compare (elem_at sz B) (i - 1) n"
    "length B = length A" "mset (elems sz n B) = mset (elems sz n A)"
proof -
  let ?S = "do_swap A 1 i sz"
  let ?\<pi> = "\<lambda>k. if k = 1 then i else if k = i then 1 else k"
  have sw: "elem_at sz ?S k = elem_at sz A (?\<pi> k)" if "1 \<le> k" "k \<le> n" for k
    using do_swap_elem(1) [of 1 n i k sz A] that i len by auto
  have lS: "length ?S = length A" using do_swap_elem(2) [of 1 n i 1 sz A] i len by auto
  have mS: "mset (elems sz n ?S) = mset (elems sz n A)" using do_swap_mset [of 1 n i sz A] i len by auto
  have "heap_except compare (elem_at sz ?S) 1 (i - 1) 1"
    unfolding heap_except_def
  proof (intro allI impI conjI)
    fix k assume k: "2 \<le> k \<and> k \<le> i - 1 \<and> 1 \<le> k div 2"
    then have "compare (elem_at sz A k) (elem_at sz A (k div 2)) \<le> 0" using hp by (auto simp: heap_def)
    moreover assume "k div 2 \<noteq> 1"
    ultimately show "compare (elem_at sz ?S k) (elem_at sz ?S (k div 2)) \<le> 0"
      using sw [of k] sw [of "k div 2"] k i by auto
  qed auto
  from heapify_heap [OF ord this, of n] i len lS
  have B: "heap compare (elem_at sz B) 1 (i - 1)" "length B = length A" "mset (elems sz n B) = mset (elems sz n ?S)"
    "\<And>k. i - 1 < k \<Longrightarrow> k \<le> n \<Longrightarrow> elem_at sz B k = elem_at sz ?S k"
    unfolding B_def by auto
  then show "heap compare (elem_at sz B) 1 (i - 1)" "length B = length A" "mset (elems sz n B) = mset (elems sz n A)"
    using mS by auto
  have S: "compare (elem_at sz ?S a) (elem_at sz ?S b) \<le> 0" if "1 \<le> a" "a \<le> b" "i - 1 < b" "b \<le> n" for a b
  proof (cases "b = i")
    case True
    have "1 \<le> ?\<pi> a" "?\<pi> a \<le> i" using that True i by auto
    from heap_root [OF ord hp this] show ?thesis using sw [of a] sw [of b] that True i by simp
  next
    case False
    then have "1 \<le> ?\<pi> a" "?\<pi> a \<le> b" "i < b" using that i by auto
    then have "compare (elem_at sz A (?\<pi> a)) (elem_at sz A b) \<le> 0" using st that(4) unfolding settled_def by blast
    then show ?thesis using sw [of a] sw [of b] that False i by auto
  qed
  show "settled compare (elem_at sz B) (i - 1) n"
    unfolding settled_def
  proof (intro allI impI)
    fix a b assume ab: "1 \<le> a \<and> a \<le> b \<and> i - 1 < b \<and> b \<le> n"
    obtain a' where a': "1 \<le> a'" "a' \<le> b" "elem_at sz B a = elem_at sz ?S a'"
    proof (cases "a \<le> i - 1")
      case True
      have "i - 1 \<le> n" using i by simp
      from same_front [OF B(3) this B(4), of a] True ab that show ?thesis by auto
    next
      case False
      then show ?thesis using that [of a] B(4) [of a] ab by auto
    qed
    then show "compare (elem_at sz B a) (elem_at sz B b) \<le> 0" using S [of a' b] B(4) [of b] ab by simp
  qed
qed

lemma sort_phase:
  assumes "cmp_order compare" "n * sz \<le> length arr" "heap compare (elem_at sz arr) 1 n" "1 \<le> i" "i \<le> n"
  defines "F \<equiv> fold (\<lambda>i arr. heapify (do_swap arr 1 i sz) 1 (i - 1) sz compare)"
  shows "heap compare (elem_at sz (F (rev [Suc i..<n + 1]) arr)) 1 i
    \<and> settled compare (elem_at sz (F (rev [Suc i..<n + 1]) arr)) i n
    \<and> length (F (rev [Suc i..<n + 1]) arr) = length arr
    \<and> mset (elems sz n (F (rev [Suc i..<n + 1]) arr)) = mset (elems sz n arr)"
  using assms(5,4)
proof (induction i rule: inc_induct)
  case base
  then show ?case using assms(3) by (simp add: F_def settled_def)
next
  case (step i)
  let ?A = "F (rev [Suc (Suc i)..<n + 1]) arr"
  have IH: "heap compare (elem_at sz ?A) 1 (Suc i)" "settled compare (elem_at sz ?A) (Suc i) n"
    "length ?A = length arr" "mset (elems sz n ?A) = mset (elems sz n arr)" using step by auto
  have "F (rev [Suc i..<n + 1]) arr = heapify (do_swap ?A 1 (Suc i) sz) 1 (Suc i - 1) sz compare"
    using step.hyps upt_rev_Suc [of "Suc i" n] by (simp add: F_def)
  moreover have "n * sz \<le> length ?A" "2 \<le> Suc i" "Suc i \<le> n" using IH(3) assms(2) step by auto
  ultimately show ?case
    using sort_step [OF assms(1) _ _ _ IH(1,2)] IH(3,4) by simp
qed

lemma sort_array_sorts:
  assumes "cmp_order compare" "sz > 0" "length arr = cnt * sz"
  shows "\<exists>arr'. sort_array arr cnt sz compare = Inr arr' \<and> length arr' = length arr
    \<and> sorted_wrt (\<lambda>x y. compare x y \<le> 0) (elems sz cnt arr')
    \<and> mset (elems sz cnt arr') = mset (elems sz cnt arr)"
proof -
  let ?A = "fold (\<lambda>i arr. heapify arr i cnt sz compare) (rev [1..<cnt div 2 + 1]) arr"
  let ?B = "fold (\<lambda>i arr. heapify (do_swap arr 1 i sz) 1 (i - 1) sz compare) (rev [2..<cnt + 1]) ?A"
  have A: "heap compare (elem_at sz ?A) 1 cnt" "length ?A = length arr" "mset (elems sz cnt ?A) = mset (elems sz cnt arr)"
    using build_heap [OF assms(1), of cnt sz arr 1] assms(3) by auto
  have B: "settled compare (elem_at sz ?B) 1 cnt \<and> length ?B = length arr
    \<and> mset (elems sz cnt ?B) = mset (elems sz cnt arr)"
  proof (cases "cnt = 0")
    case True
    then show ?thesis by (simp add: settled_def)
  next
    case False
    then show ?thesis
      using sort_phase [OF assms(1) _ A(1), of 1] A(2,3) assms(3) by (simp add: numeral_2_eq_2)
  qed
  have "sorted_wrt (\<lambda>x y. compare x y \<le> 0) (elems sz cnt ?B)"
    unfolding sorted_wrt_iff_nth_less
  proof (intro allI impI)
    fix i j assume ij: "i < j" "j < length (elems sz cnt ?B)"
    then have "1 \<le> Suc i \<and> Suc i \<le> Suc j \<and> 1 < Suc j \<and> Suc j \<le> cnt" by (auto simp: elems_def)
    with B have "compare (elem_at sz ?B (Suc i)) (elem_at sz ?B (Suc j)) \<le> 0" unfolding settled_def by blast
    with ij show "compare (elems sz cnt ?B ! i) (elems sz cnt ?B ! j) \<le> 0" by (simp add: elems_def)
  qed
  with B assms(2) show ?thesis by (auto simp: sort_array_def Let_def)
qed


subsection \<open>Searching\<close>

text \<open>A match lies in the part of the array still searched.\<close>

lemma search_loop_finds:
  assumes "cmp_order compare" "sz > 0" "sorted_wrt (\<lambda>x y. compare x y \<le> 0) (elems sz n arr)"
    and "first = lo * sz" "last0 = hi * sz" "hi \<le> n"
    and "\<And>k. k < n \<Longrightarrow> compare key (elems sz n arr ! k) = 0 \<Longrightarrow> lo \<le> k \<and> k < hi"
  shows "case search_loop key arr sz compare first last0 of
      Some off \<Rightarrow> \<exists>k<n. off = k * sz \<and> compare key (elems sz n arr ! k) = 0
    | None \<Rightarrow> \<forall>k<n. compare key (elems sz n arr ! k) \<noteq> 0"
  using assms
proof (induction key arr sz compare first last0 arbitrary: lo hi rule: search_loop.induct)
  case (1 key arr sz compare first last0)
  let ?E = "\<lambda>k. elems sz n arr ! k"
  note ord = "1.prems"(1)
  show ?case
  proof (cases "first < last0")
    case False
    then have "hi \<le> lo" using "1.prems"(2,4,5) by (meson leI mult_less_mono1)
    with "1.prems"(7) False show ?thesis by (force simp: search_loop.simps [of key])
  next
    case True
    then have lh: "lo < hi" using "1.prems"(4,5) by (metis mult_less_cancel2)
    define md where "md = lo + (hi - lo) div 2"
    have range: "(last0 - first) div sz = hi - lo"
      using "1.prems"(2,4,5) by (simp add: diff_mult_distrib [symmetric])
    have mid: "first + ((last0 - first) div sz div 2) * sz = md * sz"
      unfolding range unfolding "1.prems"(4) md_def by (simp add: algebra_simps)
    have md: "lo \<le> md" "md < hi" "md < n" using lh "1.prems"(6) by (auto simp: md_def)
    have el: "take sz (drop (md * sz) arr) = ?E md" using md(3) by (simp add: elems_nth elem_at_def)
    let ?c = "compare key (?E md)"
    have step: "search_loop key arr sz compare first last0 =
      (if ?c < 0 then search_loop key arr sz compare first (md * sz)
       else if ?c > 0 then search_loop key arr sz compare (md * sz + sz) last0 else Some (md * sz))"
      using True "1.prems"(2) by (subst search_loop.simps) (simp add: mid el Let_def)
    have le: "compare (?E a) (?E b) \<le> 0" if "a \<le> b" "b < n" for a b
      using "1.prems"(3) that cmp_refl [OF ord] by (cases "a = b") (auto simp: sorted_wrt_iff_nth_less elems_def)
    note IH = "1.IH" [OF conjI [OF True "1.prems"(2)] refl refl refl, unfolded mid el]
    consider "?c < 0" | "?c > 0" | "?c = 0" by linarith
    then show ?thesis
    proof cases
      case 1
      have "lo \<le> k \<and> k < md" if "k < n" "compare key (?E k) = 0" for k
      proof -
        have "\<not> md \<le> k"
        proof
          assume "md \<le> k"
          with le that(1) have "compare (?E md) (?E k) \<le> 0" by blast
          moreover have "compare (?E k) key \<le> 0" using that(2) ord by (metis cmp_order_def le_less_linear less_irrefl)
          ultimately have "compare (?E md) key \<le> 0" using cmp_trans [OF ord] by blast
          moreover have "compare (?E md) key > 0" using 1 ord by (metis cmp_order_def)
          ultimately show False by linarith
        qed
        with "1.prems"(7) [OF that] show ?thesis by simp
      qed
      moreover have r: "search_loop key arr sz compare first last0 = search_loop key arr sz compare first (md * sz)"
        using step 1 by simp
      ultimately show ?thesis
        unfolding r by (intro IH(1) [OF 1 "1.prems"(1-4) refl]) (use md(3) in auto)
    next
      case 2
      have "md + 1 \<le> k \<and> k < hi" if "k < n" "compare key (?E k) = 0" for k
      proof -
        have "\<not> k \<le> md"
        proof
          assume "k \<le> md"
          with le md(3) have "compare (?E k) (?E md) \<le> 0" by blast
          with cmp_trans [OF ord, of key "?E k" "?E md"] that(2) 2 show False by simp
        qed
        with "1.prems"(7) [OF that] show ?thesis by simp
      qed
      moreover have r: "search_loop key arr sz compare first last0 = search_loop key arr sz compare (md * sz + sz) last0"
        using step 2 by simp
      moreover have "\<not> ?c < 0" "md * sz + sz = (md + 1) * sz" using 2 by simp_all
      ultimately show ?thesis
        unfolding r by (intro IH(2) [where lo = "md + 1" and hi = hi, OF _ 2 "1.prems"(1-3) _ "1.prems"(5,6)]) auto
    next
      case 3
      with md show ?thesis unfolding step by auto
    qed
  qed
qed

subsection \<open>What the sorting routines promise\<close>

text \<open>C8. \<^verbatim>\<open>sort\<close> and \<^verbatim>\<open>qsort\<close> return, for every array and every comparison function that describes a total
  preorder, with the elements in order and the same elements as before.\<close>

theorem sort_sorts:
  assumes "cmp_order compare" "sz > 0" "length arr = cnt * sz"
  shows "\<exists>arr'. sort_array arr cnt sz compare = Inr arr' \<and> qsort arr cnt sz compare = Inr arr'
    \<and> length arr' = length arr
    \<and> sorted_wrt (\<lambda>x y. compare x y \<le> 0) (elems sz cnt arr')
    \<and> mset (elems sz cnt arr') = mset (elems sz cnt arr)"
  using sort_array_sorts [OF assms] by (auto simp: qsort_def compare_thunk_def)

definition byte_compare :: "int list \<Rightarrow> int list \<Rightarrow> int" where
  "byte_compare x y = hd x - hd y"

lemma byte_compare_order: "cmp_order byte_compare"
  by (auto simp: cmp_order_def byte_compare_def)

theorem sort_sorts_witness:
  "\<exists>arr'. sort_array [3, 7, 1, 8, 2, 9] 3 2 byte_compare = Inr arr' \<and> qsort [3, 7, 1, 8, 2, 9] 3 2 byte_compare = Inr arr'
    \<and> length arr' = length [3, 7, 1, 8, 2, 9 :: int]
    \<and> sorted_wrt (\<lambda>x y. byte_compare x y \<le> 0) (elems 2 3 arr')
    \<and> mset (elems 2 3 arr') = mset (elems 2 3 [3, 7, 1, 8, 2, 9])"
  by (rule sort_sorts [OF byte_compare_order]) simp_all

text \<open>C23. On a sorted array \<^verbatim>\<open>binary_search\<close> returns, with the offset of an element that compares equal to
  the key if there is one, and with no result exactly when there is none.\<close>

theorem binary_search_finds:
  assumes "cmp_order compare" "sz > 0" "sorted_wrt (\<lambda>x y. compare x y \<le> 0) (elems sz cnt arr)"
  shows "case binary_search key arr cnt sz compare of
      Some off \<Rightarrow> \<exists>k<cnt. off = k * sz \<and> compare key (elems sz cnt arr ! k) = 0
    | None \<Rightarrow> \<forall>k<cnt. compare key (elems sz cnt arr ! k) \<noteq> 0"
  unfolding binary_search_def
  by (rule search_loop_finds [OF assms, of 0 0 _ cnt]) (simp_all add: mult.commute)

theorem binary_search_finds_witness:
  "sorted_wrt (\<lambda>x y. byte_compare x y \<le> 0) (elems 2 3 [1, 8, 2, 9, 5, 7])
   \<and> (case binary_search [2] [1, 8, 2, 9, 5, 7] 3 2 byte_compare of
      Some off \<Rightarrow> \<exists>k<3. off = k * 2 \<and> byte_compare [2] (elems 2 3 [1, 8, 2, 9, 5, 7] ! k) = 0
    | None \<Rightarrow> \<forall>k<3. byte_compare [2] (elems 2 3 [1, 8, 2, 9, 5, 7] ! k) \<noteq> 0)"
proof -
  have "sorted_wrt (\<lambda>x y. byte_compare x y \<le> 0) (elems 2 3 [1, 8, 2, 9, 5, 7])" by code_simp
  with binary_search_finds [OF byte_compare_order _ this, of "[2]"] show ?thesis by simp
qed

end
