(* ===== verification/Kernel_List.thy ===== *)
theory Kernel_List
  imports Prelude
begin

text \<open>
  The doubly linked lists of the kernel, from \<^verbatim>\<open>lib/kernel/list.h\<close> and \<^verbatim>\<open>lib/kernel/list.c\<close>. A list
  element is an address; the record \<open>list_heap\<close> holds the two pointer fields of all elements, and 0
  is the null pointer. A \<^verbatim>\<open>struct list\<close> at address \<open>l\<close> has its head element at \<open>l\<close> and its tail
  element at \<open>l + 8\<close> (a \<^verbatim>\<open>struct list_elem\<close> is two four-byte pointers). Every assignment of the code
  is an update of the heap, in the order of the code, so aliasing is the code's.

  \<open>dlist h l xs\<close> relates a list in the heap to the HOL list of its elements. The lemmas show for each
  operation what it does to that list and which fields it writes; the locale \<open>deque\<close> is the contract
  a client of the lists relies on.
\<close>

record list_heap =
  prev_of :: "nat \<Rightarrow> nat"
  next_of :: "nat \<Rightarrow> nat"

definition set_prev :: "nat \<Rightarrow> nat \<Rightarrow> list_heap \<Rightarrow> list_heap" where
  "set_prev e v h = h\<lparr>prev_of := (prev_of h)(e := v)\<rparr>"

definition set_next :: "nat \<Rightarrow> nat \<Rightarrow> list_heap \<Rightarrow> list_heap" where
  "set_next e v h = h\<lparr>next_of := (next_of h)(e := v)\<rparr>"

definition is_head :: "list_heap \<Rightarrow> nat \<Rightarrow> bool" where
  "is_head h elem \<longleftrightarrow> elem \<noteq> 0 \<and> prev_of h elem = 0 \<and> next_of h elem \<noteq> 0"

definition is_interior :: "list_heap \<Rightarrow> nat \<Rightarrow> bool" where
  "is_interior h elem \<longleftrightarrow> elem \<noteq> 0 \<and> prev_of h elem \<noteq> 0 \<and> next_of h elem \<noteq> 0"

definition is_tail :: "list_heap \<Rightarrow> nat \<Rightarrow> bool" where
  "is_tail h elem \<longleftrightarrow> elem \<noteq> 0 \<and> prev_of h elem \<noteq> 0 \<and> next_of h elem = 0"

text \<open>The addresses \<^verbatim>\<open>&list->head\<close> and \<^verbatim>\<open>&list->tail\<close>.\<close>

definition head_of :: "nat \<Rightarrow> nat" where
  "head_of l = l"

definition tail_of :: "nat \<Rightarrow> nat" where
  "tail_of l = l + 8"

definition list_init :: "list_heap \<Rightarrow> nat \<Rightarrow> list_heap result" where
  "list_init h l =
     c_assert (l \<noteq> 0)
      (let h = set_prev (head_of l) 0 h;
           h = set_next (head_of l) (tail_of l) h;
           h = set_prev (tail_of l) (head_of l) h
       in Inr (set_next (tail_of l) 0 h))"

definition list_begin :: "list_heap \<Rightarrow> nat \<Rightarrow> nat result" where
  "list_begin h l = c_assert (l \<noteq> 0) (Inr (next_of h (head_of l)))"

definition list_next :: "list_heap \<Rightarrow> nat \<Rightarrow> nat result" where
  "list_next h elem = c_assert (is_head h elem \<or> is_interior h elem) (Inr (next_of h elem))"

definition list_end :: "list_heap \<Rightarrow> nat \<Rightarrow> nat result" where
  "list_end h l = c_assert (l \<noteq> 0) (Inr (tail_of l))"

definition list_rbegin :: "list_heap \<Rightarrow> nat \<Rightarrow> nat result" where
  "list_rbegin h l = c_assert (l \<noteq> 0) (Inr (prev_of h (tail_of l)))"

definition list_prev :: "list_heap \<Rightarrow> nat \<Rightarrow> nat result" where
  "list_prev h elem = c_assert (is_interior h elem \<or> is_tail h elem) (Inr (prev_of h elem))"

definition list_rend :: "list_heap \<Rightarrow> nat \<Rightarrow> nat result" where
  "list_rend h l = c_assert (l \<noteq> 0) (Inr (head_of l))"

definition list_head :: "list_heap \<Rightarrow> nat \<Rightarrow> nat result" where
  "list_head h l = c_assert (l \<noteq> 0) (Inr (head_of l))"

definition list_tail :: "list_heap \<Rightarrow> nat \<Rightarrow> nat result" where
  "list_tail h l = c_assert (l \<noteq> 0) (Inr (tail_of l))"

definition list_insert :: "list_heap \<Rightarrow> nat \<Rightarrow> nat \<Rightarrow> list_heap result" where
  "list_insert h before elem =
     c_assert (is_interior h before \<or> is_tail h before) (c_assert (elem \<noteq> 0)
      (let h = set_prev elem (prev_of h before) h;
           h = set_next elem before h;
           h = set_next (prev_of h before) elem h
       in Inr (set_prev before elem h)))"

definition list_splice :: "list_heap \<Rightarrow> nat \<Rightarrow> nat \<Rightarrow> nat \<Rightarrow> list_heap result" where
  "list_splice h before first last0 =
     c_assert (is_interior h before \<or> is_tail h before)
      (if first = last0 then Inr h
       else rbind (list_prev h last0) (\<lambda>last1.
         c_assert (is_interior h first) (c_assert (is_interior h last1)
          (let h = set_next (prev_of h first) (next_of h last1) h;
               h = set_prev (next_of h last1) (prev_of h first) h;
               h = set_prev first (prev_of h before) h;
               h = set_next last1 before h;
               h = set_next (prev_of h before) first h
           in Inr (set_prev before last1 h)))))"

definition list_push_front :: "list_heap \<Rightarrow> nat \<Rightarrow> nat \<Rightarrow> list_heap result" where
  "list_push_front h l elem = rbind (list_begin h l) (\<lambda>b. list_insert h b elem)"

definition list_push_back :: "list_heap \<Rightarrow> nat \<Rightarrow> nat \<Rightarrow> list_heap result" where
  "list_push_back h l elem = rbind (list_end h l) (\<lambda>e. list_insert h e elem)"

text \<open>Returns the element that followed, and the heap.\<close>

definition list_remove :: "list_heap \<Rightarrow> nat \<Rightarrow> (nat \<times> list_heap) result" where
  "list_remove h elem =
     c_assert (is_interior h elem)
      (let h = set_next (prev_of h elem) (next_of h elem) h;
           h = set_prev (next_of h elem) (prev_of h elem) h
       in Inr (next_of h elem, h))"

definition list_empty :: "list_heap \<Rightarrow> nat \<Rightarrow> bool result" where
  "list_empty h l = rbind (list_begin h l) (\<lambda>b. rbind (list_end h l) (\<lambda>e. Inr (b = e)))"

definition list_front :: "list_heap \<Rightarrow> nat \<Rightarrow> nat result" where
  "list_front h l = rbind (list_empty h l) (\<lambda>b. c_assert (\<not> b) (Inr (next_of h (head_of l))))"

definition list_back :: "list_heap \<Rightarrow> nat \<Rightarrow> nat result" where
  "list_back h l = rbind (list_empty h l) (\<lambda>b. c_assert (\<not> b) (Inr (prev_of h (tail_of l))))"

definition list_pop_front :: "list_heap \<Rightarrow> nat \<Rightarrow> (nat \<times> list_heap) result" where
  "list_pop_front h l = rbind (list_front h l) (\<lambda>front. rbind (list_remove h front) (\<lambda>(_, h). Inr (front, h)))"

definition list_pop_back :: "list_heap \<Rightarrow> nat \<Rightarrow> (nat \<times> list_heap) result" where
  "list_pop_back h l = rbind (list_back h l) (\<lambda>back. rbind (list_remove h back) (\<lambda>(_, h). Inr (back, h)))"

partial_function (option) list_size_loop :: "list_heap \<Rightarrow> nat \<Rightarrow> nat \<Rightarrow> nat \<Rightarrow> nat result option" where
  "list_size_loop h l e cnt =
     (if e \<noteq> tail_of l then
        (case list_next h e of Inr e' \<Rightarrow> list_size_loop h l e' (cnt + 1) | Inl x \<Rightarrow> Some (Inl x))
      else Some (Inr cnt))"

definition list_size :: "list_heap \<Rightarrow> nat \<Rightarrow> nat result" where
  "list_size h l = rbind (list_begin h l) (\<lambda>e. returns (list_size_loop h l e 0))"

text \<open>\<^verbatim>\<open>swap (&e->prev, &e->next)\<close>, and the loop that walks on through the swapped pointers.\<close>

definition swap_links :: "nat \<Rightarrow> list_heap \<Rightarrow> list_heap" where
  "swap_links e h = (let t = prev_of h e; h = set_prev e (next_of h e) h in set_next e t h)"

partial_function (option) list_reverse_loop :: "list_heap \<Rightarrow> nat \<Rightarrow> nat \<Rightarrow> list_heap option" where
  "list_reverse_loop h l e =
     (if e \<noteq> tail_of l then
        let h = swap_links e h in list_reverse_loop h l (prev_of h e)
      else Some h)"

definition list_reverse :: "list_heap \<Rightarrow> nat \<Rightarrow> list_heap result" where
  "list_reverse h l =
     rbind (list_empty h l) (\<lambda>b. if b then Inr h else
       rbind (list_begin h l) (\<lambda>e. rbind (of_loop (list_reverse_loop h l e)) (\<lambda>h.
         let t = next_of h (head_of l);
             h = set_next (head_of l) (prev_of h (tail_of l)) h;
             h = set_prev (tail_of l) t h;
             a = next_of h (head_of l); b = prev_of h (tail_of l);
             t = prev_of h a;
             h = set_prev a (next_of h b) h
         in Inr (set_next b t h))))"

declare list_size_loop.simps [code] list_reverse_loop.simps [code]


subsection \<open>Lists in the heap\<close>

definition link :: "list_heap \<Rightarrow> nat \<Rightarrow> nat \<Rightarrow> bool" where
  "link h a b \<longleftrightarrow> next_of h a = b \<and> prev_of h b = a"

definition nodes :: "nat \<Rightarrow> nat list \<Rightarrow> nat list" where
  "nodes l xs = l # xs @ [tail_of l]"

definition dlist :: "list_heap \<Rightarrow> nat \<Rightarrow> nat list \<Rightarrow> bool" where
  "dlist h l xs \<longleftrightarrow> 0 \<notin> set (nodes l xs) \<and> distinct (nodes l xs)
     \<and> prev_of h l = 0 \<and> next_of h (tail_of l) = 0 \<and> successively (link h) (nodes l xs)"

lemma set_links [simp]:
  "prev_of (set_prev e v h) = (prev_of h)(e := v)" "next_of (set_prev e v h) = next_of h"
  "prev_of (set_next e v h) = prev_of h" "next_of (set_next e v h) = (next_of h)(e := v)"
  by (simp_all add: set_prev_def set_next_def)

lemma tail_of_neq [simp]: "tail_of l \<noteq> l" "l \<noteq> tail_of l" "tail_of l \<noteq> 0"
  by (simp_all add: tail_of_def)

text \<open>A chain only depends on the pointers inside it.\<close>

lemma chain_frame:
  assumes "\<And>x. x \<in> set (butlast ns) \<Longrightarrow> next_of h' x = next_of h x"
    and "\<And>x. x \<in> set (tl ns) \<Longrightarrow> prev_of h' x = prev_of h x"
  shows "successively (link h') ns = successively (link h) ns"
  using assms by (induction ns rule: induct_list012) (auto simp: link_def)

lemma chain_frameI:
  assumes "successively (link h) ns" "\<And>x. x \<in> set (butlast ns) \<Longrightarrow> next_of h' x = next_of h x"
    and "\<And>x. x \<in> set (tl ns) \<Longrightarrow> prev_of h' x = prev_of h x"
  shows "successively (link h') ns"
  using assms chain_frame [of ns h' h] by simp

lemma tl_snoc_subset: "x \<in> set (tl (A @ [p])) \<Longrightarrow> x \<in> insert p (set A)"
  by (cases A) auto

lemma dlistI:
  assumes "distinct (l # xs @ [tail_of l])" "0 \<notin> set (l # xs)" "prev_of h l = 0" "next_of h (tail_of l) = 0"
    and "successively (link h) (l # xs @ [tail_of l])"
  shows "dlist h l xs"
  using assms by (simp add: dlist_def nodes_def)

lemma dlist_ends: "dlist h l xs \<Longrightarrow> l \<noteq> 0 \<and> prev_of h l = 0 \<and> next_of h (tail_of l) = 0"
  by (simp add: dlist_def nodes_def)

lemma dlist_frame:
  assumes "dlist h l xs" "\<And>x. x \<in> set (nodes l xs) \<Longrightarrow> next_of h' x = next_of h x \<and> prev_of h' x = prev_of h x"
  shows "dlist h' l xs"
proof -
  have "successively (link h') (nodes l xs)"
    by (rule chain_frameI [of h]) (use assms in \<open>auto simp: dlist_def nodes_def dest: in_set_butlastD\<close>)
  with assms show ?thesis by (simp add: dlist_def nodes_def)
qed

text \<open>A list cut in two: the nodes up to and including \<open>p\<close>, and the nodes from \<open>n\<close> on.\<close>

definition cut :: "nat \<Rightarrow> nat list \<Rightarrow> nat list \<Rightarrow> nat list \<Rightarrow> nat \<Rightarrow> nat \<Rightarrow> nat list \<Rightarrow> bool" where
  "cut l xs ys A p n B \<longleftrightarrow> l # xs = A @ [p] \<and> ys @ [tail_of l] = n # B"

lemma cut_exists: obtains A p n B where "cut l xs ys A p n B"
proof -
  obtain A p where "l # xs = A @ [p]" by (metis list.distinct(1) rev_exhaust)
  moreover obtain n B where "ys @ [tail_of l] = n # B" by (metis append_is_Nil_conv list.exhaust)
  ultimately show ?thesis using that by (simp add: cut_def)
qed

lemma cut_nodes: "cut l xs ys A p n B \<Longrightarrow> nodes l (xs @ ys) = A @ p # n # B"
proof -
  assume "cut l xs ys A p n B"
  then have "(l # xs) @ (ys @ [tail_of l]) = (A @ [p]) @ n # B" unfolding cut_def by metis
  then show ?thesis by (simp add: nodes_def)
qed

lemma cut_ends: "cut l xs ys A p n B \<Longrightarrow> p = last (l # xs) \<and> n = hd (ys @ [tail_of l])"
  unfolding cut_def by (metis last_snoc list.sel(1))

lemma dlist_cut:
  assumes "dlist h l (xs @ ys)" "cut l xs ys A p n B"
  shows "successively (link h) (A @ [p])" "successively (link h) (n # B)" "next_of h p = n" "prev_of h n = p"
    "distinct (A @ p # n # B)" "0 \<notin> set (A @ p # n # B)"
  using assms(1) cut_nodes [OF assms(2)] unfolding dlist_def
  by (auto simp: successively_append_iff successively_Cons link_def)

text \<open>Putting two parts back together around new nodes \<open>M\<close>.\<close>

lemma dlist_join:
  assumes d: "dlist h l (xs @ ys)" and c: "cut l xs ys A p n B"
    and M: "distinct M" "set M \<inter> set (A @ p # n # B) = {}" "0 \<notin> set M"
    and nx: "\<And>x. x \<in> set A \<union> set (n # B) \<Longrightarrow> next_of h' x = next_of h x"
    and pv: "\<And>x. x \<in> set (A @ [p]) \<union> set B \<Longrightarrow> prev_of h' x = prev_of h x"
    and mid: "successively (link h') (p # M @ [n])"
  shows "dlist h' l (xs @ M @ ys)"
proof -
  note dc = dlist_cut [OF d c]
  have "successively (link h') (A @ [p])"
    by (rule chain_frameI [OF dc(1)]) (use nx pv in \<open>auto dest: tl_snoc_subset\<close>)
  moreover have "successively (link h') (n # B)"
    by (rule chain_frameI [OF dc(2)]) (use nx pv in \<open>auto dest: in_set_butlastD split: if_splits\<close>)
  ultimately have "successively (link h') ((A @ [p]) @ M @ n # B)"
    using mid by (cases M) (auto simp: successively_append_iff successively_Cons hd_append)
  moreover have "(A @ [p]) @ M @ n # B = l # (xs @ M @ ys) @ [tail_of l]"
    using c unfolding cut_def by (metis append.assoc append_Cons)
  moreover have "l \<in> set (A @ [p])" "tail_of l \<in> set (n # B)"
    using c unfolding cut_def by (metis list.set_intros(1), metis in_set_conv_decomp)
  moreover have "distinct ((A @ [p]) @ M @ n # B)" "0 \<notin> set ((A @ [p]) @ M @ n # B)" using dc(5,6) M by auto
  ultimately show ?thesis
    using dlist_ends [OF d] nx pv by (intro dlistI) auto
qed

subsection \<open>Insertion and removal\<close>

definition insert_heap :: "nat \<Rightarrow> nat \<Rightarrow> nat \<Rightarrow> list_heap \<Rightarrow> list_heap" where
  "insert_heap p e n h = h\<lparr>prev_of := (prev_of h)(e := p, n := e), next_of := (next_of h)(e := n, p := e)\<rparr>"

definition remove_heap :: "nat \<Rightarrow> nat \<Rightarrow> list_heap \<Rightarrow> list_heap" where
  "remove_heap p n h = h\<lparr>prev_of := (prev_of h)(n := p), next_of := (next_of h)(p := n)\<rparr>"

lemma heap_fields [simp]:
  "prev_of (insert_heap p e n h) = (prev_of h)(e := p, n := e)" "next_of (insert_heap p e n h) = (next_of h)(e := n, p := e)"
  "prev_of (remove_heap p n h) = (prev_of h)(n := p)" "next_of (remove_heap p n h) = (next_of h)(p := n)"
  by (simp_all add: insert_heap_def remove_heap_def)

lemma not_first:
  assumes "dlist h l (xs @ ys)" "cut l xs ys A p n B"
  shows "is_interior h n \<or> is_tail h n"
  using dlist_cut [OF assms] by (auto simp: is_interior_def is_tail_def)

lemma list_insert_cut:
  assumes d: "dlist h l (xs @ ys)" and c: "cut l xs ys A p n B" and e: "e \<noteq> 0" "e \<notin> set (nodes l (xs @ ys))"
  shows "list_insert h n e = Inr (insert_heap p e n h)" "dlist (insert_heap p e n h) l (xs @ e # ys)"
proof -
  note dc = dlist_cut [OF d c]
  have ne: "e \<notin> set A" "e \<noteq> p" "e \<noteq> n" "e \<notin> set B" using e(2) cut_nodes [OF c] by auto
  show "list_insert h n e = Inr (insert_heap p e n h)"
    using not_first [OF d c] e(1) dc(4) ne
    by (simp add: list_insert_def insert_heap_def set_prev_def set_next_def Let_def fun_upd_twist)
  have "dlist (insert_heap p e n h) l (xs @ [e] @ ys)"
    by (rule dlist_join [OF d c]) (use dc(5) ne e(1) in \<open>auto simp: link_def\<close>)
  then show "dlist (insert_heap p e n h) l (xs @ e # ys)" by simp
qed

lemma list_remove_cut:
  assumes d: "dlist h l (xs @ e # ys)" and c: "cut l xs ys A p n B"
  shows "list_remove h e = Inr (n, remove_heap p n h)" "dlist (remove_heap p n h) l (xs @ ys)"
proof -
  have nd: "nodes l (xs @ e # ys) = A @ p # e # n # B"
    using c unfolding cut_def nodes_def by (metis append.assoc append_Cons append_Nil)
  have dc: "successively (link h) (A @ [p])" "link h p e" "link h e n" "successively (link h) (n # B)"
    "distinct (A @ p # e # n # B)" "0 \<notin> set (A @ p # e # n # B)"
    using d unfolding dlist_def nd by (auto simp: successively_append_iff successively_Cons)
  then show "list_remove h e = Inr (n, remove_heap p n h)"
    by (auto simp: list_remove_def is_interior_def link_def remove_heap_def set_prev_def set_next_def Let_def)
  have "successively (link (remove_heap p n h)) (A @ [p])"
    by (rule chain_frameI [OF dc(1)]) (use dc(5) in \<open>auto dest: tl_snoc_subset\<close>)
  moreover have "successively (link (remove_heap p n h)) (n # B)"
    by (rule chain_frameI [OF dc(4)]) (use dc(5) in \<open>auto dest: in_set_butlastD split: if_splits\<close>)
  ultimately have "successively (link (remove_heap p n h)) (nodes l (xs @ ys))"
    unfolding cut_nodes [OF c] by (auto simp: successively_append_iff successively_Cons link_def)
  moreover have "l \<in> set (A @ [p])" "tail_of l \<in> set (n # B)"
    using c unfolding cut_def by (metis list.set_intros(1), metis in_set_conv_decomp)
  then have "l \<noteq> n" "tail_of l \<noteq> p" using dc(5) by auto
  moreover have "distinct (nodes l (xs @ ys))" "0 \<notin> set (nodes l (xs @ ys))"
    unfolding cut_nodes [OF c] using dc(5,6) by auto
  ultimately show "dlist (remove_heap p n h) l (xs @ ys)"
    using dlist_ends [OF d] by (simp add: dlist_def)
qed


subsection \<open>Traversal\<close>

lemma dlist_begin: "dlist h l xs \<Longrightarrow> list_begin h l = Inr (hd (xs @ [tail_of l]))"
  by (cases xs) (auto simp: list_begin_def head_of_def dlist_def nodes_def link_def)

lemma dlist_rbegin: "dlist h l xs \<Longrightarrow> list_rbegin h l = Inr (last (l # xs))"
proof -
  assume d: "dlist h l xs"
  obtain A p n B where c: "cut l xs [] A p n B" by (rule cut_exists)
  have "n = tail_of l" "p = last (l # xs)" using cut_ends [OF c] by auto
  with dlist_cut(4) [of h l xs "[]", simplified, OF d c] dlist_ends [OF d] show ?thesis
    by (simp add: list_rbegin_def)
qed

lemma dlist_at:
  assumes "dlist h l (xs @ e # ys)"
  shows "next_of h e = hd (ys @ [tail_of l])" "prev_of h e = last (l # xs)" "is_interior h e" "e \<noteq> tail_of l"
proof -
  obtain A p n B where c: "cut l xs ys A p n B" by (rule cut_exists)
  have nd: "nodes l (xs @ e # ys) = A @ p # e # n # B"
    using c unfolding cut_def nodes_def by (metis append.assoc append_Cons append_Nil)
  have dc: "link h p e" "link h e n" "0 \<notin> set (A @ p # e # n # B)"
    using assms unfolding dlist_def nd by (auto simp: successively_append_iff successively_Cons)
  then show "next_of h e = hd (ys @ [tail_of l])" "prev_of h e = last (l # xs)" "is_interior h e"
    using cut_ends [OF c] by (auto simp: link_def is_interior_def)
  show "e \<noteq> tail_of l" using assms by (auto simp: dlist_def nodes_def)
qed

lemma dlist_next: "dlist h l (xs @ e # ys) \<Longrightarrow> list_next h e = Inr (hd (ys @ [tail_of l]))"
  using dlist_at by (simp add: list_next_def)

lemma dlist_prev: "dlist h l (xs @ e # ys) \<Longrightarrow> list_prev h e = Inr (last (l # xs))"
  using dlist_at by (simp add: list_prev_def)

lemma dlist_prev_end: "dlist h l (xs @ [e]) \<Longrightarrow> list_prev h (tail_of l) = Inr e"
proof -
  assume d: "dlist h l (xs @ [e])"
  have "prev_of h (tail_of l) = e" "e \<noteq> 0"
    using dlist_rbegin [OF d] dlist_ends [OF d] d by (auto simp: list_rbegin_def dlist_def nodes_def)
  then show ?thesis using dlist_ends [OF d] by (simp add: list_prev_def is_tail_def is_interior_def)
qed

lemma dlist_empty: "dlist h l xs \<Longrightarrow> list_empty h l = Inr (xs = [])"
proof -
  assume d: "dlist h l xs"
  then have "l \<noteq> 0" "tail_of l \<notin> set xs" by (auto simp: dlist_def nodes_def)
  then show ?thesis using dlist_begin [OF d] by (cases xs) (auto simp: list_empty_def list_end_def)
qed

lemma list_size_loop_run:
  "dlist h l (xs @ ys) \<Longrightarrow> list_size_loop h l (hd (ys @ [tail_of l])) c = Some (Inr (c + length ys))"
proof (induction ys arbitrary: xs c)
  case Nil
  then show ?case by (simp add: list_size_loop.simps)
next
  case (Cons y ys)
  have "dlist h l ((xs @ [y]) @ ys)" using Cons.prems by simp
  from Cons.IH [OF this] show ?case
    using dlist_next [OF Cons.prems] dlist_at(4) [OF Cons.prems] by (simp add: list_size_loop.simps [of h l y])
qed

lemma dlist_size: "dlist h l xs \<Longrightarrow> list_size h l = Inr (length xs)"
  using list_size_loop_run [of h l "[]" xs 0] dlist_begin [of h l xs] by (simp add: list_size_def)

subsection \<open>Ends of the list\<close>

lemma list_init_dlist:
  assumes "l \<noteq> 0"
  shows "\<exists>h'. list_init h l = Inr h' \<and> dlist h' l []
    \<and> (\<forall>x. x \<noteq> l \<and> x \<noteq> tail_of l \<longrightarrow> next_of h' x = next_of h x \<and> prev_of h' x = prev_of h x)"
  using assms by (auto simp: list_init_def head_of_def Let_def dlist_def nodes_def link_def)

text \<open>Fields outside the list and the element handled are not touched.\<close>

definition frame :: "nat set \<Rightarrow> list_heap \<Rightarrow> list_heap \<Rightarrow> bool" where
  "frame S h h' \<longleftrightarrow> (\<forall>x. x \<notin> S \<longrightarrow> next_of h' x = next_of h x \<and> prev_of h' x = prev_of h x)"

lemma frame_refl [simp]: "frame S h h"
  by (simp add: frame_def)

lemma frame_trans: "frame S h h' \<Longrightarrow> frame T h' h'' \<Longrightarrow> S \<subseteq> U \<Longrightarrow> T \<subseteq> U \<Longrightarrow> frame U h h''"
  unfolding frame_def by (metis subsetD)

lemma dlist_frame_disjoint:
  assumes "dlist h l xs" "frame S h h'" "S \<inter> set (nodes l xs) = {}"
  shows "dlist h' l xs"
  by (rule dlist_frame [OF assms(1)]) (use assms in \<open>auto simp: frame_def\<close>)

lemma list_insert_ok:
  assumes d: "dlist h l (xs @ ys)" and e: "e \<noteq> 0" "e \<notin> set (nodes l (xs @ ys))"
  shows "\<exists>h'. list_insert h (hd (ys @ [tail_of l])) e = Inr h' \<and> dlist h' l (xs @ e # ys)
    \<and> frame (insert e (set (nodes l (xs @ ys)))) h h'"
proof -
  obtain A p n B where c: "cut l xs ys A p n B" by (rule cut_exists)
  have "frame (insert e (set (nodes l (xs @ ys)))) h (insert_heap p e n h)"
    unfolding cut_nodes [OF c] by (simp add: frame_def)
  with list_insert_cut [OF d c e] cut_ends [OF c] show ?thesis by auto
qed

lemma list_remove_ok:
  assumes d: "dlist h l (xs @ e # ys)"
  shows "\<exists>h'. list_remove h e = Inr (hd (ys @ [tail_of l]), h') \<and> dlist h' l (xs @ ys)
    \<and> frame (set (nodes l (xs @ ys))) h h'"
proof -
  obtain A p n B where c: "cut l xs ys A p n B" by (rule cut_exists)
  have "frame (set (nodes l (xs @ ys))) h (remove_heap p n h)"
    unfolding cut_nodes [OF c] by (simp add: frame_def)
  with list_remove_cut [OF d c] cut_ends [OF c] show ?thesis by auto
qed

lemma list_push_back_ok:
  assumes "dlist h l xs" "e \<noteq> 0" "e \<notin> set (nodes l xs)"
  shows "\<exists>h'. list_push_back h l e = Inr h' \<and> dlist h' l (xs @ [e]) \<and> frame (insert e (set (nodes l xs))) h h'"
  using list_insert_ok [of h l xs "[]" e] assms dlist_ends [OF assms(1)]
  by (simp add: list_push_back_def list_end_def)

lemma list_push_front_ok:
  assumes "dlist h l xs" "e \<noteq> 0" "e \<notin> set (nodes l xs)"
  shows "\<exists>h'. list_push_front h l e = Inr h' \<and> dlist h' l (e # xs) \<and> frame (insert e (set (nodes l xs))) h h'"
  using list_insert_ok [of h l "[]" xs e] assms dlist_begin [OF assms(1)]
  by (simp add: list_push_front_def)

lemma list_front_ok: "dlist h l (x # xs) \<Longrightarrow> list_front h l = Inr x"
  using dlist_empty [of h l "x # xs"] dlist_begin [of h l "x # xs"] dlist_ends [of h l "x # xs"]
  by (simp add: list_front_def list_begin_def)

lemma list_back_ok: "dlist h l (xs @ [x]) \<Longrightarrow> list_back h l = Inr x"
  using dlist_empty [of h l "xs @ [x]"] dlist_rbegin [of h l "xs @ [x]"] dlist_ends [of h l "xs @ [x]"]
  by (simp add: list_back_def list_rbegin_def)

lemma list_pop_front_ok:
  assumes "dlist h l (x # xs)"
  shows "\<exists>h'. list_pop_front h l = Inr (x, h') \<and> dlist h' l xs \<and> frame (set (nodes l xs)) h h'"
  using list_remove_ok [of h l "[]" x xs] assms list_front_ok [OF assms]
  by (auto simp: list_pop_front_def)

lemma list_pop_back_ok:
  assumes "dlist h l (xs @ [x])"
  shows "\<exists>h'. list_pop_back h l = Inr (x, h') \<and> dlist h' l xs \<and> frame (set (nodes l xs)) h h'"
  using list_remove_ok [of h l xs x "[]"] assms list_back_ok [OF assms]
  by (auto simp: list_pop_back_def)

lemma list_pop_empty:
  assumes "dlist h l []"
  shows "list_pop_front h l = Inl Assertion_failed" "list_pop_back h l = Inl Assertion_failed"
  using dlist_empty [OF assms] by (simp_all add: list_pop_front_def list_pop_back_def list_front_def list_back_def)


subsection \<open>Splicing\<close>

lemma last_notin_butlast: "distinct xs \<Longrightarrow> xs \<noteq> [] \<Longrightarrow> last xs \<notin> set (butlast xs)"
  by (induction xs rule: rev_induct) auto

lemma hd_notin_tl: "distinct xs \<Longrightarrow> xs \<noteq> [] \<Longrightarrow> hd xs \<notin> set (tl xs)"
  by (cases xs) auto

definition splice_heap :: "nat \<Rightarrow> nat list \<Rightarrow> nat list \<Rightarrow> nat \<Rightarrow> list_heap \<Rightarrow> list_heap" where
  "splice_heap p Q M n h =
     h\<lparr>prev_of := (prev_of h)(n := last Q, hd M := p, hd Q := last M),
       next_of := (next_of h)(last Q := n, last M := hd Q, p := hd M)\<rparr>"

text \<open>The segment \<open>M\<close> behind \<open>Q\<close> moves in front of it.\<close>

lemma splice_chain:
  assumes "successively (link h) (A @ p # Q @ M @ n # B)" "distinct (A @ p # Q @ M @ n # B)"
    and "Q \<noteq> []" "M \<noteq> []"
  shows "successively (link (splice_heap p Q M n h)) (A @ p # M @ Q @ n # B)"
proof -
  let ?h = "splice_heap p Q M n h"
  have mem: "hd Q \<in> set Q" "last Q \<in> set Q" "hd M \<in> set M" "last M \<in> set M" using assms(3,4) by auto
  have ends: "last Q \<notin> set (butlast Q)" "hd Q \<notin> set (tl Q)" "last M \<notin> set (butlast M)" "hd M \<notin> set (tl M)"
    using assms(2-4) by (auto intro: last_notin_butlast hd_notin_tl dest: last_notin_butlast hd_notin_tl)
  have parts: "successively (link h) (A @ [p])" "successively (link h) Q" "successively (link h) M"
    "successively (link h) (n # B)"
    using assms(1,3,4) by (auto simp: successively_append_iff successively_Cons)
  have nx: "next_of ?h x = next_of h x" if "x \<noteq> last Q" "x \<noteq> last M" "x \<noteq> p" for x
    using that by (simp add: splice_heap_def)
  have pv: "prev_of ?h x = prev_of h x" if "x \<noteq> n" "x \<noteq> hd M" "x \<noteq> hd Q" for x
    using that by (simp add: splice_heap_def)
  have out: "p \<notin> set (A @ Q @ M @ n # B)" "n \<notin> set (A @ Q @ M @ B)"
    "last Q \<notin> set (A @ M @ B)" "hd Q \<notin> set (A @ M @ B)" "last M \<notin> set (A @ Q @ B)" "hd M \<notin> set (A @ Q @ B)"
    using assms(2) mem by auto
  have "successively (link ?h) (A @ [p])"
    by (rule chain_frameI [OF parts(1)]) (use out mem in \<open>auto intro!: nx pv dest!: tl_snoc_subset\<close>)
  moreover have "successively (link ?h) Q"
  proof (rule chain_frameI [OF parts(2)])
    show "next_of ?h x = next_of h x" if "x \<in> set (butlast Q)" for x
      using that in_set_butlastD [OF that] ends out by (intro nx) auto
    show "prev_of ?h x = prev_of h x" if "x \<in> set (tl Q)" for x
      using that list.set_sel(2) [OF assms(3) that] ends out by (intro pv) auto
  qed
  moreover have "successively (link ?h) M"
  proof (rule chain_frameI [OF parts(3)])
    show "next_of ?h x = next_of h x" if "x \<in> set (butlast M)" for x
      using that in_set_butlastD [OF that] ends out by (intro nx) auto
    show "prev_of ?h x = prev_of h x" if "x \<in> set (tl M)" for x
      using that list.set_sel(2) [OF assms(4) that] ends out by (intro pv) auto
  qed
  moreover have "successively (link ?h) (n # B)"
    by (rule chain_frameI [OF parts(4)])
      (use out mem in \<open>auto intro!: nx pv dest!: in_set_butlastD split: if_splits\<close>)
  moreover have "link ?h p (hd M)" "link ?h (last M) (hd Q)" "link ?h (last Q) n"
    using mem out by (auto simp: link_def splice_heap_def)
  ultimately show ?thesis
    using assms(3,4) by (auto simp: successively_append_iff successively_Cons)
qed

lemma list_splice_ok:
  assumes d: "dlist h l (P @ Q @ M @ S)" and ne: "Q \<noteq> []" "M \<noteq> []"
  shows "\<exists>h'. list_splice h (hd Q) (hd M) (hd (S @ [tail_of l])) = Inr h' \<and> dlist h' l (P @ M @ Q @ S)
    \<and> frame (set (nodes l (P @ Q @ M @ S))) h h'"
proof -
  obtain A p n B where c: "cut l P S A p n B" by (rule cut_exists)
  have nd: "nodes l (P @ X @ S) = A @ p # X @ n # B" for X
    using c unfolding cut_def nodes_def by (metis append.assoc append_Cons append_Nil)
  have n: "hd (S @ [tail_of l]) = n" using cut_ends [OF c] by simp
  have ch: "successively (link h) (A @ p # Q @ M @ n # B)" "distinct (A @ p # Q @ M @ n # B)" "0 \<notin> set (A @ p # Q @ M @ n # B)"
    using d nd [of "Q @ M"] by (simp_all add: dlist_def)
  have lk: "link h p (hd Q)" "link h (last Q) (hd M)" "link h (last M) n"
    using ch(1) ne by (auto simp: successively_append_iff successively_Cons)
  have mem: "hd Q \<in> set Q" "last Q \<in> set Q" "hd M \<in> set M" "last M \<in> set M" using ne by auto
  have out: "p \<notin> set (Q @ M @ n # B)" "n \<notin> set (Q @ M)" "last Q \<notin> set M" "hd Q \<notin> set M" "last M \<notin> set Q" "hd M \<notin> set Q"
    "0 \<noteq> p" "0 \<noteq> n" "hd Q \<noteq> 0" "last Q \<noteq> 0" "hd M \<noteq> 0" "last M \<noteq> 0"
    using ch(2,3) mem by auto
  have nxt: "next_of h (hd M) \<noteq> 0" "next_of h (hd Q) \<noteq> 0"
  proof -
    obtain m M' where M: "M = m # M'" using ne(2) by (cases M) auto
    have "link h m (hd (M' @ [n]))" using ch(1) M by (cases M') (auto simp: successively_append_iff successively_Cons)
    moreover have "hd (M' @ [n]) \<noteq> 0" using ch(3) M out(8) by (cases M') auto
    ultimately show "next_of h (hd M) \<noteq> 0" using M by (simp add: link_def)
    obtain q Q' where Q: "Q = q # Q'" using ne(1) by (cases Q) auto
    have "link h q (hd (Q' @ M))" using ch(1) Q ne(2) by (cases Q') (auto simp: successively_append_iff successively_Cons)
    moreover have "hd (Q' @ M) \<noteq> 0" using ch(3) Q out(11) by (cases Q') auto
    ultimately show "next_of h (hd Q) \<noteq> 0" using Q by (simp add: link_def)
  qed
  let ?h = "splice_heap p Q M n h"
  have bef: "is_interior h (hd Q)" using lk nxt out by (auto simp: is_interior_def link_def)
  have fst: "is_interior h (hd M)" using lk nxt out by (auto simp: is_interior_def link_def)
  have lst: "is_interior h (last M)"
  proof -
    obtain M' w where M: "M = M' @ [w]" using ne(2) by (metis rev_exhaust)
    have "link h (last (Q @ M')) w" using ch(1) M ne(1) by (cases M' rule: rev_cases) (auto simp: successively_append_iff successively_Cons)
    moreover have "last (Q @ M') \<noteq> 0" using ch(3) M out(10) by (cases M' rule: rev_cases) auto
    ultimately show ?thesis using M lk(3) out by (auto simp: is_interior_def link_def)
  qed
  have prv: "list_prev h n = Inr (last M)"
    using lk(3) out by (auto simp: list_prev_def is_interior_def is_tail_def link_def c_assert_def)
  have neq: "hd M \<noteq> n" "last M \<noteq> last Q" "hd Q \<noteq> n" "hd Q \<noteq> hd M" "hd M \<noteq> hd Q" using mem out by auto
  have at: "prev_of h (hd M) = last Q" "next_of h (last M) = n" "prev_of h (hd Q) = p" "prev_of h n = last M"
    using lk by (auto simp: link_def)
  have sp: "list_splice h (hd Q) (hd M) n = Inr ?h"
    using bef fst lst prv neq at
    by (simp add: list_splice_def splice_heap_def set_prev_def set_next_def Let_def)
  have "successively (link ?h) (nodes l (P @ M @ Q @ S))"
    using splice_chain [OF ch(1,2) ne] nd [of "M @ Q"] by simp
  moreover have "distinct (nodes l (P @ M @ Q @ S))" "0 \<notin> set (nodes l (P @ M @ Q @ S))"
    using ch(2,3) nd [of "M @ Q"] by auto
  moreover have "l \<in> set (A @ [p])" "tail_of l \<in> set (n # B)"
    using c unfolding cut_def by (metis list.set_intros(1), metis in_set_conv_decomp)
  then have "l \<noteq> n" "l \<noteq> hd M" "l \<noteq> hd Q" "tail_of l \<noteq> last Q" "tail_of l \<noteq> last M" "tail_of l \<noteq> p"
    using ch(2) mem by auto
  then have "prev_of ?h l = 0" "next_of ?h (tail_of l) = 0"
    using dlist_ends [OF d] by (simp_all add: splice_heap_def)
  ultimately have "dlist ?h l (P @ M @ Q @ S)" by (simp add: dlist_def)
  moreover have "frame (set (nodes l (P @ Q @ M @ S))) h ?h"
    using nd [of "Q @ M"] mem by (auto simp: frame_def splice_heap_def)
  ultimately show ?thesis using sp n by auto
qed


subsection \<open>Reversal\<close>

text \<open>Halfway through the loop: the elements passed have their pointers exchanged, the rest not yet.\<close>

lemma reverse_loop_run:
  assumes "successively (\<lambda>a b. next_of h a = b) (ys @ [tail_of l])" "distinct (ys @ [tail_of l])"
  shows "\<exists>h'. list_reverse_loop h l (hd (ys @ [tail_of l])) = Some h'
    \<and> (\<forall>x. x \<in> set ys \<longrightarrow> next_of h' x = prev_of h x \<and> prev_of h' x = next_of h x)
    \<and> (\<forall>x. x \<notin> set ys \<longrightarrow> next_of h' x = next_of h x \<and> prev_of h' x = prev_of h x)"
  using assms
proof (induction ys arbitrary: h)
  case Nil
  then show ?case by (simp add: list_reverse_loop.simps)
next
  case (Cons y ys)
  let ?h = "swap_links y h"
  have sw: "prev_of ?h y = next_of h y" "next_of ?h y = prev_of h y"
    "x \<noteq> y \<Longrightarrow> prev_of ?h x = prev_of h x \<and> next_of ?h x = next_of h x" for x
    by (simp_all add: swap_links_def Let_def)
  have y: "y \<noteq> tail_of l" "y \<notin> set ys" using Cons.prems(2) by auto
  have nx: "next_of h y = hd (ys @ [tail_of l])" and rest: "successively (\<lambda>a b. next_of h a = b) (ys @ [tail_of l])"
    using Cons.prems(1) by (cases ys; simp)+
  have "successively (\<lambda>a b. next_of ?h a = b) (ys @ [tail_of l])"
  proof (rule successively_mono [OF rest])
    fix a b assume "a \<in> set (ys @ [tail_of l])" "next_of h a = b"
    then show "next_of ?h a = b" using y sw(3) [of a] by auto
  qed
  with Cons.IH [of ?h] Cons.prems(2) obtain h' where h': "list_reverse_loop ?h l (hd (ys @ [tail_of l])) = Some h'"
    "\<forall>x. x \<in> set ys \<longrightarrow> next_of h' x = prev_of ?h x \<and> prev_of h' x = next_of ?h x"
    "\<forall>x. x \<notin> set ys \<longrightarrow> next_of h' x = next_of ?h x \<and> prev_of h' x = prev_of ?h x" by auto
  have "list_reverse_loop h l y = Some h'"
    using h'(1) y nx sw by (simp add: list_reverse_loop.simps [of h l y] Let_def)
  moreover have "\<forall>x. x \<in> set (y # ys) \<longrightarrow> next_of h' x = prev_of h x \<and> prev_of h' x = next_of h x"
    "\<forall>x. x \<notin> set (y # ys) \<longrightarrow> next_of h' x = next_of h x \<and> prev_of h' x = prev_of h x"
    using h'(2,3) sw y(2) by (metis set_ConsD, simp)
  ultimately show ?case by auto
qed

text \<open>Exchanging the ends afterwards makes the reversed list.\<close>

lemma reversed_dlist:
  assumes d: "dlist h l xs" and xs: "xs \<noteq> []"
    and sw: "\<And>x. x \<in> set xs \<Longrightarrow> next_of h' x = (if x = hd xs then tail_of l else prev_of h x)
      \<and> prev_of h' x = (if x = last xs then l else next_of h x)"
    and ends: "next_of h' l = last xs" "prev_of h' (tail_of l) = hd xs" "prev_of h' l = 0" "next_of h' (tail_of l) = 0"
  shows "dlist h' l (rev xs)"
proof -
  have ch: "successively (link h) xs" "distinct (nodes l xs)" "0 \<notin> set (nodes l xs)"
    using d xs by (auto simp: dlist_def nodes_def successively_Cons successively_append_iff)
  have di: "distinct xs" using ch(2) by (simp add: nodes_def)
  have "link h' (xs ! Suc i) (xs ! i)" if i: "Suc i < length xs" for i
  proof -
    have lk: "next_of h (xs ! i) = xs ! Suc i" "prev_of h (xs ! Suc i) = xs ! i"
      using ch(1) i by (auto simp: successively_conv_nth link_def)
    have "xs ! Suc i \<noteq> hd xs" "xs ! i \<noteq> last xs"
      using di i xs by (auto simp: hd_conv_nth last_conv_nth nth_eq_iff_index_eq)
    then show ?thesis using sw [of "xs ! i"] sw [of "xs ! Suc i"] lk i by (auto simp: link_def)
  qed
  then have "successively (link h') (rev xs)" unfolding successively_rev by (simp add: successively_conv_nth)
  moreover have "link h' l (hd (rev xs))" "link h' (last (rev xs)) (tail_of l)"
    using sw [of "last xs"] sw [of "hd xs"] ends(1,2) xs by (auto simp: link_def hd_rev last_rev)
  ultimately have "successively (link h') (l # rev xs @ [tail_of l])"
    using xs by (auto simp: successively_Cons successively_append_iff hd_append)
  then show ?thesis
    using ch(2,3) ends(3,4) by (intro dlistI) (auto simp: nodes_def)
qed

lemma list_reverse_ok:
  assumes d: "dlist h l xs"
  shows "\<exists>h'. list_reverse h l = Inr h' \<and> dlist h' l (rev xs) \<and> frame (set (nodes l xs)) h h'"
proof (cases "xs = []")
  case True
  then show ?thesis using dlist_empty [OF d] d by (simp add: list_reverse_def)
next
  case False
  have nd: "distinct (nodes l xs)" "successively (link h) (l # xs @ [tail_of l])"
    using d by (auto simp: dlist_def nodes_def)
  have "successively (link h) (xs @ [tail_of l])" using nd(2) by (cases xs) auto
  then have "successively (\<lambda>a b. next_of h a = b) (xs @ [tail_of l])"
    by (rule successively_mono) (simp add: link_def)
  moreover have "distinct (xs @ [tail_of l])" using nd(1) by (simp add: nodes_def)
  ultimately obtain h1 where h1: "list_reverse_loop h l (hd (xs @ [tail_of l])) = Some h1"
    "\<forall>x. x \<in> set xs \<longrightarrow> next_of h1 x = prev_of h x \<and> prev_of h1 x = next_of h x"
    "\<forall>x. x \<notin> set xs \<longrightarrow> next_of h1 x = next_of h x \<and> prev_of h1 x = prev_of h x"
    using reverse_loop_run by blast
  let ?t = "tail_of l" and ?f = "hd xs" and ?e = "last xs"
  have out: "l \<notin> set xs" "?t \<notin> set xs" using nd(1) by (auto simp: nodes_def)
  have mem: "?f \<in> set xs" "?e \<in> set xs" using False by auto
  have lk: "next_of h l = ?f" "prev_of h ?t = ?e" "prev_of h ?f = l" "next_of h ?e = ?t"
    using nd(2) False by (auto simp: successively_Cons successively_append_iff link_def hd_append)
  define h' where "h' = h1\<lparr>prev_of := (prev_of h1)(?t := ?f, ?e := l), next_of := (next_of h1)(l := ?e, ?f := ?t)\<rparr>"
  have at: "next_of h1 l = ?f" "prev_of h1 ?t = ?e" "prev_of h1 ?e = ?t" "next_of h1 ?f = l" "?f \<noteq> l" "?e \<noteq> ?t"
    using h1(2) [rule_format, OF mem(1)] h1(2) [rule_format, OF mem(2)] h1(3) [rule_format, OF out(1)]
      h1(3) [rule_format, OF out(2)] lk out mem by metis+
  have run: "list_reverse h l = Inr h'"
    using dlist_empty [OF d] dlist_begin [OF d] h1(1) False at
    by (simp add: list_reverse_def head_of_def set_prev_def set_next_def Let_def h'_def)
  have "dlist h' l (rev xs)"
  proof (rule reversed_dlist [OF d False])
    fix x assume x: "x \<in> set xs"
    then have "x \<noteq> l" "x \<noteq> ?t" using out by auto
    then show "next_of h' x = (if x = ?f then ?t else prev_of h x) \<and> prev_of h' x = (if x = ?e then l else next_of h x)"
      using h1(2) [rule_format, OF x] by (auto simp: h'_def)
  qed (use h1(3) [rule_format, OF out(1)] h1(3) [rule_format, OF out(2)] at dlist_ends [OF d] mem out in
      \<open>auto simp: h'_def\<close>)
  moreover have "frame (set (nodes l xs)) h h'"
    using h1(2,3) mem by (auto simp: frame_def h'_def nodes_def)
  ultimately show ?thesis using run by blast
qed

subsection \<open>The contract of a list\<close>

text \<open>What a client relies on that keeps a queue of waiting items in a list: \<open>holds s xs\<close> says that the
  state holds the items \<open>xs\<close> in this order, \<open>free s e\<close> that \<open>e\<close> may be added.\<close>

locale deque =
  fixes holds :: "'s \<Rightarrow> 'e list \<Rightarrow> bool"
    and free :: "'s \<Rightarrow> 'e list \<Rightarrow> 'e \<Rightarrow> bool"
    and push_back push_front :: "'s \<Rightarrow> 'e \<Rightarrow> 's result"
    and pop_front pop_back :: "'s \<Rightarrow> ('e \<times> 's) result"
  assumes push_back_holds: "holds s xs \<Longrightarrow> free s xs e \<Longrightarrow>
      \<exists>s'. push_back s e = Inr s' \<and> holds s' (xs @ [e]) \<and> (\<forall>e'. e' \<noteq> e \<and> free s xs e' \<longrightarrow> free s' (xs @ [e]) e')"
    and push_front_holds: "holds s xs \<Longrightarrow> free s xs e \<Longrightarrow>
      \<exists>s'. push_front s e = Inr s' \<and> holds s' (e # xs) \<and> (\<forall>e'. e' \<noteq> e \<and> free s xs e' \<longrightarrow> free s' (e # xs) e')"
    and pop_front_holds: "holds s (x # xs) \<Longrightarrow> \<exists>s'. pop_front s = Inr (x, s') \<and> holds s' xs"
    and pop_back_holds: "holds s (xs @ [x]) \<Longrightarrow> \<exists>s'. pop_back s = Inr (x, s') \<and> holds s' xs"
    and pop_front_empty: "holds s [] \<Longrightarrow> pop_front s = Inl Assertion_failed"
begin

primrec push_all :: "'e list \<Rightarrow> 's \<Rightarrow> 's result" where
  "push_all [] s = Inr s"
| "push_all (e # es) s = rbind (push_back s e) (push_all es)"

primrec pop_n :: "nat \<Rightarrow> 's \<Rightarrow> ('e list \<times> 's) result" where
  "pop_n 0 s = Inr ([], s)"
| "pop_n (Suc n) s = rbind (pop_front s) (\<lambda>(x, s). rbind (pop_n n s) (\<lambda>(xs, s). Inr (x # xs, s)))"

lemma push_all_holds:
  assumes "holds s xs" "distinct es" "\<forall>e \<in> set es. free s xs e"
  shows "\<exists>s'. push_all es s = Inr s' \<and> holds s' (xs @ es)"
  using assms
proof (induction es arbitrary: s xs)
  case (Cons e es)
  from push_back_holds [of s xs e] Cons.prems obtain s1 where s1: "push_back s e = Inr s1" "holds s1 (xs @ [e])"
    "\<forall>e'. e' \<noteq> e \<and> free s xs e' \<longrightarrow> free s1 (xs @ [e]) e'" by auto
  then have "\<exists>s'. push_all es s1 = Inr s' \<and> holds s' ((xs @ [e]) @ es)"
    using Cons.prems by (intro Cons.IH) auto
  with s1 show ?case by auto
qed simp

lemma pop_n_holds:
  assumes "holds s (xs @ ys)"
  shows "\<exists>s'. pop_n (length xs) s = Inr (xs, s') \<and> holds s' ys"
  using assms
proof (induction xs arbitrary: s)
  case (Cons x xs)
  from pop_front_holds [of s x "xs @ ys"] Cons.prems obtain s1 where s1: "pop_front s = Inr (x, s1)" "holds s1 (xs @ ys)"
    by auto
  with Cons.IH [OF s1(2)] show ?case by auto
qed simp

text \<open>First in, first out.\<close>

lemma fifo:
  assumes "holds s []" "distinct es" "\<forall>e \<in> set es. free s [] e"
  shows "\<exists>s' s''. push_all es s = Inr s' \<and> pop_n (length es) s' = Inr (es, s'') \<and> holds s'' []"
  using push_all_holds [OF assms] pop_n_holds [of _ es "[]"] by fastforce

end

interpretation kl: deque "\<lambda>h. dlist h l" "\<lambda>h xs e. e \<noteq> 0 \<and> e \<notin> set (nodes l xs)"
    "\<lambda>h. list_push_back h l" "\<lambda>h. list_push_front h l" "\<lambda>h. list_pop_front h l" "\<lambda>h. list_pop_back h l" for l
proof (unfold_locales, goal_cases)
  case (1 s xs e)
  then show ?case using list_push_back_ok [of s l xs e] by (auto simp: nodes_def)
next
  case (2 s xs e)
  then show ?case using list_push_front_ok [of s l xs e] by (auto simp: nodes_def)
next
  case (3 s x xs)
  then show ?case using list_pop_front_ok by blast
next
  case (4 s xs x)
  then show ?case using list_pop_back_ok by blast
next
  case (5 s)
  then show ?case by (rule list_pop_empty)
qed


subsection \<open>Properties\<close>

text \<open>A concrete memory: the list at 100 holds the elements 23, 37 and 15, the list at 200 is empty.\<close>

definition sample_heap :: list_heap where
  "sample_heap = \<lparr>prev_of = (\<lambda>_. 0)(23 := 100, 37 := 23, 15 := 37, 108 := 15, 208 := 200),
     next_of = (\<lambda>_. 0)(100 := 23, 23 := 37, 37 := 15, 15 := 108, 200 := 208)\<rparr>"

lemma sample_lists: "dlist sample_heap 100 [23, 37, 15]" "dlist sample_heap 200 []"
  by (simp_all add: sample_heap_def dlist_def nodes_def tail_of_def link_def)

text \<open>Inserting an element anywhere in a list puts it there, and removing it again gives the list
  back and returns the element that followed; neither operation changes links outside the list.\<close>

theorem list_insert_remove:
  assumes "dlist h l (xs @ ys)" "e \<noteq> 0" "e \<notin> set (nodes l (xs @ ys))"
  shows "\<exists>h' h''. list_insert h (hd (ys @ [tail_of l])) e = Inr h' \<and> dlist h' l (xs @ e # ys)
    \<and> list_remove h' e = Inr (hd (ys @ [tail_of l]), h'') \<and> dlist h'' l (xs @ ys)
    \<and> frame (insert e (set (nodes l (xs @ ys)))) h h''"
proof -
  obtain h' where i: "list_insert h (hd (ys @ [tail_of l])) e = Inr h'" "dlist h' l (xs @ e # ys)"
    "frame (insert e (set (nodes l (xs @ ys)))) h h'" using list_insert_ok [OF assms] by blast
  obtain h'' where r: "list_remove h' e = Inr (hd (ys @ [tail_of l]), h'')" "dlist h'' l (xs @ ys)"
    "frame (set (nodes l (xs @ ys))) h' h''" using list_remove_ok [OF i(2)] by blast
  have "frame (insert e (set (nodes l (xs @ ys)))) h h''" by (rule frame_trans [OF i(3) r(3)]) auto
  with i r show ?thesis by blast
qed

theorem list_insert_remove_witness:
  "\<exists>h' h''. list_insert sample_heap (hd ([37, 15] @ [tail_of 100])) 50 = Inr h' \<and> dlist h' 100 ([23] @ 50 # [37, 15])
    \<and> list_remove h' 50 = Inr (hd ([37, 15] @ [tail_of 100]), h'') \<and> dlist h'' 100 ([23] @ [37, 15])
    \<and> frame (insert 50 (set (nodes 100 ([23] @ [37, 15])))) sample_heap h''"
  by (rule list_insert_remove) (use sample_lists in \<open>simp_all add: nodes_def tail_of_def\<close>)



text \<open>\<^verbatim>\<open>list_reverse\<close> terminates and reverses the list in place; \<^verbatim>\<open>list_size\<close> counts the elements before
  and after.\<close>

theorem list_reverse_reverses:
  assumes "dlist h l xs"
  shows "\<exists>h'. list_reverse h l = Inr h' \<and> dlist h' l (rev xs) \<and> frame (set (nodes l xs)) h h'
    \<and> list_size h l = Inr (length xs) \<and> list_size h' l = Inr (length xs)"
  using list_reverse_ok [OF assms] dlist_size [OF assms] dlist_size [of _ l "rev xs"] by auto

theorem list_reverse_reverses_witness:
  "\<exists>h'. list_reverse sample_heap 100 = Inr h' \<and> dlist h' 100 (rev [23, 37, 15])
    \<and> frame (set (nodes 100 [23, 37, 15])) sample_heap h'
    \<and> list_size sample_heap 100 = Inr (length [23, 37, 15 :: nat]) \<and> list_size h' 100 = Inr (length [23, 37, 15 :: nat])"
  by (rule list_reverse_reverses [OF sample_lists(1)])

text \<open>A list used with \<^verbatim>\<open>list_push_back\<close> and \<^verbatim>\<open>list_pop_front\<close> is a queue: what was pushed is popped
  in the same order; popping the empty list afterwards fails the assertion in \<^verbatim>\<open>list_front\<close>.\<close>

theorem list_is_fifo:
  assumes "dlist h l []" "distinct es" "\<forall>e \<in> set es. e \<noteq> 0 \<and> e \<notin> set (nodes l [])"
  shows "\<exists>h' h''. kl.push_all l es h = Inr h' \<and> kl.pop_n l (length es) h' = Inr (es, h'')
    \<and> list_pop_front h'' l = Inl Assertion_failed"
  using kl.fifo [OF assms] list_pop_empty(1) by blast

theorem list_is_fifo_witness:
  "\<exists>h' h''. kl.push_all 200 [50, 40, 60] sample_heap = Inr h' \<and> kl.pop_n 200 (length [50, 40, 60 :: nat]) h' = Inr ([50, 40, 60], h'')
    \<and> list_pop_front h'' 200 = Inl Assertion_failed"
  by (rule list_is_fifo) (use sample_lists in \<open>simp_all add: nodes_def tail_of_def\<close>)

end
