(* ===== verification/List_Sort.thy ===== *)
theory List_Sort
  imports Kernel_List "HOL-Library.Multiset"
begin

text \<open>
  Operations on lists with ordered elements, from \<^verbatim>\<open>lib/kernel/list.c\<close>: the natural merge sort
  \<^verbatim>\<open>list_sort\<close> with its helpers, ordered insertion, removal of duplicates, maximum and minimum. The
  comparison function together with its auxiliary data is a parameter \<open>lt\<close> (\<^verbatim>\<open>less\<close>) on elements; what the
  code relies on of it, a strict weak order, is the predicate \<open>weak_order\<close>. All pointer steps are
  the code's, and so are the assertions, which the lemmas show never to fail.
\<close>

partial_function (option) is_sorted_loop ::
    "list_heap \<Rightarrow> (nat \<Rightarrow> nat \<Rightarrow> bool) \<Rightarrow> nat \<Rightarrow> nat \<Rightarrow> bool result option" where
  "is_sorted_loop h lt a b =
     obind (list_next h a) (\<lambda>a.
       if a \<noteq> b then
         obind (list_prev h a) (\<lambda>p. if lt a p then Some (Inr False) else is_sorted_loop h lt a b)
       else Some (Inr True))"

definition is_sorted :: "list_heap \<Rightarrow> nat \<Rightarrow> nat \<Rightarrow> (nat \<Rightarrow> nat \<Rightarrow> bool) \<Rightarrow> bool result" where
  "is_sorted h a b lt = (if a \<noteq> b then returns (is_sorted_loop h lt a b) else Inr True)"

partial_function (option) run_loop ::
    "list_heap \<Rightarrow> (nat \<Rightarrow> nat \<Rightarrow> bool) \<Rightarrow> nat \<Rightarrow> nat \<Rightarrow> nat result option" where
  "run_loop h lt a b =
     obind (list_next h a) (\<lambda>a.
       if a \<noteq> b then
         obind (list_prev h a) (\<lambda>p. if \<not> lt a p then run_loop h lt a b else Some (Inr a))
       else Some (Inr a))"

definition find_end_of_run :: "list_heap \<Rightarrow> nat \<Rightarrow> nat \<Rightarrow> (nat \<Rightarrow> nat \<Rightarrow> bool) \<Rightarrow> nat result" where
  "find_end_of_run h a b lt =
     c_assert (a \<noteq> 0) (c_assert (b \<noteq> 0) (c_assert (a \<noteq> b) (returns (run_loop h lt a b))))"

partial_function (option) merge_loop ::
    "list_heap \<Rightarrow> (nat \<Rightarrow> nat \<Rightarrow> bool) \<Rightarrow> nat \<Rightarrow> nat \<Rightarrow> nat \<Rightarrow> list_heap result option" where
  "merge_loop h lt a0 a1b0 b1 =
     (if a0 \<noteq> a1b0 \<and> a1b0 \<noteq> b1 then
        if \<not> lt a1b0 a0 then obind (list_next h a0) (\<lambda>a0. merge_loop h lt a0 a1b0 b1)
        else obind (list_next h a1b0) (\<lambda>a1b0. obind (list_prev h a1b0) (\<lambda>p.
               obind (list_splice h a0 p a1b0) (\<lambda>h. merge_loop h lt a0 a1b0 b1)))
      else Some (Inr h))"

definition inplace_merge ::
    "list_heap \<Rightarrow> nat \<Rightarrow> nat \<Rightarrow> nat \<Rightarrow> (nat \<Rightarrow> nat \<Rightarrow> bool) \<Rightarrow> list_heap result" where
  "inplace_merge h a0 a1b0 b1 lt =
     c_assert (a0 \<noteq> 0) (c_assert (a1b0 \<noteq> 0) (c_assert (b1 \<noteq> 0)
      (rbind (is_sorted h a0 a1b0 lt) (\<lambda>s1. c_assert s1
        (rbind (is_sorted h a1b0 b1 lt) (\<lambda>s2. c_assert s2
          (returns (merge_loop h lt a0 a1b0 b1))))))))"

text \<open>One pass of \<^verbatim>\<open>list_sort\<close>, with \<^verbatim>\<open>output_run_cnt\<close>, and the passes.\<close>

partial_function (option) pass_loop ::
    "list_heap \<Rightarrow> nat \<Rightarrow> (nat \<Rightarrow> nat \<Rightarrow> bool) \<Rightarrow> nat \<Rightarrow> nat \<Rightarrow> (nat \<times> list_heap) result option" where
  "pass_loop h l lt a0 cnt =
     (if a0 \<noteq> tail_of l then
        obind (find_end_of_run h a0 (tail_of l) lt) (\<lambda>a1b0.
          if a1b0 = tail_of l then Some (Inr (cnt + 1, h))
          else obind (find_end_of_run h a1b0 (tail_of l) lt) (\<lambda>b1.
                 obind (inplace_merge h a0 a1b0 b1 lt) (\<lambda>h. pass_loop h l lt b1 (cnt + 1))))
      else Some (Inr (cnt, h)))"

partial_function (option) sort_loop ::
    "list_heap \<Rightarrow> nat \<Rightarrow> (nat \<Rightarrow> nat \<Rightarrow> bool) \<Rightarrow> list_heap result option" where
  "sort_loop h l lt =
     obind (rbind (list_begin h l) (\<lambda>a0. returns (pass_loop h l lt a0 0))) (\<lambda>r.
       if fst r > 1 then sort_loop (snd r) l lt else Some (Inr (snd r)))"

definition list_sort :: "list_heap \<Rightarrow> nat \<Rightarrow> (nat \<Rightarrow> nat \<Rightarrow> bool) \<Rightarrow> list_heap result" where
  "list_sort h l lt =
     c_assert (l \<noteq> 0) (rbind (returns (sort_loop h l lt)) (\<lambda>h.
       rbind (list_begin h l) (\<lambda>b. rbind (is_sorted h b (tail_of l) lt) (\<lambda>s. c_assert s (Inr h)))))"

partial_function (option) insert_ordered_loop ::
    "list_heap \<Rightarrow> nat \<Rightarrow> (nat \<Rightarrow> nat \<Rightarrow> bool) \<Rightarrow> nat \<Rightarrow> nat \<Rightarrow> nat result option" where
  "insert_ordered_loop h l lt elem e =
     (if e \<noteq> tail_of l then
        if lt elem e then Some (Inr e)
        else obind (list_next h e) (\<lambda>e. insert_ordered_loop h l lt elem e)
      else Some (Inr e))"

definition list_insert_ordered ::
    "list_heap \<Rightarrow> nat \<Rightarrow> nat \<Rightarrow> (nat \<Rightarrow> nat \<Rightarrow> bool) \<Rightarrow> list_heap result" where
  "list_insert_ordered h l elem lt =
     c_assert (l \<noteq> 0) (c_assert (elem \<noteq> 0)
      (rbind (list_begin h l) (\<lambda>b. rbind (returns (insert_ordered_loop h l lt elem b)) (\<lambda>e.
        list_insert h e elem))))"

text \<open>\<open>dups\<close> is \<^verbatim>\<open>duplicates\<close>, with 0 the null pointer.\<close>

partial_function (option) unique_loop ::
    "list_heap \<Rightarrow> nat \<Rightarrow> nat \<Rightarrow> (nat \<Rightarrow> nat \<Rightarrow> bool) \<Rightarrow> nat \<Rightarrow> list_heap result option" where
  "unique_loop h l dups lt elem =
     obind (list_next h elem) (\<lambda>nxt.
       if nxt \<noteq> tail_of l then
         if \<not> lt elem nxt \<and> \<not> lt nxt elem then
           obind (list_remove h nxt) (\<lambda>r.
             obind (if dups \<noteq> 0 then list_push_back (snd r) dups nxt else Inr (snd r)) (\<lambda>h.
               unique_loop h l dups lt elem))
         else unique_loop h l dups lt nxt
       else Some (Inr h))"

definition list_unique ::
    "list_heap \<Rightarrow> nat \<Rightarrow> nat \<Rightarrow> (nat \<Rightarrow> nat \<Rightarrow> bool) \<Rightarrow> list_heap result" where
  "list_unique h l dups lt =
     c_assert (l \<noteq> 0) (rbind (list_empty h l) (\<lambda>b. if b then Inr h else
       rbind (list_begin h l) (\<lambda>e. returns (unique_loop h l dups lt e))))"

partial_function (option) max_loop ::
    "list_heap \<Rightarrow> nat \<Rightarrow> (nat \<Rightarrow> nat \<Rightarrow> bool) \<Rightarrow> nat \<Rightarrow> nat \<Rightarrow> nat result option" where
  "max_loop h l lt mx e =
     (if e \<noteq> tail_of l then
        obind (list_next h e) (\<lambda>e'. max_loop h l lt (if lt mx e then e else mx) e')
      else Some (Inr mx))"

definition list_max :: "list_heap \<Rightarrow> nat \<Rightarrow> (nat \<Rightarrow> nat \<Rightarrow> bool) \<Rightarrow> nat result" where
  "list_max h l lt =
     rbind (list_begin h l) (\<lambda>mx. if mx \<noteq> tail_of l then
       rbind (list_next h mx) (\<lambda>e. returns (max_loop h l lt mx e)) else Inr mx)"

partial_function (option) min_loop ::
    "list_heap \<Rightarrow> nat \<Rightarrow> (nat \<Rightarrow> nat \<Rightarrow> bool) \<Rightarrow> nat \<Rightarrow> nat \<Rightarrow> nat result option" where
  "min_loop h l lt mn e =
     (if e \<noteq> tail_of l then
        obind (list_next h e) (\<lambda>e'. min_loop h l lt (if lt e mn then e else mn) e')
      else Some (Inr mn))"

definition list_min :: "list_heap \<Rightarrow> nat \<Rightarrow> (nat \<Rightarrow> nat \<Rightarrow> bool) \<Rightarrow> nat result" where
  "list_min h l lt =
     rbind (list_begin h l) (\<lambda>mn. if mn \<noteq> tail_of l then
       rbind (list_next h mn) (\<lambda>e. returns (min_loop h l lt mn e)) else Inr mn)"

declare is_sorted_loop.simps [code] run_loop.simps [code] merge_loop.simps [code] pass_loop.simps [code]
  sort_loop.simps [code] insert_ordered_loop.simps [code] unique_loop.simps [code] max_loop.simps [code] min_loop.simps [code]



subsection \<open>Walking over a segment\<close>

definition in_order :: "(nat \<Rightarrow> nat \<Rightarrow> bool) \<Rightarrow> nat list \<Rightarrow> bool" where
  "in_order lt xs = successively (\<lambda>a b. \<not> lt b a) xs"

definition weak_order :: "(nat \<Rightarrow> nat \<Rightarrow> bool) \<Rightarrow> bool" where
  "weak_order lt \<longleftrightarrow> (\<forall>a b. lt a b \<longrightarrow> \<not> lt b a) \<and> (\<forall>a b c. \<not> lt b a \<longrightarrow> \<not> lt c b \<longrightarrow> \<not> lt c a)"

lemma in_order_simps [simp]:
  "in_order lt []" "in_order lt [x]" "in_order lt (x # y # zs) \<longleftrightarrow> \<not> lt y x \<and> in_order lt (y # zs)"
  by (simp_all add: in_order_def)

text \<open>The pointer behind a segment, when \<open>S\<close> follows it.\<close>

abbreviation after :: "nat \<Rightarrow> nat list \<Rightarrow> nat" where
  "after l S \<equiv> hd (S @ [tail_of l])"

lemma after_fresh: "dlist h l (P @ x # xs @ S) \<Longrightarrow> x \<noteq> after l S"
  by (cases S) (auto simp: dlist_def nodes_def)

lemma after_nonzero: "dlist h l (P @ S) \<Longrightarrow> after l S \<noteq> 0"
  by (cases S) (auto simp: dlist_def nodes_def)

lemma dlist_prev_after: "dlist h l (P @ e # S) \<Longrightarrow> list_prev h (after l S) = Inr e"
  using dlist_prev_end [of h l P e] dlist_prev [of h l "P @ [e]" "hd S" "tl S"] by (cases S) auto

lemma is_sorted_loop_run:
  "dlist h l (P @ x # xs @ S) \<Longrightarrow>
     is_sorted_loop h lt x (after l S) = Some (Inr (in_order lt (x # xs)))"
proof (induction xs arbitrary: P x)
  case Nil
  then show ?case using dlist_next [of h l P x S] by (simp add: is_sorted_loop.simps)
next
  case (Cons y ys)
  have d: "dlist h l ((P @ [x]) @ y # ys @ S)" using Cons.prems by simp
  from Cons.IH [OF d] show ?case
    using dlist_next [of h l P x "y # ys @ S"] dlist_prev [of h l "P @ [x]" y "ys @ S"] after_fresh [OF d] Cons.prems
    by (simp add: is_sorted_loop.simps [of h lt x])
qed

lemma is_sorted_ok:
  "dlist h l (P @ xs @ S) \<Longrightarrow> is_sorted h (after l (xs @ S)) (after l S) lt = Inr (in_order lt xs)"
  using is_sorted_loop_run [of h l P _ _ S] after_fresh [of h l P _ _ S] by (cases xs) (auto simp: is_sorted_def)

lemma run_loop_run:
  "dlist h l (P @ x # xs) \<Longrightarrow> \<exists>r s. xs = r @ s \<and> in_order lt (x # r)
     \<and> (s \<noteq> [] \<longrightarrow> lt (hd s) (last (x # r))) \<and> run_loop h lt x (tail_of l) = Some (Inr (after l s))"
proof (induction xs arbitrary: P x)
  case Nil
  then show ?case using dlist_next [of h l P x "[]"] by (simp add: run_loop.simps)
next
  case (Cons y ys)
  have d: "dlist h l ((P @ [x]) @ y # ys)" using Cons.prems by simp
  have step: "run_loop h lt x (tail_of l) = (if \<not> lt y x then run_loop h lt y (tail_of l) else Some (Inr y))"
    using dlist_next [of h l P x "y # ys"] dlist_prev [OF d] dlist_at(4) [OF d] Cons.prems
    by (simp add: run_loop.simps [of h lt x])
  show ?case
  proof (cases "lt y x")
    case True
    then show ?thesis using step by (intro exI [of _ "[]"] exI [of _ "y # ys"]) simp
  next
    case False
    from Cons.IH [OF d] obtain r s where "ys = r @ s" "in_order lt (y # r)"
      "s \<noteq> [] \<longrightarrow> lt (hd s) (last (y # r))" "run_loop h lt y (tail_of l) = Some (Inr (after l s))" by blast
    then show ?thesis using step False by (intro exI [of _ "y # r"] exI [of _ s]) simp
  qed
qed

lemma find_end_of_run_ok:
  assumes d: "dlist h l (P @ x # xs)"
  obtains r s where "xs = r @ s" "in_order lt (x # r)" "s \<noteq> [] \<longrightarrow> lt (hd s) (last (x # r))"
    "find_end_of_run h x (tail_of l) lt = Inr (after l s)"
proof -
  have "x \<noteq> 0" "x \<noteq> tail_of l" using d by (auto simp: dlist_def nodes_def)
  moreover obtain r s where "xs = r @ s" "in_order lt (x # r)" "s \<noteq> [] \<longrightarrow> lt (hd s) (last (x # r))"
    "run_loop h lt x (tail_of l) = Some (Inr (after l s))" using run_loop_run [OF d, of lt] by blast
  ultimately show ?thesis by (intro that [of r s]) (simp_all add: find_end_of_run_def)
qed


subsection \<open>Merging\<close>

fun merge :: "(nat \<Rightarrow> nat \<Rightarrow> bool) \<Rightarrow> nat list \<Rightarrow> nat list \<Rightarrow> nat list" where
  "merge lt [] ys = ys"
| "merge lt (x # xs) [] = x # xs"
| "merge lt (x # xs) (y # ys) = (if \<not> lt y x then x # merge lt xs (y # ys) else y # merge lt (x # xs) ys)"

lemma merge_Nil2 [simp]: "merge lt xs [] = xs"
  by (cases xs) auto

lemma mset_merge [simp]: "mset (merge lt xs ys) = mset xs + mset ys"
  by (induction lt xs ys rule: merge.induct) auto

lemma in_order_Cons: "in_order lt (x # xs) \<longleftrightarrow> (xs \<noteq> [] \<longrightarrow> \<not> lt (hd xs) x) \<and> in_order lt xs"
  by (cases xs) auto

lemma hd_merge:
  "xs \<noteq> [] \<or> ys \<noteq> [] \<Longrightarrow> hd (merge lt xs ys) = (if xs = [] then hd ys else if ys = [] then hd xs
     else if \<not> lt (hd ys) (hd xs) then hd xs else hd ys)"
  by (cases "(lt, xs, ys)" rule: merge.cases) auto

lemma merge_eq_Nil [simp]: "merge lt xs ys = [] \<longleftrightarrow> xs = [] \<and> ys = []"
  by (metis mset_merge mset_zero_iff union_eq_empty)

lemma in_order_merge:
  assumes "weak_order lt" "in_order lt xs" "in_order lt ys"
  shows "in_order lt (merge lt xs ys)"
  using assms
proof (induction lt xs ys rule: merge.induct)
  case (3 lt x xs y ys)
  have xy: "in_order lt xs" "xs \<noteq> [] \<longrightarrow> \<not> lt (hd xs) x" "in_order lt ys" "ys \<noteq> [] \<longrightarrow> \<not> lt (hd ys) y"
    using "3.prems"(2,3) unfolding in_order_Cons by blast+
  show ?case
  proof (cases "lt y x")
    case False
    moreover have "\<not> lt (hd (merge lt xs (y # ys))) x" using xy(2) False by (simp add: hd_merge)
    moreover have "in_order lt (merge lt xs (y # ys))" using "3.IH"(1) "3.prems" False xy(1) by blast
    ultimately show ?thesis by (simp add: in_order_Cons)
  next
    case True
    moreover have "\<not> lt x y" using True "3.prems"(1) unfolding weak_order_def by blast
    then have "\<not> lt (hd (merge lt (x # xs) ys)) y" using xy(4) by (simp add: hd_merge)
    moreover have "in_order lt (merge lt (x # xs) ys)" using "3.IH"(2) "3.prems" True xy(3) by blast
    ultimately show ?thesis by (simp add: in_order_Cons)
  qed
qed auto

lemma in_order_sorted:
  assumes "weak_order lt" "in_order lt xs"
  shows "sorted_wrt (\<lambda>a b. \<not> lt b a) xs"
proof -
  have "transp (\<lambda>a b. \<not> lt b a)" using assms(1) unfolding weak_order_def transp_def by blast
  then show ?thesis using assms(2) successively_conv_sorted_wrt unfolding in_order_def by blast
qed

lemma merge_loop_run:
  "dlist h l (P @ A @ B @ S) \<Longrightarrow>
     \<exists>h'. merge_loop h lt (after l (A @ B @ S)) (after l (B @ S)) (after l S) = Some (Inr h')
       \<and> dlist h' l (P @ merge lt A B @ S) \<and> frame (set (nodes l (P @ A @ B @ S))) h h'"
proof (induction lt A B arbitrary: P h rule: merge.induct)
  case (1 lt ys)
  then show ?case by (simp add: merge_loop.simps)
next
  case (2 lt x xs)
  then show ?case by (simp add: merge_loop.simps)
next
  case (3 lt x xs y ys)
  have ne: "x \<noteq> y" "y \<noteq> after l S"
    using "3.prems" after_fresh [of h l "P @ x # xs" y ys S] by (auto simp: dlist_def nodes_def)
  show ?case
  proof (cases "lt y x")
    case False
    have "dlist h l ((P @ [x]) @ xs @ (y # ys) @ S)" using "3.prems" by simp
    from "3.IH"(1) [OF False this] show ?thesis
      using ne False dlist_next [of h l P x "xs @ (y # ys) @ S"] "3.prems"
      by (simp add: merge_loop.simps [of h lt x])
  next
    case True
    have d: "dlist h l ((P @ x # xs) @ y # ys @ S)" using "3.prems" by simp
    have "dlist h l (P @ (x # xs) @ [y] @ (ys @ S))" using "3.prems" by simp
    from list_splice_ok [OF this] obtain h1 where h1: "list_splice h x y (after l (ys @ S)) = Inr h1"
      "dlist h1 l ((P @ [y]) @ (x # xs) @ ys @ S)" "frame (set (nodes l (P @ x # xs @ y # ys @ S))) h h1" by auto
    from "3.IH"(2) [of h1 "P @ [y]"] True h1(2) obtain h2 where
      h2: "merge_loop h1 lt x (after l (ys @ S)) (after l S) = Some (Inr h2)"
        "dlist h2 l (P @ y # merge lt (x # xs) ys @ S)" "frame (set (nodes l (P @ y # x # xs @ ys @ S))) h1 h2"
      by auto
    have "frame (set (nodes l (P @ (x # xs) @ (y # ys) @ S))) h h2"
      by (rule frame_trans [OF h1(3) h2(3)]) (auto simp: nodes_def)
    then show ?thesis
      using ne True dlist_next [OF d] dlist_prev_after [OF d] h1(1) h2(1,2)
      by (simp add: merge_loop.simps [of h lt x])
  qed
qed

lemma inplace_merge_ok:
  assumes d: "dlist h l (P @ A @ B @ S)" and o: "in_order lt A" "in_order lt B"
  shows "\<exists>h'. inplace_merge h (after l (A @ B @ S)) (after l (B @ S)) (after l S) lt = Inr h'
    \<and> dlist h' l (P @ merge lt A B @ S) \<and> frame (set (nodes l (P @ A @ B @ S))) h h'"
proof -
  have "dlist h l ((P @ A) @ B @ S)" "dlist h l ((P @ A @ B) @ S)" using d by simp_all
  then show ?thesis
    using merge_loop_run [OF d, of lt] is_sorted_ok [OF d, of lt] is_sorted_ok [of h l "P @ A" B S lt] o
      after_nonzero [OF d] after_nonzero [of h l "P @ A" "B @ S"] after_nonzero [of h l "P @ A @ B" S]
    by (auto simp: inplace_merge_def)
qed


subsection \<open>The sort\<close>

text \<open>The number of maximal runs decides how often the passes repeat.\<close>

fun runs :: "(nat \<Rightarrow> nat \<Rightarrow> bool) \<Rightarrow> nat list \<Rightarrow> nat" where
  "runs lt [] = 0"
| "runs lt [x] = 1"
| "runs lt (x # y # zs) = (if lt y x then 1 else 0) + runs lt (y # zs)"

lemma runs_pos: "xs \<noteq> [] \<Longrightarrow> 1 \<le> runs lt xs"
  by (induction lt xs rule: runs.induct) auto

lemma runs_in_order: "in_order lt xs \<Longrightarrow> runs lt xs \<le> 1"
  by (induction lt xs rule: runs.induct) auto

lemma one_run_in_order: "runs lt xs \<le> 1 \<Longrightarrow> in_order lt xs"
proof (induction lt xs rule: runs.induct)
  case (3 lt x y zs)
  then show ?case using runs_pos [of "y # zs" lt] by (auto split: if_splits)
qed auto

lemma runs_append: "runs lt (xs @ ys) \<le> runs lt xs + runs lt ys"
proof (induction lt xs rule: runs.induct)
  case (2 lt x)
  then show ?case by (cases ys) auto
qed auto

lemma runs_split:
  "in_order lt (x # r) \<Longrightarrow> s \<noteq> [] \<Longrightarrow> lt (hd s) (last (x # r)) \<Longrightarrow> runs lt (x # r @ s) = 1 + runs lt s"
proof (induction r arbitrary: x)
  case Nil
  then show ?case by (cases s) auto
qed auto

lemma pass_loop_run:
  assumes w: "weak_order lt"
  shows "dlist h l (P @ xs) \<Longrightarrow> \<exists>h' ys n. pass_loop h l lt (after l xs) c = Some (Inr (c + n, h'))
    \<and> dlist h' l (P @ ys) \<and> frame (set (nodes l (P @ xs))) h h' \<and> mset ys = mset xs
    \<and> runs lt ys \<le> n \<and> 2 * n \<le> runs lt xs + 1"
proof (induction "length xs" arbitrary: xs P h c rule: less_induct)
  case less
  show ?case
  proof (cases xs)
    case Nil
    then show ?thesis using less.prems
      by (intro exI [of _ h] exI [of _ "[]"] exI [of _ 0]) (simp add: pass_loop.simps)
  next
    case (Cons x xs')
    have d: "dlist h l (P @ x # xs')" using less.prems Cons by simp
    obtain r s where rs: "xs' = r @ s" "in_order lt (x # r)" "s \<noteq> [] \<longrightarrow> lt (hd s) (last (x # r))"
      "find_end_of_run h x (tail_of l) lt = Inr (after l s)" by (rule find_end_of_run_ok [OF d])
    have x: "x \<noteq> tail_of l" using dlist_at(4) [OF d] .
    show ?thesis
    proof (cases s)
      case Nil
      have "runs lt xs = 1" using runs_in_order [OF rs(2)] runs_pos [of "x # r" lt] Cons rs(1) Nil by simp
      then show ?thesis using less.prems Cons rs x Nil
        by (intro exI [of _ h] exI [of _ xs] exI [of _ 1]) (simp add: pass_loop.simps [of h l lt x])
    next
      case s: (Cons y s')
      have d2: "dlist h l ((P @ x # r) @ y # s')" using d rs(1) s by simp
      obtain r2 s2 where rs2: "s' = r2 @ s2" "in_order lt (y # r2)" "s2 \<noteq> [] \<longrightarrow> lt (hd s2) (last (y # r2))"
        "find_end_of_run h y (tail_of l) lt = Inr (after l s2)" by (rule find_end_of_run_ok [OF d2])
      let ?m = "merge lt (x # r) (y # r2)"
      have "dlist h l (P @ (x # r) @ (y # r2) @ s2)" using d2 rs2(1) by simp
      from inplace_merge_ok [OF this rs(2) rs2(2)] obtain h1 where
        h1: "inplace_merge h x y (after l s2) lt = Inr h1" "dlist h1 l ((P @ ?m) @ s2)"
          "frame (set (nodes l (P @ xs))) h h1" using Cons rs(1) rs2(1) s by auto
      have len: "length s2 < length xs" using Cons rs(1) rs2(1) s by simp
      from less.hyps [OF len h1(2), of "c + 1"] obtain h2 ys n where
        h2: "pass_loop h1 l lt (after l s2) (c + 1) = Some (Inr (c + 1 + n, h2))" "dlist h2 l (P @ ?m @ ys)"
          "frame (set (nodes l ((P @ ?m) @ s2))) h1 h2" "mset ys = mset s2" "runs lt ys \<le> n" "2 * n \<le> runs lt s2 + 1"
        by auto
      have "pass_loop h l lt x c = Some (Inr (c + Suc n, h2))"
        using x rs(4) rs2(4) s h1(1) h2(1) dlist_at(4) [OF d2] by (simp add: pass_loop.simps [of h l lt x])
      moreover have "frame (set (nodes l (P @ xs))) h h2"
      proof (rule frame_trans [OF h1(3) h2(3)])
        have "set ?m = set (x # r) \<union> set (y # r2)" by (metis mset_merge set_mset_mset set_mset_union)
        then show "set (nodes l ((P @ ?m) @ s2)) \<subseteq> set (nodes l (P @ xs))"
          using Cons rs(1) rs2(1) s by (auto simp: nodes_def)
      qed simp
      moreover have "mset (?m @ ys) = mset xs" using Cons rs(1) rs2(1) s h2(4) by simp
      moreover have "runs lt (?m @ ys) \<le> Suc n"
        using runs_append [of lt ?m ys] runs_in_order [OF in_order_merge [OF w rs(2) rs2(2)]] h2(5) by simp
      moreover have "2 * Suc n \<le> runs lt xs + 1"
      proof -
        have "runs lt xs = 1 + runs lt s" using runs_split [OF rs(2)] rs(1,3) s Cons by simp
        moreover have "runs lt s = 1 + runs lt s2"
          using runs_split [OF rs2(2)] rs2(1,3) s runs_in_order [OF rs2(2)] runs_pos [of "y # r2" lt] by (cases "s2 = []") auto
        ultimately show ?thesis using h2(6) by simp
      qed
      ultimately show ?thesis using Cons h2(2) by (intro exI [of _ h2] exI [of _ "?m @ ys"] exI [of _ "Suc n"]) auto
    qed
  qed
qed

lemma sort_loop_run:
  assumes w: "weak_order lt"
  shows "dlist h l xs \<Longrightarrow> \<exists>h' ys. sort_loop h l lt = Some (Inr h') \<and> dlist h' l ys
    \<and> frame (set (nodes l xs)) h h' \<and> mset ys = mset xs \<and> in_order lt ys"
proof (induction "runs lt xs" arbitrary: xs h rule: less_induct)
  case less
  obtain h1 ys n where p: "pass_loop h l lt (after l xs) 0 = Some (Inr (n, h1))" "dlist h1 l ys"
    "frame (set (nodes l xs)) h h1" "mset ys = mset xs" "runs lt ys \<le> n" "2 * n \<le> runs lt xs + 1"
    using pass_loop_run [OF w, of h l "[]" xs 0] less.prems by auto
  have step: "sort_loop h l lt = (if n > 1 then sort_loop h1 l lt else Some (Inr h1))"
    using dlist_begin [OF less.prems] p(1) by (subst sort_loop.simps) simp
  show ?case
  proof (cases "n > 1")
    case True
    then have "runs lt ys < runs lt xs" using p(5,6) by linarith
    from less.hyps [OF this p(2)] obtain h2 zs where z: "sort_loop h1 l lt = Some (Inr h2)" "dlist h2 l zs"
      "frame (set (nodes l ys)) h1 h2" "mset zs = mset ys" "in_order lt zs" by auto
    have "set (nodes l ys) = set (nodes l xs)" using mset_eq_setD [OF p(4)] by (simp add: nodes_def)
    then have "frame (set (nodes l xs)) h h2" using frame_trans [OF p(3) z(3)] by simp
    then show ?thesis using z step True p(4) by auto
  next
    case False
    then have "in_order lt ys" using p(5) by (intro one_run_in_order) simp
    then show ?thesis using p step False by auto
  qed
qed

lemma list_sort_ok:
  assumes w: "weak_order lt" and d: "dlist h l xs"
  shows "\<exists>h' ys. list_sort h l lt = Inr h' \<and> dlist h' l ys \<and> mset ys = mset xs \<and> in_order lt ys
    \<and> frame (set (nodes l xs)) h h'"
proof -
  obtain h' ys where r: "sort_loop h l lt = Some (Inr h')" "dlist h' l ys" "frame (set (nodes l xs)) h h'"
    "mset ys = mset xs" "in_order lt ys" using sort_loop_run [OF w d] by blast
  have "is_sorted h' (after l ys) (tail_of l) lt = Inr True"
    using is_sorted_ok [of h' l "[]" ys "[]" lt] r(2,5) by simp
  then show ?thesis using r dlist_begin [OF r(2)] dlist_ends [OF d] by (auto simp: list_sort_def)
qed


subsection \<open>Ordered insertion\<close>

lemma insert_ordered_loop_run:
  "dlist h l (P @ xs) \<Longrightarrow> \<exists>A B. xs = A @ B \<and> (\<forall>a \<in> set A. \<not> lt e a) \<and> (B \<noteq> [] \<longrightarrow> lt e (hd B))
     \<and> insert_ordered_loop h l lt e (after l xs) = Some (Inr (after l B))"
proof (induction xs arbitrary: P)
  case Nil
  then show ?case by (simp add: insert_ordered_loop.simps)
next
  case (Cons x xs)
  have step: "insert_ordered_loop h l lt e x =
      (if lt e x then Some (Inr x) else insert_ordered_loop h l lt e (after l xs))"
    using dlist_next [OF Cons.prems] dlist_at(4) [OF Cons.prems] by (simp add: insert_ordered_loop.simps [of h l lt e x])
  show ?case
  proof (cases "lt e x")
    case True
    then show ?thesis using step by (intro exI [of _ "[]"] exI [of _ "x # xs"]) simp
  next
    case False
    have "dlist h l ((P @ [x]) @ xs)" using Cons.prems by simp
    from Cons.IH [OF this] obtain A B where "xs = A @ B" "\<forall>a \<in> set A. \<not> lt e a" "B \<noteq> [] \<longrightarrow> lt e (hd B)"
      "insert_ordered_loop h l lt e (after l xs) = Some (Inr (after l B))" by blast
    then show ?thesis using step False by (intro exI [of _ "x # A"] exI [of _ B]) simp
  qed
qed

lemma list_insert_ordered_ok:
  assumes d: "dlist h l xs" and e: "e \<noteq> 0" "e \<notin> set (nodes l xs)"
  shows "\<exists>h' A B. xs = A @ B \<and> (\<forall>a \<in> set A. \<not> lt e a) \<and> (B \<noteq> [] \<longrightarrow> lt e (hd B))
    \<and> list_insert_ordered h l e lt = Inr h' \<and> dlist h' l (A @ e # B) \<and> frame (insert e (set (nodes l xs))) h h'"
proof -
  obtain A B where ab: "xs = A @ B" "\<forall>a \<in> set A. \<not> lt e a" "B \<noteq> [] \<longrightarrow> lt e (hd B)"
    "insert_ordered_loop h l lt e (after l xs) = Some (Inr (after l B))"
    using insert_ordered_loop_run [of h l "[]" xs lt e, unfolded append_Nil, OF d] by blast
  obtain h' where "list_insert h (after l B) e = Inr h'" "dlist h' l (A @ e # B)" "frame (insert e (set (nodes l xs))) h h'"
    using list_insert_ok [of h l A B e] d e ab(1) by auto
  then show ?thesis using ab dlist_begin [OF d] dlist_ends [OF d] e(1) by (auto simp: list_insert_ordered_def)
qed

lemma insert_keeps_order:
  assumes w: "weak_order lt" and s: "sorted_wrt (\<lambda>a b. \<not> lt b a) (A @ B)"
    and ab: "\<forall>a \<in> set A. \<not> lt e a" "B \<noteq> [] \<longrightarrow> lt e (hd B)"
  shows "sorted_wrt (\<lambda>a b. \<not> lt b a) (A @ e # B)"
proof -
  have "\<not> lt b e" if "b \<in> set B" for b
  proof -
    have "lt e (hd B)" using that ab(2) by (cases B) auto
    then have "\<not> lt (hd B) e" using w unfolding weak_order_def by blast
    moreover have "b = hd B \<or> \<not> lt b (hd B)" using that s by (cases B) (auto simp: sorted_wrt_append)
    ultimately show ?thesis using w unfolding weak_order_def by blast
  qed
  then show ?thesis using s ab(1) by (auto simp: sorted_wrt_append)
qed


subsection \<open>Duplicates\<close>

text \<open>\<open>uniq\<close> keeps the first of each group of adjacent equal elements, \<open>dups_of\<close> is what it drops.\<close>

fun uniq :: "(nat \<Rightarrow> nat \<Rightarrow> bool) \<Rightarrow> nat list \<Rightarrow> nat list" where
  "uniq lt (x # y # zs) = (if \<not> lt x y \<and> \<not> lt y x then uniq lt (x # zs) else x # uniq lt (y # zs))"
| "uniq lt [] = []"
| "uniq lt [x] = [x]"

fun dups_of :: "(nat \<Rightarrow> nat \<Rightarrow> bool) \<Rightarrow> nat list \<Rightarrow> nat list" where
  "dups_of lt (x # y # zs) = (if \<not> lt x y \<and> \<not> lt y x then y # dups_of lt (x # zs) else dups_of lt (y # zs))"
| "dups_of lt xs = []"

lemma mset_uniq: "mset (uniq lt xs) + mset (dups_of lt xs) = mset xs"
  by (induction lt xs rule: uniq.induct) auto

lemma hd_uniq: "xs \<noteq> [] \<Longrightarrow> hd (uniq lt xs) = hd xs \<and> uniq lt xs \<noteq> []"
  by (induction lt xs rule: uniq.induct) auto

lemma uniq_distinct: "successively (\<lambda>a b. lt a b \<or> lt b a) (uniq lt xs)"
proof (induction lt xs rule: uniq.induct)
  case (1 lt x y zs)
  then show ?case using hd_uniq [of "y # zs" lt] by (auto simp: successively_Cons)
qed auto

definition dups_ok :: "list_heap \<Rightarrow> nat \<Rightarrow> nat list \<Rightarrow> nat \<Rightarrow> nat list \<Rightarrow> bool" where
  "dups_ok h l xs d ds \<longleftrightarrow> d \<noteq> 0 \<longrightarrow> dlist h d ds \<and> set (nodes l xs) \<inter> set (nodes d ds) = {}"

text \<open>Moving one element from the list to the duplicates.\<close>

lemma move_dup:
  assumes d: "dlist h l (P @ y # zs)" and ok: "dups_ok h l (P @ y # zs) d ds"
  shows "\<exists>r h'. list_remove h y = Inr r \<and> (if d \<noteq> 0 then list_push_back (snd r) d y else Inr (snd r)) = Inr h'
    \<and> dlist h' l (P @ zs) \<and> dups_ok h' l (P @ zs) d (ds @ [y])"
proof -
  obtain h1 where h1: "list_remove h y = Inr (after l zs, h1)" "dlist h1 l (P @ zs)"
    "frame (set (nodes l (P @ zs))) h h1" using list_remove_ok [OF d] by blast
  show ?thesis
  proof (cases "d = 0")
    case True
    then show ?thesis using h1 by (simp add: dups_ok_def)
  next
    case False
    have dis: "set (nodes l (P @ zs)) \<inter> set (nodes d ds) = {}" "y \<notin> set (nodes d ds)" "dlist h d ds"
      using ok False by (auto simp: dups_ok_def nodes_def)
    have dd: "dlist h1 d ds" by (rule dlist_frame_disjoint [OF dis(3) h1(3) dis(1)])
    have y: "y \<noteq> 0" "y \<notin> set (nodes l (P @ zs))" using d by (auto simp: dlist_def nodes_def)
    obtain h2 where h2: "list_push_back h1 d y = Inr h2" "dlist h2 d (ds @ [y])" "frame (insert y (set (nodes d ds))) h1 h2"
      using list_push_back_ok [OF dd y(1) dis(2)] by blast
    have "dlist h2 l (P @ zs)"
      by (rule dlist_frame_disjoint [OF h1(2) h2(3)]) (use y dis(1) in auto)
    moreover have "set (nodes l (P @ zs)) \<inter> set (nodes d (ds @ [y])) = {}" using dis(1) y(2) by (auto simp: nodes_def)
    ultimately show ?thesis using h1(1) h2 False by (simp add: dups_ok_def)
  qed
qed

lemma unique_loop_run:
  "dlist h l (P @ xs) \<Longrightarrow> xs \<noteq> [] \<Longrightarrow> dups_ok h l (P @ xs) d ds \<Longrightarrow>
     \<exists>h'. unique_loop h l d lt (hd xs) = Some (Inr h') \<and> dlist h' l (P @ uniq lt xs)
       \<and> dups_ok h' l (P @ uniq lt xs) d (ds @ dups_of lt xs)"
proof (induction lt xs arbitrary: P h ds rule: uniq.induct)
  case (1 lt x y zs)
  have d: "dlist h l (P @ x # y # zs)" "dlist h l ((P @ [x]) @ y # zs)" using "1.prems" by simp_all
  have nx: "list_next h x = Inr y" "y \<noteq> tail_of l" using dlist_next [OF d(1)] dlist_at(4) [OF d(2)] by simp_all
  show ?case
  proof (cases "\<not> lt x y \<and> \<not> lt y x")
    case True
    obtain r h1 where h1: "list_remove h y = Inr r" "(if d \<noteq> 0 then list_push_back (snd r) d y else Inr (snd r)) = Inr h1"
      "dlist h1 l (P @ x # zs)" "dups_ok h1 l (P @ x # zs) d (ds @ [y])"
      using move_dup [OF d(2), of d ds] "1.prems"(3) by auto
    have "unique_loop h l d lt x = unique_loop h1 l d lt x"
      using nx True h1(1,2) by (simp add: unique_loop.simps [of h l d lt x])
    then show ?thesis using "1.IH"(1) [OF True h1(3) _ h1(4)] True by auto
  next
    case False
    have "unique_loop h l d lt x = unique_loop h l d lt y"
      using nx False by (auto simp: unique_loop.simps [of h l d lt x])
    then show ?thesis using "1.IH"(2) [OF False d(2), of ds] "1.prems"(3) False by auto
  qed
next
  case (3 lt x)
  then show ?case using dlist_next [of h l P x "[]"] by (simp add: unique_loop.simps)
qed simp

lemma list_unique_ok:
  assumes d: "dlist h l xs" and ok: "dups_ok h l xs d ds"
  shows "\<exists>h'. list_unique h l d lt = Inr h' \<and> dlist h' l (uniq lt xs)
    \<and> dups_ok h' l (uniq lt xs) d (ds @ dups_of lt xs)"
proof (cases "xs = []")
  case True
  then show ?thesis using dlist_empty [OF d] dlist_ends [OF d] d ok by (simp add: list_unique_def)
next
  case False
  then show ?thesis
    using unique_loop_run [of h l "[]" xs d ds lt] d ok dlist_empty [OF d] dlist_ends [OF d] dlist_begin [OF d]
    by (auto simp: list_unique_def)
qed


subsection \<open>Extreme elements\<close>

text \<open>The first of the largest elements.\<close>

definition first_max :: "(nat \<Rightarrow> nat \<Rightarrow> bool) \<Rightarrow> nat list \<Rightarrow> nat \<Rightarrow> bool" where
  "first_max lt xs m \<longleftrightarrow> (\<exists>A B. xs = A @ m # B \<and> (\<forall>a \<in> set A. lt a m) \<and> (\<forall>b \<in> set B. \<not> lt m b))"

lemma first_max_snoc:
  assumes w: "weak_order lt" and m: "first_max lt xs m"
  shows "first_max lt (xs @ [e]) (if lt m e then e else m)"
proof -
  obtain A B where ab: "xs = A @ m # B" "\<forall>a \<in> set A. lt a m" "\<forall>b \<in> set B. \<not> lt m b"
    using m unfolding first_max_def by blast
  show ?thesis
  proof (cases "lt m e")
    case True
    have "lt x e" if "x \<in> set xs" for x
    proof -
      have "\<not> lt m x" using that ab w unfolding weak_order_def by (metis Un_iff set_ConsD set_append)
      then show ?thesis using True w unfolding weak_order_def by metis
    qed
    then show ?thesis using True unfolding first_max_def by (intro exI [of _ xs] exI [of _ "[]"]) simp
  next
    case False
    then show ?thesis using ab unfolding first_max_def by (intro exI [of _ A] exI [of _ "B @ [e]"]) auto
  qed
qed

lemma max_loop_run:
  assumes w: "weak_order lt"
  shows "dlist h l (P @ xs) \<Longrightarrow> first_max lt P m \<Longrightarrow>
    \<exists>m'. max_loop h l lt m (after l xs) = Some (Inr m') \<and> first_max lt (P @ xs) m'"
proof (induction xs arbitrary: P m)
  case Nil
  then show ?case by (simp add: max_loop.simps)
next
  case (Cons x xs)
  have "max_loop h l lt m x = max_loop h l lt (if lt m x then x else m) (after l xs)"
    using dlist_next [OF Cons.prems(1)] dlist_at(4) [OF Cons.prems(1)] by (simp add: max_loop.simps [of h l lt m x])
  then show ?case
    using Cons.IH [of "P @ [x]" "if lt m x then x else m"] Cons.prems first_max_snoc [OF w Cons.prems(2), of x] by simp
qed

lemma first_max_single: "first_max lt [x] x"
  unfolding first_max_def by (intro exI [of _ "[]"]) simp

lemma list_max_ok:
  assumes w: "weak_order lt" and d: "dlist h l xs" and ne: "xs \<noteq> []"
  shows "\<exists>m. list_max h l lt = Inr m \<and> first_max lt xs m"
proof -
  obtain x xs' where xs: "xs = x # xs'" using ne by (cases xs) auto
  then show ?thesis
    using max_loop_run [OF w, of h l "[x]" xs' x] d first_max_single [of lt x] dlist_begin [OF d]
      dlist_next [of h l "[]" x xs'] dlist_at(4) [of h l "[]" x xs'] by (auto simp: list_max_def)
qed

text \<open>The minimum is the maximum of the reversed order.\<close>

lemma min_loop_run:
  "dlist h l (P @ xs) \<Longrightarrow> min_loop h l lt m (after l xs) = max_loop h l (\<lambda>a b. lt b a) m (after l xs)"
proof (induction xs arbitrary: P m)
  case Nil
  then show ?case by (simp add: max_loop.simps min_loop.simps)
next
  case (Cons x xs)
  have "dlist h l ((P @ [x]) @ xs)" using Cons.prems by simp
  from Cons.IH [OF this] show ?case
    using dlist_next [OF Cons.prems] dlist_at(4) [OF Cons.prems]
    by (simp add: max_loop.simps [of h l _ _ x] min_loop.simps [of h l _ _ x])
qed

lemma list_min_max:
  assumes "dlist h l xs"
  shows "list_min h l lt = list_max h l (\<lambda>a b. lt b a)"
proof (cases xs)
  case Nil
  then show ?thesis using dlist_begin [OF assms] by (simp add: list_min_def list_max_def)
next
  case (Cons x xs')
  then show ?thesis
    using min_loop_run [of h l "[x]" xs' lt x] assms dlist_begin [OF assms] dlist_next [of h l "[]" x xs']
    by (simp add: list_min_def list_max_def)
qed

lemma weak_order_flip: "weak_order lt \<Longrightarrow> weak_order (\<lambda>a b. lt b a)"
  unfolding weak_order_def by blast


subsection \<open>Properties\<close>


definition by_key :: "nat \<Rightarrow> nat \<Rightarrow> bool" where
  "by_key a b \<longleftrightarrow> a mod 20 < b mod 20"

lemma by_key_order: "weak_order by_key"
  by (auto simp: weak_order_def by_key_def)


text \<open>Ordered insertion into a sorted list keeps it sorted, with the new element behind the elements
  equal to it.\<close>

theorem list_insert_ordered_sorted:
  assumes "weak_order lt" "dlist h l xs" "sorted_wrt (\<lambda>a b. \<not> lt b a) xs" "e \<noteq> 0" "e \<notin> set (nodes l xs)"
  shows "\<exists>h' A B. list_insert_ordered h l e lt = Inr h' \<and> xs = A @ B \<and> dlist h' l (A @ e # B)
    \<and> sorted_wrt (\<lambda>a b. \<not> lt b a) (A @ e # B) \<and> (\<forall>b \<in> set B. lt e b)"
proof -
  obtain h' A B where r: "xs = A @ B" "\<forall>a \<in> set A. \<not> lt e a" "B \<noteq> [] \<longrightarrow> lt e (hd B)"
    "list_insert_ordered h l e lt = Inr h'" "dlist h' l (A @ e # B)"
    using list_insert_ordered_ok [OF assms(2,4,5), of lt] by blast
  have s: "sorted_wrt (\<lambda>a b. \<not> lt b a) (A @ e # B)"
    by (rule insert_keeps_order [OF assms(1) _ r(2,3)]) (use assms(3) r(1) in simp)
  have "lt e b" if "b \<in> set B" for b
  proof -
    have "lt e (hd B)" using that r(3) by (cases B) auto
    moreover have "b = hd B \<or> \<not> lt b (hd B)" using that s by (cases B) (auto simp: sorted_wrt_append)
    ultimately show ?thesis using assms(1) unfolding weak_order_def by metis
  qed
  with r s show ?thesis by blast
qed

theorem list_insert_ordered_sorted_witness:
  "\<exists>h' A B. list_insert_ordered sample_heap 200 50 by_key = Inr h' \<and> [] = A @ B \<and> dlist h' 200 (A @ 50 # B)
    \<and> sorted_wrt (\<lambda>a b. \<not> by_key b a) (A @ 50 # B) \<and> (\<forall>b \<in> set B. by_key 50 b)"
  by (rule list_insert_ordered_sorted [OF by_key_order sample_lists(2)]) (simp_all add: nodes_def tail_of_def)



text \<open>\<^verbatim>\<open>list_max\<close> and \<^verbatim>\<open>list_min\<close> return the first of the largest and of the smallest elements of a
  nonempty list.\<close>

theorem list_extremes:
  assumes "weak_order lt" "dlist h l xs" "xs \<noteq> []"
  shows "\<exists>m n. list_max h l lt = Inr m \<and> first_max lt xs m
    \<and> list_min h l lt = Inr n \<and> first_max (\<lambda>a b. lt b a) xs n"
  using list_max_ok [OF assms] list_max_ok [OF weak_order_flip [OF assms(1)] assms(2,3)]
    list_min_max [OF assms(2), of lt] by auto

theorem list_extremes_witness:
  "\<exists>m n. list_max sample_heap 100 by_key = Inr m \<and> first_max by_key [23, 37, 15] m
    \<and> list_min sample_heap 100 by_key = Inr n \<and> first_max (\<lambda>a b. by_key b a) [23, 37, 15] n"
  by (rule list_extremes [OF by_key_order sample_lists(1)]) simp

end
