(* ===== verification/Vaddr.thy ===== *)
theory Vaddr
  imports Prelude
begin

unbundle bit_operations_syntax

text \<open>
  Virtual addresses, \<^verbatim>\<open>threads/vaddr.h\<close>: pages, offsets within a page, and the mapping of physical memory
  at the kernel's base address. An address is a natural number below \<open>2 ^ 32\<close>.
\<close>

definition BITMASK :: "nat \<Rightarrow> nat \<Rightarrow> nat" where
  "BITMASK SHIFT CNT = push_bit SHIFT (push_bit CNT 1 - 1)"

definition PGSHIFT :: nat where "PGSHIFT = 0"
definition PGBITS :: nat where "PGBITS = 12"
definition PGSIZE :: nat where "PGSIZE = 4096"
definition PGMASK :: nat where "PGMASK = BITMASK PGSHIFT PGBITS"
definition PHYS_BASE :: nat where "PHYS_BASE = 0xc0000000"

definition pg_ofs :: "nat \<Rightarrow> nat" where
  "pg_ofs va = va AND PGMASK"

definition pg_no :: "nat \<Rightarrow> nat" where
  "pg_no va = drop_bit PGBITS va"

text \<open>Clearing the offset bits of a 32-bit address.\<close>

definition clear_ofs :: "nat \<Rightarrow> nat" where
  "clear_ofs va = va AND (2 ^ 32 - 1 - PGMASK)"

definition pg_round_up :: "nat \<Rightarrow> nat" where
  "pg_round_up va = clear_ofs (size_t (va + PGSIZE - 1))"

definition pg_round_down :: "nat \<Rightarrow> nat" where
  "pg_round_down va = clear_ofs va"

definition is_user_vaddr :: "nat \<Rightarrow> bool" where
  "is_user_vaddr vaddr \<longleftrightarrow> vaddr < PHYS_BASE"

definition is_kernel_vaddr :: "nat \<Rightarrow> bool" where
  "is_kernel_vaddr vaddr \<longleftrightarrow> vaddr \<ge> PHYS_BASE"

definition ptov :: "nat \<Rightarrow> nat result" where
  "ptov paddr = c_assert (paddr < PHYS_BASE) (Inr (size_t (paddr + PHYS_BASE)))"

definition vtop :: "nat \<Rightarrow> nat result" where
  "vtop vaddr = c_assert (is_kernel_vaddr vaddr) (Inr (vaddr - PHYS_BASE))"


subsection \<open>Pages\<close>

lemma PGMASK_mask: "PGMASK = mask 12"
  by (simp add: PGMASK_def BITMASK_def PGSHIFT_def PGBITS_def mask_eq_exp_minus_1)

lemma pg_ofs_mod: "pg_ofs va = va mod PGSIZE"
  by (simp add: pg_ofs_def PGMASK_mask PGSIZE_def flip: take_bit_eq_mask) (simp add: take_bit_eq_mod)

lemma pg_no_div: "pg_no va = va div PGSIZE"
  by (simp add: pg_no_def PGBITS_def PGSIZE_def drop_bit_eq_div)

lemma clear_ofs_eq:
  assumes "va < 2 ^ 32" shows "clear_ofs va = va div PGSIZE * PGSIZE"
proof -
  have "clear_ofs va = push_bit 12 (drop_bit 12 va)"
  proof (rule bit_eqI)
    fix n
    have m: "2 ^ 32 - 1 - PGMASK = (push_bit 12 (mask 20) :: nat)"
      by (simp add: PGMASK_mask mask_eq_exp_minus_1 push_bit_nat_def)
    have "bit va n \<Longrightarrow> n < 32"
    proof (rule ccontr)
      assume "bit va n" "\<not> n < 32"
      then have "(2 :: nat) ^ 32 \<le> 2 ^ n" by (intro power_increasing) simp_all
      then have "va div 2 ^ n = 0" using assms by simp
      then show False using \<open>bit va n\<close> by (simp add: bit_iff_odd)
    qed
    then show "bit (clear_ofs va) n = bit (push_bit 12 (drop_bit 12 va)) n"
      unfolding clear_ofs_def m by (auto simp: bit_and_iff bit_push_bit_iff bit_mask_iff bit_drop_bit_eq)
  qed
  then show ?thesis by (simp add: push_bit_eq_mult drop_bit_eq_div PGSIZE_def)
qed

lemma pg_round_down_eq: "va < 2 ^ 32 \<Longrightarrow> pg_round_down va = va - va mod PGSIZE"
  by (simp add: pg_round_down_def clear_ofs_eq minus_mod_eq_div_mult)

text \<open>Physical and kernel addresses correspond.\<close>

lemma vtop_ptov: "paddr < 2 ^ 32 - PHYS_BASE \<Longrightarrow> rbind (ptov paddr) vtop = Inr paddr"
  by (simp add: ptov_def vtop_def is_kernel_vaddr_def PHYS_BASE_def)

end
