(* ===== verification/Threads.thy ===== *)
theory Threads
  imports Vaddr
begin

text \<open>
  The thread system on which the warehouse runs: \<^verbatim>\<open>threads/thread.c\<close>, \<^verbatim>\<open>threads/synch.c\<close>, the interrupt
  level and the external interrupt path of \<^verbatim>\<open>threads/interrupt.c\<close>, sleeping and the tick handler of
  \<^verbatim>\<open>devices/timer.c\<close>, and the blocking operations of \<^verbatim>\<open>aw_thread.c\<close>. The kernel is built without
  \<^verbatim>\<open>USERPROG\<close> (\<^verbatim>\<open>threads/Make.vars\<close>), so the code under that macro is not part of the program.

  The state is one record: every thread structure at its address, the lists of thread.c as
  sequences of threads (the linked lists of \<^verbatim>\<open>list.c\<close> are shown to behave as sequences in the theory on
  kernel lists, provided an element is in one list at a time, which is part of the invariant
  proved here), semaphores, locks and condition variables, the interrupt flag and the statistics.

  A call that blocks comes back only when its thread is scheduled again. What a thread still has to
  do inside a kernel call is a stack of \<open>frame\<close>s, the innermost first; \<^verbatim>\<open>switch_threads\<close> changes which
  thread's stack is executed. Every frame is one stretch of code that runs without being interrupted
  by another thread, either because interrupts are off or because it is a single access; between
  frames a timer interrupt may preempt the thread.
\<close>

subsection \<open>State\<close>

datatype thread_status = THREAD_RUNNING | THREAD_READY | THREAD_BLOCKED | THREAD_DYING

record thread =
  tid :: int
  status :: thread_status
  tname :: string
  stack :: nat
  priority :: int
  wakeup_tick :: int
  magic :: "32 word"

definition THREAD_MAGIC :: "32 word" where "THREAD_MAGIC = 0xcd6abf4b"
definition TID_ERROR :: int where "TID_ERROR = - 1"
definition PRI_MIN :: int where "PRI_MIN = 0"
definition PRI_DEFAULT :: int where "PRI_DEFAULT = 31"
definition PRI_MAX :: int where "PRI_MAX = 63"
definition TIME_SLICE :: "32 word" where "TIME_SLICE = 4"
definition TIMER_FREQ :: int where "TIMER_FREQ = 100"
definition INT64_MAX :: int where "INT64_MAX = 2 ^ 63 - 1"

text \<open>A semaphore stands alone, or inside a lock, or inside the \<^verbatim>\<open>struct semaphore_elem\<close> on the stack of
  a thread in \<^verbatim>\<open>cond_wait\<close>.\<close>

datatype sema_id = Sema nat | Lock_sema nat | Waiter nat

record semaphore =
  sema_value :: "32 word"
  waiters :: "nat list"

datatype frame =
    Sema_loop sema_id bool     \<comment> \<open>the loop of \<^verbatim>\<open>sema_down\<close>, with \<^verbatim>\<open>old_level\<close>\<close>
  | Set_level bool             \<comment> \<open>\<^verbatim>\<open>intr_set_level (old_level)\<close>\<close>
  | Iret                       \<comment> \<open>return from an interrupt\<close>
  | Set_holder nat             \<comment> \<open>\<^verbatim>\<open>lock->holder = thread_current ()\<close>\<close>
  | Call_up sema_id            \<comment> \<open>a call of \<^verbatim>\<open>sema_up\<close>\<close>
  | Call_down sema_id          \<comment> \<open>a call of \<^verbatim>\<open>sema_down\<close>\<close>
  | Call_acquire nat           \<comment> \<open>a call of \<^verbatim>\<open>lock_acquire\<close>\<close>
  | Call_release nat           \<comment> \<open>a call of \<^verbatim>\<open>lock_release\<close>\<close>
  | Next_tid nat               \<comment> \<open>\<^verbatim>\<open>tid = next_tid++\<close> for the new thread\<close>
  | Finish_create nat          \<comment> \<open>the rest of \<^verbatim>\<open>thread_create\<close>\<close>
  | Broadcast nat nat          \<comment> \<open>the loop of \<^verbatim>\<open>cond_broadcast\<close>\<close>
  | Kernel_thread              \<comment> \<open>the start of \<^verbatim>\<open>kernel_thread\<close>\<close>
  | Idle_start sema_id         \<comment> \<open>the start of \<^verbatim>\<open>idle\<close>\<close>
  | Idle_block                 \<comment> \<open>\<^verbatim>\<open>intr_disable\<close> and \<^verbatim>\<open>thread_block\<close> in the loop of \<^verbatim>\<open>idle\<close>\<close>
  | Idle_hlt                   \<comment> \<open>\<^verbatim>\<open>sti; hlt\<close>\<close>

record kernel =
  threads :: "nat \<Rightarrow> thread option"
  frames :: "nat \<Rightarrow> frame list"
  running :: nat
  ready_list :: "nat list"
  all_list :: "nat list"
  sleep_list :: "nat list"
  blocked_threads :: "nat list"
  next_tick_to_wakeup :: int
  idle_thread :: nat
  initial_thread :: nat
  next_tid :: int
  intr_on :: bool
  in_external_intr :: bool
  yield_on_return :: bool
  ticks :: int
  idle_ticks :: int
  kernel_ticks :: int
  thread_ticks :: "32 word"
  semas :: "sema_id \<Rightarrow> semaphore"
  holder :: "nat \<Rightarrow> nat"
  cond_waiters :: "nat \<Rightarrow> nat list"

definition tid_lock :: nat where "tid_lock = 0"

definition upd_thread :: "nat \<Rightarrow> (thread \<Rightarrow> thread) \<Rightarrow> kernel \<Rightarrow> kernel" where
  "upd_thread t f k = k\<lparr>threads := (threads k)(t := map_option f (threads k t))\<rparr>"

definition set_status :: "nat \<Rightarrow> thread_status \<Rightarrow> kernel \<Rightarrow> kernel" where
  "set_status t s = upd_thread t (\<lambda>th. th\<lparr>status := s\<rparr>)"

definition status_of :: "kernel \<Rightarrow> nat \<Rightarrow> thread_status option" where
  "status_of k t = map_option status (threads k t)"

definition wakeup_of :: "kernel \<Rightarrow> nat \<Rightarrow> int" where
  "wakeup_of k t = (case threads k t of None \<Rightarrow> 0 | Some th \<Rightarrow> wakeup_tick th)"

definition push_frames :: "frame list \<Rightarrow> kernel \<Rightarrow> kernel" where
  "push_frames fs k = k\<lparr>frames := (frames k)(running k := fs @ frames k (running k))\<rparr>"

definition pop_frame :: "kernel \<Rightarrow> kernel" where
  "pop_frame k = k\<lparr>frames := (frames k)(running k := tl (frames k (running k)))\<rparr>"

definition set_sema :: "sema_id \<Rightarrow> 32 word \<Rightarrow> nat list \<Rightarrow> kernel \<Rightarrow> kernel" where
  "set_sema s v ws k = k\<lparr>semas := (semas k)(s := \<lparr>sema_value = v, waiters = ws\<rparr>)\<rparr>"


subsection \<open>Interrupt level\<close>

definition intr_enable :: "kernel \<Rightarrow> kernel result" where
  "intr_enable k = c_assert (\<not> in_external_intr k) (Inr (k\<lparr>intr_on := True\<rparr>))"

definition intr_disable :: "kernel \<Rightarrow> kernel" where
  "intr_disable k = k\<lparr>intr_on := False\<rparr>"

definition intr_set_level :: "bool \<Rightarrow> kernel \<Rightarrow> kernel result" where
  "intr_set_level on k = (if on then intr_enable k else Inr (intr_disable k))"

definition intr_yield_on_return :: "kernel \<Rightarrow> kernel result" where
  "intr_yield_on_return k = c_assert (in_external_intr k) (Inr (k\<lparr>yield_on_return := True\<rparr>))"


subsection \<open>Threads\<close>

definition is_thread :: "kernel \<Rightarrow> nat \<Rightarrow> bool" where
  "is_thread k t \<longleftrightarrow> t \<noteq> 0 \<and> (case threads k t of None \<Rightarrow> False | Some th \<Rightarrow> magic th = THREAD_MAGIC)"

definition thread_current :: "kernel \<Rightarrow> nat result" where
  "thread_current k = c_assert (is_thread k (running k))
     (c_assert (status_of k (running k) = Some THREAD_RUNNING) (Inr (running k)))"

definition next_thread_to_run :: "kernel \<Rightarrow> nat \<times> kernel" where
  "next_thread_to_run k =
     (case ready_list k of [] \<Rightarrow> (idle_thread k, k) | t # ts \<Rightarrow> (t, k\<lparr>ready_list := ts\<rparr>))"

text \<open>\<^verbatim>\<open>palloc_free_page\<close> of a thread's page: the thread is gone.\<close>

definition free_thread :: "nat \<Rightarrow> kernel \<Rightarrow> kernel" where
  "free_thread t k = k\<lparr>threads := (threads k)(t := None), frames := (frames k)(t := [])\<rparr>"

definition thread_schedule_tail :: "nat \<Rightarrow> kernel \<Rightarrow> kernel result" where
  "thread_schedule_tail prev k =
     c_assert (\<not> intr_on k)
      (let cur = running k;
           k = set_status cur THREAD_RUNNING k;
           k = k\<lparr>thread_ticks := 0\<rparr>
       in if prev \<noteq> 0 \<and> status_of k prev = Some THREAD_DYING \<and> prev \<noteq> initial_thread k
          then c_assert (prev \<noteq> cur) (Inr (free_thread prev k)) else Inr k)"

definition schedule :: "kernel \<Rightarrow> kernel result" where
  "schedule k =
     (let cur = running k; nxt = fst (next_thread_to_run k); k = snd (next_thread_to_run k)
      in c_assert (\<not> intr_on k) (c_assert (status_of k cur \<noteq> Some THREAD_RUNNING) (c_assert (is_thread k nxt)
          (if cur \<noteq> nxt then thread_schedule_tail cur (k\<lparr>running := nxt\<rparr>) else thread_schedule_tail 0 k))))"

definition thread_block :: "kernel \<Rightarrow> kernel result" where
  "thread_block k = c_assert (\<not> in_external_intr k) (c_assert (\<not> intr_on k)
     (rbind (thread_current k) (\<lambda>c. schedule (set_status c THREAD_BLOCKED k))))"

definition thread_unblock :: "nat \<Rightarrow> kernel \<Rightarrow> kernel result" where
  "thread_unblock t k = c_assert (is_thread k t)
     (let old = intr_on k; k = intr_disable k
      in c_assert (status_of k t = Some THREAD_BLOCKED)
          (intr_set_level old (set_status t THREAD_READY (k\<lparr>ready_list := ready_list k @ [t]\<rparr>))))"

definition thread_yield :: "kernel \<Rightarrow> kernel result" where
  "thread_yield k = rbind (thread_current k) (\<lambda>c. c_assert (\<not> in_external_intr k)
     (let k = push_frames [Set_level (intr_on k)] k;
          k = intr_disable k;
          k = (if c \<noteq> idle_thread k then k\<lparr>ready_list := ready_list k @ [c]\<rparr> else k)
      in schedule (set_status c THREAD_READY k)))"

definition thread_exit :: "kernel \<Rightarrow> kernel result" where
  "thread_exit k = c_assert (\<not> in_external_intr k)
     (let k = intr_disable k in rbind (thread_current k) (\<lambda>c.
        schedule (set_status c THREAD_DYING (k\<lparr>all_list := remove1 c (all_list k)\<rparr>))))"

definition thread_name :: "kernel \<Rightarrow> string result" where
  "thread_name k = rbind (thread_current k) (\<lambda>c. Inr (case threads k c of None \<Rightarrow> [] | Some th \<Rightarrow> tname th))"

definition thread_tid :: "kernel \<Rightarrow> int result" where
  "thread_tid k = rbind (thread_current k) (\<lambda>c. Inr (case threads k c of None \<Rightarrow> 0 | Some th \<Rightarrow> tid th))"

definition thread_set_priority :: "int \<Rightarrow> kernel \<Rightarrow> kernel result" where
  "thread_set_priority p k = rbind (thread_current k) (\<lambda>c. Inr (upd_thread c (\<lambda>th. th\<lparr>priority := p\<rparr>) k))"

definition thread_get_priority :: "kernel \<Rightarrow> int result" where
  "thread_get_priority k =
     rbind (thread_current k) (\<lambda>c. Inr (case threads k c of None \<Rightarrow> 0 | Some th \<Rightarrow> priority th))"

primrec foreach_loop :: "(nat \<Rightarrow> kernel \<Rightarrow> kernel) \<Rightarrow> nat list \<Rightarrow> kernel \<Rightarrow> kernel" where
  "foreach_loop f [] k = k"
| "foreach_loop f (t # ts) k = foreach_loop f ts (f t k)"

definition thread_foreach :: "(nat \<Rightarrow> kernel \<Rightarrow> kernel) \<Rightarrow> kernel \<Rightarrow> kernel result" where
  "thread_foreach f k = c_assert (\<not> intr_on k) (Inr (foreach_loop f (all_list k) k))"

text \<open>\<^verbatim>\<open>strlcpy\<close> keeps at most fifteen characters of the name.\<close>

definition init_thread :: "nat \<Rightarrow> string \<Rightarrow> int \<Rightarrow> kernel \<Rightarrow> kernel result" where
  "init_thread t nm prio k =
     c_assert (t \<noteq> 0) (c_assert (PRI_MIN \<le> prio \<and> prio \<le> PRI_MAX)
      (let old = intr_on k;
           k = k\<lparr>threads := (threads k)(t \<mapsto> \<lparr>tid = 0, status = THREAD_BLOCKED, tname = take 15 nm,
             stack = t + PGSIZE, priority = prio, wakeup_tick = 0, magic = THREAD_MAGIC\<rparr>)\<rparr>;
           k = intr_disable k
       in intr_set_level old (k\<lparr>all_list := all_list k @ [t]\<rparr>)))"

definition alloc_frame :: "nat \<Rightarrow> nat \<Rightarrow> kernel \<Rightarrow> kernel result" where
  "alloc_frame t sz k = c_assert (is_thread k t) (c_assert (sz mod 4 = 0)
     (Inr (upd_thread t (\<lambda>th. th\<lparr>stack := stack th - sz\<rparr>) k)))"


subsection \<open>Semaphores, locks and condition variables\<close>

definition sema_init :: "sema_id \<Rightarrow> 32 word \<Rightarrow> kernel \<Rightarrow> kernel" where
  "sema_init s v = set_sema s v []"

text \<open>One round of the loop in \<^verbatim>\<open>sema_down\<close>; the frame stays until the value was positive.\<close>

definition sema_loop :: "sema_id \<Rightarrow> bool \<Rightarrow> kernel \<Rightarrow> kernel result" where
  "sema_loop s old k =
     (let v = sema_value (semas k s); ws = waiters (semas k s)
      in if v = 0 then rbind (thread_current k) (\<lambda>c. thread_block (set_sema s v (ws @ [c]) k))
         else intr_set_level old (pop_frame (set_sema s (v - 1) ws k)))"

definition sema_down :: "sema_id \<Rightarrow> kernel \<Rightarrow> kernel result" where
  "sema_down s k = c_assert (\<not> in_external_intr k)
     (sema_loop s (intr_on k) (intr_disable (push_frames [Sema_loop s (intr_on k)] k)))"

definition sema_try_down :: "sema_id \<Rightarrow> kernel \<Rightarrow> (bool \<times> kernel) result" where
  "sema_try_down s k =
     (let old = intr_on k; k = intr_disable k; v = sema_value (semas k s)
      in if v > 0 then rbind (intr_set_level old (set_sema s (v - 1) (waiters (semas k s)) k)) (\<lambda>k. Inr (True, k))
         else rbind (intr_set_level old k) (\<lambda>k. Inr (False, k)))"

definition sema_up :: "sema_id \<Rightarrow> kernel \<Rightarrow> kernel result" where
  "sema_up s k =
     (let old = intr_on k; k = intr_disable k in
      rbind (case waiters (semas k s) of [] \<Rightarrow> Inr k
             | t # ts \<Rightarrow> thread_unblock t (set_sema s (sema_value (semas k s)) ts k)) (\<lambda>k.
        intr_set_level old (set_sema s (sema_value (semas k s) + 1) (waiters (semas k s)) k)))"

definition lock_init :: "nat \<Rightarrow> kernel \<Rightarrow> kernel" where
  "lock_init l k = sema_init (Lock_sema l) 1 (k\<lparr>holder := (holder k)(l := 0)\<rparr>)"

definition lock_held_by_current_thread :: "nat \<Rightarrow> kernel \<Rightarrow> bool result" where
  "lock_held_by_current_thread l k = rbind (thread_current k) (\<lambda>c. Inr (holder k l = c))"

definition lock_acquire :: "nat \<Rightarrow> kernel \<Rightarrow> kernel result" where
  "lock_acquire l k = c_assert (\<not> in_external_intr k)
     (rbind (lock_held_by_current_thread l k) (\<lambda>b. c_assert (\<not> b)
       (sema_down (Lock_sema l) (push_frames [Set_holder l] k))))"

definition set_holder :: "nat \<Rightarrow> kernel \<Rightarrow> kernel result" where
  "set_holder l k = rbind (thread_current k) (\<lambda>c. Inr (k\<lparr>holder := (holder k)(l := c)\<rparr>))"

definition lock_try_acquire :: "nat \<Rightarrow> kernel \<Rightarrow> (bool \<times> kernel) result" where
  "lock_try_acquire l k = rbind (lock_held_by_current_thread l k) (\<lambda>b. c_assert (\<not> b)
     (rbind (sema_try_down (Lock_sema l) k) (\<lambda>(ok, k).
       Inr (ok, if ok then push_frames [Set_holder l] k else k))))"

definition lock_release :: "nat \<Rightarrow> kernel \<Rightarrow> kernel result" where
  "lock_release l k = rbind (lock_held_by_current_thread l k) (\<lambda>b. c_assert b
     (Inr (push_frames [Call_up (Lock_sema l)] (k\<lparr>holder := (holder k)(l := 0)\<rparr>))))"

definition cond_init :: "nat \<Rightarrow> kernel \<Rightarrow> kernel" where
  "cond_init c k = k\<lparr>cond_waiters := (cond_waiters k)(c := [])\<rparr>"

definition cond_wait :: "nat \<Rightarrow> nat \<Rightarrow> kernel \<Rightarrow> kernel result" where
  "cond_wait c l k = c_assert (\<not> in_external_intr k)
     (rbind (lock_held_by_current_thread l k) (\<lambda>b. c_assert b
       (let t = running k;
            k = sema_init (Waiter t) 0 k;
            k = k\<lparr>cond_waiters := (cond_waiters k)(c := cond_waiters k c @ [t])\<rparr>
        in lock_release l (push_frames [Call_down (Waiter t), Call_acquire l] k))))"

definition cond_signal :: "nat \<Rightarrow> nat \<Rightarrow> kernel \<Rightarrow> kernel result" where
  "cond_signal c l k = c_assert (\<not> in_external_intr k)
     (rbind (lock_held_by_current_thread l k) (\<lambda>b. c_assert b
       (case cond_waiters k c of [] \<Rightarrow> Inr k
        | t # ts \<Rightarrow> sema_up (Waiter t) (k\<lparr>cond_waiters := (cond_waiters k)(c := ts)\<rparr>))))"

definition cond_broadcast :: "nat \<Rightarrow> nat \<Rightarrow> kernel \<Rightarrow> kernel result" where
  "cond_broadcast c l k = Inr (push_frames [Broadcast c l] k)"

definition broadcast_loop :: "nat \<Rightarrow> nat \<Rightarrow> kernel \<Rightarrow> kernel result" where
  "broadcast_loop c l k = (if cond_waiters k c \<noteq> [] then cond_signal c l k else Inr (pop_frame k))"


subsection \<open>Thread creation and start-up\<close>

text \<open>\<open>page\<close> is the result of \<^verbatim>\<open>palloc_get_page\<close>; the call of \<^verbatim>\<open>allocate_tid\<close> takes the lock on thread
  identifiers, so the creation continues in frames. \<open>body\<close> is how the thread function starts.\<close>

definition thread_create :: "nat option \<Rightarrow> string \<Rightarrow> int \<Rightarrow> frame list \<Rightarrow> kernel \<Rightarrow> kernel result" where
  "thread_create page nm prio body k =
     (case page of None \<Rightarrow> Inr k
      | Some t \<Rightarrow> rbind (init_thread t nm prio k) (\<lambda>k.
          Inr (push_frames [Call_acquire tid_lock, Next_tid t, Call_release tid_lock, Finish_create t]
            (k\<lparr>frames := (frames k)(t := Kernel_thread # body)\<rparr>))))"

definition allocate_tid :: "nat \<Rightarrow> kernel \<Rightarrow> kernel result" where
  "allocate_tid t k = rbind (c_int (next_tid k + 1)) (\<lambda>n.
     Inr ((upd_thread t (\<lambda>th. th\<lparr>tid := next_tid k\<rparr>) k)\<lparr>next_tid := n\<rparr>))"

text \<open>The frames of \<^verbatim>\<open>kernel_thread\<close> (three words), \<^verbatim>\<open>switch_entry\<close> (one) and \<^verbatim>\<open>switch_threads\<close> (seven).\<close>

definition finish_create :: "nat \<Rightarrow> kernel \<Rightarrow> kernel result" where
  "finish_create t k = rbind (alloc_frame t 12 k) (\<lambda>k. rbind (alloc_frame t 4 k) (\<lambda>k.
     rbind (alloc_frame t 28 k) (\<lambda>k. thread_unblock t k)))"

definition idle_start :: "sema_id \<Rightarrow> kernel \<Rightarrow> kernel result" where
  "idle_start s k = rbind (thread_current k) (\<lambda>c. sema_up s (push_frames [Idle_block] (k\<lparr>idle_thread := c\<rparr>)))"

definition idle_block :: "kernel \<Rightarrow> kernel result" where
  "idle_block k = thread_block (intr_disable (push_frames [Idle_hlt] (pop_frame k)))"

definition idle_hlt :: "kernel \<Rightarrow> kernel" where
  "idle_hlt k = (push_frames [Idle_block] (pop_frame k))\<lparr>intr_on := True\<rparr>"


subsection \<open>Sleeping and the timer\<close>

definition update_next_tick_to_wakeup :: "int \<Rightarrow> kernel \<Rightarrow> kernel" where
  "update_next_tick_to_wakeup tick k =
     k\<lparr>next_tick_to_wakeup := (if next_tick_to_wakeup k > tick then tick else next_tick_to_wakeup k)\<rparr>"

definition thread_sleep :: "int \<Rightarrow> kernel \<Rightarrow> kernel result" where
  "thread_sleep tick k =
     (let old = intr_on k; k = intr_disable k in
      rbind (thread_current k) (\<lambda>c. c_assert (c \<noteq> idle_thread k)
       (let k = upd_thread c (\<lambda>th. th\<lparr>wakeup_tick := tick\<rparr>) k;
            k = update_next_tick_to_wakeup tick k;
            k = k\<lparr>sleep_list := sleep_list k @ [c]\<rparr>
        in thread_block (push_frames [Set_level old] k))))"

text \<open>The sleepers not yet looked at are \<open>ts\<close>, those that go on sleeping are \<open>kept\<close>.\<close>

fun wakeup_loop :: "int \<Rightarrow> nat list \<Rightarrow> nat list \<Rightarrow> kernel \<Rightarrow> kernel result" where
  "wakeup_loop now kept [] k = Inr k"
| "wakeup_loop now kept (t # ts) k =
     (if now \<ge> wakeup_of k t
      then rbind (thread_unblock t (k\<lparr>sleep_list := kept @ ts\<rparr>)) (wakeup_loop now kept ts)
      else wakeup_loop now (kept @ [t]) ts (update_next_tick_to_wakeup (wakeup_of k t) k))"

definition thread_wakeup :: "int \<Rightarrow> kernel \<Rightarrow> kernel result" where
  "thread_wakeup now k = wakeup_loop now [] (sleep_list k) (k\<lparr>next_tick_to_wakeup := INT64_MAX\<rparr>)"

definition thread_tick :: "kernel \<Rightarrow> kernel result" where
  "thread_tick k = rbind (thread_current k) (\<lambda>c.
     let k = (if c = idle_thread k then k\<lparr>idle_ticks := idle_ticks k + 1\<rparr> else k\<lparr>kernel_ticks := kernel_ticks k + 1\<rparr>);
         k = k\<lparr>thread_ticks := thread_ticks k + 1\<rparr>
     in if thread_ticks k \<ge> TIME_SLICE then intr_yield_on_return k else Inr k)"

definition timer_interrupt :: "kernel \<Rightarrow> kernel result" where
  "timer_interrupt k = rbind (c_int64 (ticks k + 1)) (\<lambda>n. rbind (thread_tick (k\<lparr>ticks := n\<rparr>)) (\<lambda>k.
     if next_tick_to_wakeup k \<le> ticks k then thread_wakeup (ticks k) k else Inr k))"

text \<open>An external interrupt is taken when interrupts are on; the processor turns them off, and on again
  when the handler returns.\<close>

definition intr_handler :: "(kernel \<Rightarrow> kernel result) \<Rightarrow> kernel \<Rightarrow> kernel result" where
  "intr_handler handler k =
     (let k = intr_disable (push_frames [Iret] k) in
      c_assert (\<not> intr_on k) (c_assert (\<not> in_external_intr k)
       (rbind (handler (k\<lparr>in_external_intr := True, yield_on_return := False\<rparr>)) (\<lambda>k.
         c_assert (\<not> intr_on k) (c_assert (in_external_intr k)
          (let k = k\<lparr>in_external_intr := False\<rparr> in if yield_on_return k then thread_yield k else Inr k))))))"

definition timer_sleep :: "int \<Rightarrow> kernel \<Rightarrow> kernel result" where
  "timer_sleep n k = c_assert (intr_on k) (rbind (c_int64 (ticks k + n)) (\<lambda>tick. thread_sleep tick k))"

definition timer_elapsed :: "int \<Rightarrow> kernel \<Rightarrow> int result" where
  "timer_elapsed since k = c_int64 (ticks k - since)"


subsection \<open>Blocking for the warehouse\<close>

definition block_thread :: "kernel \<Rightarrow> kernel result" where
  "block_thread k = rbind (thread_current k) (\<lambda>c.
     let old = intr_on k; k = intr_disable k; k = k\<lparr>blocked_threads := blocked_threads k @ [c]\<rparr>
     in thread_block (push_frames [Set_level old] k))"

fun unblock_loop :: "nat list \<Rightarrow> kernel \<Rightarrow> kernel result" where
  "unblock_loop [] k = Inr k"
| "unblock_loop (t # ts) k = rbind (thread_unblock t (k\<lparr>blocked_threads := ts\<rparr>)) (unblock_loop ts)"

definition unblock_threads :: "kernel \<Rightarrow> kernel result" where
  "unblock_threads k = (let old = intr_on k; k = intr_disable k in
     rbind (unblock_loop (blocked_threads k) k) (intr_set_level old))"


subsection \<open>Executing a frame\<close>

definition resume :: "kernel \<Rightarrow> kernel result" where
  "resume k =
     (case frames k (running k) of
        [] \<Rightarrow> Inr k
      | Sema_loop s old # _ \<Rightarrow> sema_loop s old k
      | Set_level b # _ \<Rightarrow> intr_set_level b (pop_frame k)
      | Iret # _ \<Rightarrow> Inr ((pop_frame k)\<lparr>intr_on := True\<rparr>)
      | Set_holder l # _ \<Rightarrow> set_holder l (pop_frame k)
      | Call_up s # _ \<Rightarrow> sema_up s (pop_frame k)
      | Call_down s # _ \<Rightarrow> sema_down s (pop_frame k)
      | Call_acquire l # _ \<Rightarrow> lock_acquire l (pop_frame k)
      | Call_release l # _ \<Rightarrow> lock_release l (pop_frame k)
      | Next_tid t # _ \<Rightarrow> allocate_tid t (pop_frame k)
      | Finish_create t # _ \<Rightarrow> finish_create t (pop_frame k)
      | Broadcast c l # _ \<Rightarrow> broadcast_loop c l k
      | Kernel_thread # _ \<Rightarrow> intr_enable (pop_frame k)
      | Idle_start s # _ \<Rightarrow> idle_start s (pop_frame k)
      | Idle_block # _ \<Rightarrow> idle_block k
      | Idle_hlt # _ \<Rightarrow> Inr (idle_hlt k))"


subsection \<open>Start of the system\<close>

text \<open>\<open>main\<close> is the page of the code running at start-up. The calls of \<^verbatim>\<open>allocate_tid\<close>, \<^verbatim>\<open>intr_enable\<close> and
  \<^verbatim>\<open>sema_down\<close> are left in the frames of the main thread.\<close>

definition thread_init :: "nat \<Rightarrow> kernel \<Rightarrow> kernel result" where
  "thread_init main k = c_assert (\<not> intr_on k)
     (let k = lock_init tid_lock k;
          k = k\<lparr>ready_list := [], all_list := [], sleep_list := [], running := main, initial_thread := main\<rparr>
      in rbind (init_thread main ''main'' PRI_DEFAULT k) (\<lambda>k.
           Inr (push_frames [Call_acquire tid_lock, Next_tid main, Call_release tid_lock]
             (set_status main THREAD_RUNNING k))))"

definition thread_start :: "sema_id \<Rightarrow> nat option \<Rightarrow> kernel \<Rightarrow> kernel result" where
  "thread_start idle_started page k =
     thread_create page ''idle'' PRI_MIN [Idle_start idle_started]
       (push_frames [Set_level True, Call_down idle_started] (sema_init idle_started 0 k))"

fun run_frames :: "nat \<Rightarrow> kernel \<Rightarrow> kernel result" where
  "run_frames 0 k = Inr k"
| "run_frames (Suc n) k = rbind (resume k) (run_frames n)"

text \<open>Before \<^verbatim>\<open>thread_init\<close>: static data, with every lock that will be used already initialised.\<close>

definition blank :: kernel where
  "blank = \<lparr>threads = (\<lambda>_. None), frames = (\<lambda>_. []), running = 0, ready_list = [], all_list = [],
     sleep_list = [], blocked_threads = [], next_tick_to_wakeup = INT64_MAX, idle_thread = 0,
     initial_thread = 0, next_tid = 1, intr_on = False, in_external_intr = False, yield_on_return = False,
     ticks = 0, idle_ticks = 0, kernel_ticks = 0, thread_ticks = 0,
     semas = (\<lambda>s. case s of Lock_sema _ \<Rightarrow> \<lparr>sema_value = 1, waiters = []\<rparr> | _ \<Rightarrow> \<lparr>sema_value = 0, waiters = []\<rparr>),
     holder = (\<lambda>_. 0), cond_waiters = (\<lambda>_. [])\<rparr>"

definition boot_threads :: "nat \<Rightarrow> nat \<Rightarrow> kernel result" where
  "boot_threads main idle = rbind (thread_init main blank) (\<lambda>k. rbind (run_frames 5 k) (\<lambda>k.
     rbind (thread_start (Sema 0) (Some idle) k) (run_frames 14)))"


subsection \<open>Runs\<close>

text \<open>The calls a thread may make from its own code, and what the comments of the sources require of
  the caller.\<close>

datatype call =
    Create "nat option" string int | Yield | Exit | Down nat | Up nat | Try_down nat
  | Acquire nat | Try_acquire nat | Release nat | Wait nat nat | Signal nat nat | Broadcast_all nat nat
  | Sleep int | Block | Unblock | Set_priority int

fun allowed :: "call \<Rightarrow> kernel \<Rightarrow> bool" where
  "allowed (Create page nm prio) k \<longleftrightarrow> PRI_MIN \<le> prio \<and> prio \<le> PRI_MAX
     \<and> (case page of None \<Rightarrow> True | Some t \<Rightarrow> t \<noteq> 0 \<and> threads k t = None)"
| "allowed (Acquire l) k \<longleftrightarrow> l \<noteq> tid_lock \<and> holder k l \<noteq> running k"
| "allowed (Try_acquire l) k \<longleftrightarrow> l \<noteq> tid_lock \<and> holder k l \<noteq> running k"
| "allowed (Release l) k \<longleftrightarrow> l \<noteq> tid_lock \<and> holder k l = running k"
| "allowed (Wait c l) k \<longleftrightarrow> l \<noteq> tid_lock \<and> holder k l = running k"
| "allowed (Signal c l) k \<longleftrightarrow> l \<noteq> tid_lock \<and> holder k l = running k"
| "allowed (Broadcast_all c l) k \<longleftrightarrow> l \<noteq> tid_lock \<and> holder k l = running k"
| "allowed _ k \<longleftrightarrow> True"

fun do_call :: "call \<Rightarrow> kernel \<Rightarrow> kernel result" where
  "do_call (Create page nm prio) k = thread_create page nm prio [] k"
| "do_call Yield k = thread_yield k"
| "do_call Exit k = thread_exit k"
| "do_call (Down n) k = sema_down (Sema n) k"
| "do_call (Up n) k = sema_up (Sema n) k"
| "do_call (Try_down n) k = rbind (sema_try_down (Sema n) k) (\<lambda>r. Inr (snd r))"
| "do_call (Acquire l) k = lock_acquire l k"
| "do_call (Try_acquire l) k = rbind (lock_try_acquire l k) (\<lambda>r. Inr (snd r))"
| "do_call (Release l) k = lock_release l k"
| "do_call (Wait c l) k = cond_wait c l k"
| "do_call (Signal c l) k = cond_signal c l k"
| "do_call (Broadcast_all c l) k = cond_broadcast c l k"
| "do_call (Sleep n) k = timer_sleep n k"
| "do_call Block k = block_thread k"
| "do_call Unblock k = unblock_threads k"
| "do_call (Set_priority p) k = thread_set_priority p k"

inductive kstep :: "kernel \<Rightarrow> kernel \<Rightarrow> bool" where
  Run: "frames k (running k) \<noteq> [] \<Longrightarrow> resume k = Inr k' \<Longrightarrow> kstep k k'"
| Tick: "intr_on k \<Longrightarrow> intr_handler timer_interrupt k = Inr k' \<Longrightarrow> kstep k k'"
| Call: "frames k (running k) = [] \<Longrightarrow> allowed c k \<Longrightarrow> do_call c k = Inr k' \<Longrightarrow> kstep k k'"

inductive kreach :: "kernel \<Rightarrow> bool" where
  Boot: "main \<noteq> 0 \<Longrightarrow> idle \<noteq> 0 \<Longrightarrow> main \<noteq> idle \<Longrightarrow> boot_threads main idle = Inr k \<Longrightarrow> kreach k"
| Step: "kreach k \<Longrightarrow> kstep k k' \<Longrightarrow> kreach k'"

end
