(* ===== verification/Thread_Invariant.thy ===== *)
theory Thread_Invariant
  imports Threads
begin

text \<open>
  The invariant of the thread system and its consequences. The invariant is a conjunction of parts,
  each over the few fields it depends on: which list a thread is in and what its status is
  (\<open>queues_ok\<close>), what every thread still has to do inside kernel calls (\<open>stacks_ok\<close>), threads under
  construction, who waits on a semaphore, what is known of a lock's holder and of its semaphore, and
  the next wake-up time. Every step of the system preserves it and no assertion of the sources fails.
\<close>

subsection \<open>Lists and status\<close>

datatype queue = Q_ready | Q_sleep | Q_blocked | Q_sema sema_id

definition members :: "kernel \<Rightarrow> queue \<Rightarrow> nat list" where
  "members k q = (case q of Q_ready \<Rightarrow> ready_list k | Q_sleep \<Rightarrow> sleep_list k
     | Q_blocked \<Rightarrow> blocked_threads k | Q_sema s \<Rightarrow> waiters (semas k s))"

definition in_queue_status :: "queue \<Rightarrow> thread_status" where
  "in_queue_status q = (if q = Q_ready then THREAD_READY else THREAD_BLOCKED)"

text \<open>Lists \<open>m\<close>, status \<open>st\<close>, idle thread \<open>i\<close> and running thread \<open>r\<close>: an element is in one list only,
  its status is the one for that list, every ready thread except the idle thread is in the ready
  list, and only the running thread has the status running.\<close>

definition queues_ok ::
    "(queue \<Rightarrow> nat list) \<Rightarrow> (nat \<Rightarrow> thread_status option) \<Rightarrow> nat \<Rightarrow> nat \<Rightarrow> bool" where
  "queues_ok m st i r \<longleftrightarrow>
     (\<forall>q. distinct (m q)) \<and> (\<forall>q q' t. t \<in> set (m q) \<longrightarrow> t \<in> set (m q') \<longrightarrow> q = q')
     \<and> (\<forall>q t. t \<in> set (m q) \<longrightarrow> t \<noteq> i \<and> st t = Some (in_queue_status q))
     \<and> (\<forall>t. st t = Some THREAD_READY \<longrightarrow> t = i \<or> t \<in> set (m Q_ready))
     \<and> (\<forall>t. st t = Some THREAD_RUNNING \<longrightarrow> t = r)
     \<and> (\<exists>s. st i = Some s \<and> s \<noteq> THREAD_DYING) \<and> st r \<noteq> None"

lemma queues_okI:
  assumes "\<And>q. distinct (m q)" "\<And>q q' t. t \<in> set (m q) \<Longrightarrow> t \<in> set (m q') \<Longrightarrow> q = q'"
    "\<And>q t. t \<in> set (m q) \<Longrightarrow> t \<noteq> i \<and> st t = Some (in_queue_status q)"
    "\<And>t. st t = Some THREAD_READY \<Longrightarrow> t \<noteq> i \<Longrightarrow> t \<in> set (m Q_ready)"
    "\<And>t. st t = Some THREAD_RUNNING \<Longrightarrow> t = r" "\<exists>s. st i = Some s \<and> s \<noteq> THREAD_DYING" "st r \<noteq> None"
  shows "queues_ok m st i r"
  using assms unfolding queues_ok_def by blast

lemma queues_okD:
  assumes "queues_ok m st i r"
  shows "distinct (m q)" "t \<in> set (m q) \<Longrightarrow> t \<in> set (m q') \<Longrightarrow> q = q'"
    "t \<in> set (m q) \<Longrightarrow> t \<noteq> i" "t \<in> set (m q) \<Longrightarrow> st t = Some (in_queue_status q)"
    "st t = Some THREAD_READY \<Longrightarrow> t \<noteq> i \<Longrightarrow> t \<in> set (m Q_ready)"
    "st t = Some THREAD_RUNNING \<Longrightarrow> t = r" "\<exists>s. st i = Some s \<and> s \<noteq> THREAD_DYING" "st r \<noteq> None"
  using assms unfolding queues_ok_def by blast+

text \<open>The ways threads move.\<close>

lemma queues_leave:
  assumes S: "queues_ok m st i r" and r: "st r = Some THREAD_RUNNING" "r \<noteq> i"
  shows "queues_ok (m(q := m q @ [r])) (st(r \<mapsto> in_queue_status q)) i r"
proof -
  have out: "r \<notin> set (m q')" for q' using queues_okD(4) [OF S, of r q'] r by (auto simp: in_queue_status_def split: if_splits)
  show ?thesis
  proof (rule queues_okI)
    show "distinct ((m(q := m q @ [r])) q')" for q' using queues_okD(1) [OF S] out by simp
    show "t \<in> set ((m(q := m q @ [r])) p) \<Longrightarrow> t \<in> set ((m(q := m q @ [r])) p') \<Longrightarrow> p = p'" for p p' t
      using queues_okD(2) [OF S, of t p p'] out by (auto split: if_splits)
    show "t \<in> set ((m(q := m q @ [r])) p) \<Longrightarrow> t \<noteq> i \<and> (st(r \<mapsto> in_queue_status q)) t = Some (in_queue_status p)" for p t
      using queues_okD(3,4) [OF S, of t p] out r(2) by (auto split: if_splits)
    show "(st(r \<mapsto> in_queue_status q)) t = Some THREAD_READY \<Longrightarrow> t \<noteq> i \<Longrightarrow> t \<in> set ((m(q := m q @ [r])) Q_ready)" for t
      using queues_okD(5) [OF S, of t] by (auto simp: in_queue_status_def split: if_splits)
    show "(st(r \<mapsto> in_queue_status q)) t = Some THREAD_RUNNING \<Longrightarrow> t = r" for t
      using queues_okD(6) [OF S, of t] by (auto split: if_splits)
  qed (use queues_okD(7) [OF S] r in auto)
qed

lemma queues_set_status:
  assumes S: "queues_ok m st i r" and t: "st t \<noteq> None" "\<And>q. t \<notin> set (m q)"
    and s: "s \<noteq> THREAD_RUNNING" "s = THREAD_READY \<Longrightarrow> t = i" "s = THREAD_DYING \<Longrightarrow> t \<noteq> i"
  shows "queues_ok m (st(t \<mapsto> s)) i r"
proof (rule queues_okI)
  show "p = p'" if "u \<in> set (m p)" "u \<in> set (m p')" for p p' u using queues_okD(2) [OF S that] .
  show "u \<noteq> i \<and> (st(t \<mapsto> s)) u = Some (in_queue_status p)" if "u \<in> set (m p)" for p u
    using queues_okD(3,4) [OF S that] t(2) that by auto
  show "u \<in> set (m Q_ready)" if "(st(t \<mapsto> s)) u = Some THREAD_READY" "u \<noteq> i" for u
    using queues_okD(5) [OF S] that s by (auto split: if_splits)
  show "u = r" if "(st(t \<mapsto> s)) u = Some THREAD_RUNNING" for u
    using queues_okD(6) [OF S] that s by (auto split: if_splits)
qed (use queues_okD(1,7,8) [OF S] s in auto)

lemma queues_new:
  assumes S: "queues_ok m st i r" and t: "st t = None"
  shows "queues_ok m (st(t \<mapsto> THREAD_BLOCKED)) i r"
proof (rule queues_okI)
  show "p = p'" if "u \<in> set (m p)" "u \<in> set (m p')" for p p' u using queues_okD(2) [OF S that] .
  show "u \<noteq> i \<and> (st(t \<mapsto> THREAD_BLOCKED)) u = Some (in_queue_status p)" if "u \<in> set (m p)" for p u
    using queues_okD(3,4) [OF S that] t by auto
  show "u \<in> set (m Q_ready)" if "(st(t \<mapsto> THREAD_BLOCKED)) u = Some THREAD_READY" "u \<noteq> i" for u
    using queues_okD(5) [OF S] that by (auto split: if_splits)
  show "u = r" if "(st(t \<mapsto> THREAD_BLOCKED)) u = Some THREAD_RUNNING" for u
    using queues_okD(6) [OF S] that by (auto split: if_splits)
qed (use queues_okD(1,7,8) [OF S] t in auto)

lemma queues_free:
  assumes S: "queues_ok m st i r" and t: "st t = Some THREAD_DYING" "t \<noteq> r"
  shows "queues_ok m (st(t := None)) i r"
proof (rule queues_okI)
  show "p = p'" if "u \<in> set (m p)" "u \<in> set (m p')" for p p' u using queues_okD(2) [OF S that] .
  show "u \<noteq> i \<and> (st(t := None)) u = Some (in_queue_status p)" if "u \<in> set (m p)" for p u
    using queues_okD(3,4) [OF S that] t by (auto simp: in_queue_status_def split: if_splits)
  show "u \<in> set (m Q_ready)" if "(st(t := None)) u = Some THREAD_READY" "u \<noteq> i" for u
    using queues_okD(5) [OF S] that by (auto split: if_splits)
  show "u = r" if "(st(t := None)) u = Some THREAD_RUNNING" for u
    using queues_okD(6) [OF S] that by (auto split: if_splits)
qed (use queues_okD(1,7,8) [OF S] t in auto)

lemma queues_admit:
  assumes S: "queues_ok m st i r" and t: "st t = Some THREAD_BLOCKED" "\<And>q. t \<notin> set (m q)" "t \<noteq> i"
  shows "queues_ok (m(Q_ready := m Q_ready @ [t])) (st(t \<mapsto> THREAD_READY)) i r"
proof (rule queues_okI)
  let ?m = "m(Q_ready := m Q_ready @ [t])"
  show "distinct (?m q)" for q using queues_okD(1) [OF S] t(2) by simp
  show "p = p'" if "u \<in> set (?m p)" "u \<in> set (?m p')" for p p' u
    using queues_okD(2) [OF S, of u p p'] t(2) that by (auto split: if_splits)
  show "u \<noteq> i \<and> (st(t \<mapsto> THREAD_READY)) u = Some (in_queue_status p)" if "u \<in> set (?m p)" for p u
    using queues_okD(3,4) [OF S, of u p] t that by (auto simp: in_queue_status_def split: if_splits)
  show "u \<in> set (?m Q_ready)" if "(st(t \<mapsto> THREAD_READY)) u = Some THREAD_READY" "u \<noteq> i" for u
    using queues_okD(5) [OF S] that by (auto split: if_splits)
  show "u = r" if "(st(t \<mapsto> THREAD_READY)) u = Some THREAD_RUNNING" for u
    using queues_okD(6) [OF S] that by (auto split: if_splits)
qed (use queues_okD(7,8) [OF S] t in auto)

lemma queues_remove:
  assumes S: "queues_ok m st i r" and q: "q \<noteq> Q_ready"
  shows "queues_ok (m(q := remove1 t (m q))) st i r"
proof (rule queues_okI)
  let ?m = "m(q := remove1 t (m q))"
  have sub: "set (?m p) \<subseteq> set (m p)" for p using set_remove1_subset [of t "m q"] by auto
  show "distinct (?m p)" for p using queues_okD(1) [OF S] by simp
  show "p = p'" if "u \<in> set (?m p)" "u \<in> set (?m p')" for p p' u
    using queues_okD(2) [OF S, of u p p'] sub that by blast
  show "u \<noteq> i \<and> st u = Some (in_queue_status p)" if "u \<in> set (?m p)" for p u
    using queues_okD(3,4) [OF S, of u p] sub that by blast
qed (use queues_okD(5,6,7,8) [OF S] q in auto)

lemma queues_wake:
  assumes S: "queues_ok m st i r" and t: "t \<in> set (m q)" "q \<noteq> Q_ready"
  shows "queues_ok (m(q := remove1 t (m q), Q_ready := m Q_ready @ [t])) (st(t \<mapsto> THREAD_READY)) i r"
proof -
  let ?m = "m(q := remove1 t (m q))"
  have "t \<notin> set (?m p)" for p
    using queues_okD(1) [OF S, of q] queues_okD(2) [OF S, OF t(1), of p] by auto
  then have "queues_ok (?m(Q_ready := ?m Q_ready @ [t])) (st(t \<mapsto> THREAD_READY)) i r"
    using queues_okD(3,4) [OF S t(1)] t(2)
    by (intro queues_admit queues_remove [OF S t(2)]) (simp_all add: in_queue_status_def)
  then show ?thesis using t(2) by simp
qed

lemma queues_switch:
  assumes S: "queues_ok m st i r" and r: "st r \<noteq> Some THREAD_RUNNING"
  shows "m Q_ready = t # ts \<Longrightarrow> queues_ok (m(Q_ready := ts)) (st(t \<mapsto> THREAD_RUNNING)) i t"
    and "m Q_ready = [] \<Longrightarrow> queues_ok m (st(i \<mapsto> THREAD_RUNNING)) i i"
proof -
  assume m: "m Q_ready = t # ts"
  have t: "t \<noteq> i" "st t = Some THREAD_READY" "t \<notin> set ts"
    using queues_okD(3,4) [OF S, of t Q_ready] queues_okD(1) [OF S, of Q_ready] m by (auto simp: in_queue_status_def)
  have out: "t \<notin> set ((m(Q_ready := ts)) p)" for p
    using queues_okD(2) [OF S, of t Q_ready p] t(3) m by auto
  show "queues_ok (m(Q_ready := ts)) (st(t \<mapsto> THREAD_RUNNING)) i t"
  proof (rule queues_okI)
    show "distinct ((m(Q_ready := ts)) p)" for p using queues_okD(1) [OF S, of p] queues_okD(1) [OF S, of Q_ready] m by auto
    show "p = p'" if "u \<in> set ((m(Q_ready := ts)) p)" "u \<in> set ((m(Q_ready := ts)) p')" for p p' u
      using queues_okD(2) [OF S, of u p p'] that m by (auto split: if_splits)
    show "u \<noteq> i \<and> (st(t \<mapsto> THREAD_RUNNING)) u = Some (in_queue_status p)" if "u \<in> set ((m(Q_ready := ts)) p)" for p u
    proof -
      have "u \<noteq> t" "u \<in> set (m p)" using that out [of p] m by (auto split: if_splits)
      then show ?thesis using queues_okD(3,4) [OF S, of u p] by simp
    qed
    show "u \<in> set ((m(Q_ready := ts)) Q_ready)" if "(st(t \<mapsto> THREAD_RUNNING)) u = Some THREAD_READY" "u \<noteq> i" for u
      using queues_okD(5) [OF S, of u] that m by (auto split: if_splits)
    show "u = t" if "(st(t \<mapsto> THREAD_RUNNING)) u = Some THREAD_RUNNING" for u
      using queues_okD(6) [OF S, of u] that r by (auto split: if_splits)
  qed (use queues_okD(7) [OF S] t in auto)
next
  assume m: "m Q_ready = []"
  show "queues_ok m (st(i \<mapsto> THREAD_RUNNING)) i i"
  proof (rule queues_okI)
    show "p = p'" if "u \<in> set (m p)" "u \<in> set (m p')" for p p' u using queues_okD(2) [OF S that] .
    show "u \<noteq> i \<and> (st(i \<mapsto> THREAD_RUNNING)) u = Some (in_queue_status p)" if "u \<in> set (m p)" for p u
      using queues_okD(3,4) [OF S that] by auto
    show "u \<in> set (m Q_ready)" if "(st(i \<mapsto> THREAD_RUNNING)) u = Some THREAD_READY" "u \<noteq> i" for u
      using queues_okD(5) [OF S, of u] that by (auto split: if_splits)
    show "u = i" if "(st(i \<mapsto> THREAD_RUNNING)) u = Some THREAD_RUNNING" for u
      using queues_okD(6) [OF S, of u] that r by (auto split: if_splits)
  qed (use queues_okD(1,7,8) [OF S] in auto)
qed

lemma members_simps [simp]:
  "members (k\<lparr>ready_list := x\<rparr>) = (members k)(Q_ready := x)"
  "members (k\<lparr>sleep_list := x\<rparr>) = (members k)(Q_sleep := x)"
  "members (k\<lparr>blocked_threads := x\<rparr>) = (members k)(Q_blocked := x)"
  "members (set_sema s v ws k) = (members k)(Q_sema s := ws)"
  by (auto simp: fun_eq_iff members_def set_sema_def split: queue.split)

lemma members_at [simp]:
  "members k Q_ready = ready_list k" "members k Q_sleep = sleep_list k"
  "members k Q_blocked = blocked_threads k" "members k (Q_sema s) = waiters (semas k s)"
  by (simp_all add: members_def)

lemma members_cong:
  "ready_list k' = ready_list k \<Longrightarrow> sleep_list k' = sleep_list k \<Longrightarrow> blocked_threads k' = blocked_threads k \<Longrightarrow>
   (\<And>s. waiters (semas k' s) = waiters (semas k s)) \<Longrightarrow> members k' = members k"
  by (auto simp: fun_eq_iff members_def split: queue.split)



subsection \<open>What threads still have to do\<close>

text \<open>Frames that are on top when interrupts are off.\<close>

fun off_top :: "frame list \<Rightarrow> bool" where
  "off_top (Sema_loop _ _ # _) = True"
| "off_top (Set_level _ # _) = True"
| "off_top (Iret # _) = True"
| "off_top (Kernel_thread # _) = True"
| "off_top (Idle_hlt # _) = True"
| "off_top _ = False"

text \<open>What follows \<^verbatim>\<open>lock_acquire\<close> in a stack: nothing, or the rest of \<^verbatim>\<open>thread_create\<close>.\<close>

definition creation :: "nat \<Rightarrow> frame list" where
  "creation u = [Next_tid u, Call_release tid_lock, Finish_create u]"

definition after_acquire :: "nat \<Rightarrow> frame list \<Rightarrow> bool" where
  "after_acquire l r \<longleftrightarrow> l \<noteq> tid_lock \<and> r = [] \<or> (\<exists>u. l = tid_lock \<and> r = creation u)"

inductive base :: "nat \<Rightarrow> frame list \<Rightarrow> bool" for t where
  "base t []"
| "base t [Set_level True]"
| "base t [Kernel_thread]"
| "base t [Sema_loop (Sema n) True]"
| "after_acquire l r \<Longrightarrow> base t (Call_acquire l # r)"
| "after_acquire l r \<Longrightarrow> base t (Sema_loop (Lock_sema l) True # Set_holder l # r)"
| "after_acquire l r \<Longrightarrow> base t (Set_holder l # r)"
| "base t (creation u)"
| "base t [Call_release tid_lock, Finish_create u]"
| "base t [Call_up (Lock_sema tid_lock), Finish_create u]"
| "base t [Finish_create u]"
| "l \<noteq> tid_lock \<Longrightarrow> base t [Call_up (Lock_sema l)]"
| "l \<noteq> tid_lock \<Longrightarrow> base t [Call_up (Lock_sema l), Call_down (Waiter t), Call_acquire l]"
| "l \<noteq> tid_lock \<Longrightarrow> base t [Call_down (Waiter t), Call_acquire l]"
| "l \<noteq> tid_lock \<Longrightarrow> base t [Sema_loop (Waiter t) True, Call_acquire l]"
| "l \<noteq> tid_lock \<Longrightarrow> base t [Broadcast c l]"
| "base t [Idle_block]"
| "base t [Idle_hlt]"

text \<open>A preempted thread has returning from the interrupt on top.\<close>

definition stack_ok :: "nat \<Rightarrow> frame list \<Rightarrow> bool" where
  "stack_ok t fs \<longleftrightarrow> base t fs \<or> (\<exists>gs. base t gs \<and> \<not> off_top gs \<and> (fs = Iret # gs \<or> fs = Set_level False # Iret # gs))"

definition is_idle_stack :: "frame list \<Rightarrow> bool" where
  "is_idle_stack fs \<longleftrightarrow> Idle_block \<in> set fs \<or> Idle_hlt \<in> set fs"

definition stacks_ok :: "(nat \<Rightarrow> frame list) \<Rightarrow> (nat \<Rightarrow> thread_status option) \<Rightarrow> nat \<Rightarrow> nat \<Rightarrow> bool" where
  "stacks_ok fr st i r \<longleftrightarrow> (\<forall>t. stack_ok t (fr t) \<and> (is_idle_stack (fr t) \<longleftrightarrow> t = i)
     \<and> (st t = None \<or> st t = Some THREAD_DYING \<longrightarrow> fr t = [])
     \<and> (t \<noteq> r \<and> st t \<noteq> None \<and> st t \<noteq> Some THREAD_DYING \<longrightarrow> off_top (fr t)))"

text \<open>A thread under construction is blocked, in no list, and made by one thread.\<close>

definition makers_ok ::
    "(nat \<Rightarrow> frame list) \<Rightarrow> (queue \<Rightarrow> nat list) \<Rightarrow> (nat \<Rightarrow> thread_status option) \<Rightarrow> nat \<Rightarrow> bool" where
  "makers_ok fr m st i \<longleftrightarrow> (\<forall>t u. Finish_create u \<in> set (fr t) \<longrightarrow>
     st u = Some THREAD_BLOCKED \<and> (\<forall>q. u \<notin> set (m q)) \<and> u \<noteq> i
     \<and> (\<forall>t'. Finish_create u \<in> set (fr t') \<longrightarrow> t' = t))"

text \<open>A thread waiting on a semaphore is in the loop of \<^verbatim>\<open>sema_down\<close> for it.\<close>

definition waits_ok :: "(nat \<Rightarrow> frame list) \<Rightarrow> (queue \<Rightarrow> nat list) \<Rightarrow> bool" where
  "waits_ok fr m \<longleftrightarrow> (\<forall>s t. t \<in> set (m (Q_sema s)) \<longrightarrow> (\<exists>r. fr t = Sema_loop s True # r))"

definition holder_ok :: "nat \<Rightarrow> frame list \<Rightarrow> (nat \<Rightarrow> nat) \<Rightarrow> bool" where
  "holder_ok t fs ho \<longleftrightarrow> (\<forall>l. (Call_acquire l \<in> set fs \<longrightarrow> ho l \<noteq> t) \<and> (\<forall>c. Broadcast c l \<in> set fs \<longrightarrow> ho l = t)
     \<and> (Call_release l \<in> set fs \<and> Set_holder l \<notin> set fs \<and> Call_acquire l \<notin> set fs \<longrightarrow> ho l = t))"

definition holders_ok :: "(nat \<Rightarrow> frame list) \<Rightarrow> (nat \<Rightarrow> nat) \<Rightarrow> bool" where
  "holders_ok fr ho \<longleftrightarrow> (\<forall>t. holder_ok t (fr t) ho)
     \<and> (ho tid_lock \<noteq> 0 \<longrightarrow> Call_release tid_lock \<in> set (fr (ho tid_lock)))"

text \<open>A thread has the claim on a lock between taking the semaphore and recording itself as the
  holder, and between giving up being the holder and raising the semaphore.\<close>

definition claims :: "nat \<Rightarrow> frame list \<Rightarrow> bool" where
  "claims l fs \<longleftrightarrow> (\<forall>s b r. fs \<noteq> Sema_loop s b # r) \<and> (Set_holder l \<in> set fs \<or> Call_up (Lock_sema l) \<in> set fs)"

definition lock_ok :: "nat set \<Rightarrow> nat \<Rightarrow> 32 word \<Rightarrow> bool" where
  "lock_ok C h v \<longleftrightarrow> v = 1 \<and> h = 0 \<and> C = {} \<or> v = 0 \<and> h \<noteq> 0 \<and> C = {} \<or> v = 0 \<and> h = 0 \<and> (\<exists>t. C = {t})"

definition locks_ok :: "(nat \<Rightarrow> frame list) \<Rightarrow> (nat \<Rightarrow> nat) \<Rightarrow> (sema_id \<Rightarrow> 32 word) \<Rightarrow> bool" where
  "locks_ok fr ho va \<longleftrightarrow> (\<forall>l. lock_ok {t. claims l (fr t)} (ho l) (va (Lock_sema l)))"

definition valid :: "(nat \<Rightarrow> thread option) \<Rightarrow> bool" where
  "valid th \<longleftrightarrow> th 0 = None \<and> (\<forall>t x. th t = Some x \<longrightarrow> magic x = THREAD_MAGIC)"

definition sleepers_ok :: "kernel \<Rightarrow> bool" where
  "sleepers_ok k \<longleftrightarrow> (\<forall>t \<in> set (sleep_list k). next_tick_to_wakeup k \<le> wakeup_of k t)"

definition values_of :: "kernel \<Rightarrow> sema_id \<Rightarrow> 32 word" where
  "values_of k s = sema_value (semas k s)"

definition kinv0 :: "kernel \<Rightarrow> bool" where
  "kinv0 k \<longleftrightarrow> queues_ok (members k) (status_of k) (idle_thread k) (running k) \<and> valid (threads k)
     \<and> stacks_ok (frames k) (status_of k) (idle_thread k) (running k)
     \<and> makers_ok (frames k) (members k) (status_of k) (idle_thread k)
     \<and> waits_ok (frames k) (members k) \<and> holders_ok (frames k) (holder k)
     \<and> locks_ok (frames k) (holder k) (values_of k) \<and> sleepers_ok k"

definition kinv :: "kernel \<Rightarrow> bool" where
  "kinv k \<longleftrightarrow> kinv0 k \<and> status_of k (running k) = Some THREAD_RUNNING \<and> \<not> in_external_intr k
     \<and> (intr_on k \<longleftrightarrow> \<not> off_top (frames k (running k)))"

lemma kinv0I:
  assumes "queues_ok (members k) (status_of k) (idle_thread k) (running k)" "valid (threads k)"
    "stacks_ok (frames k) (status_of k) (idle_thread k) (running k)"
    "makers_ok (frames k) (members k) (status_of k) (idle_thread k)"
    "waits_ok (frames k) (members k)" "holders_ok (frames k) (holder k)"
    "locks_ok (frames k) (holder k) (values_of k)" "sleepers_ok k"
  shows "kinv0 k"
  using assms by (simp add: kinv0_def)

lemma kinv0D:
  assumes "kinv0 k"
  shows "queues_ok (members k) (status_of k) (idle_thread k) (running k)" "valid (threads k)"
    "stacks_ok (frames k) (status_of k) (idle_thread k) (running k)"
    "makers_ok (frames k) (members k) (status_of k) (idle_thread k)"
    "waits_ok (frames k) (members k)" "holders_ok (frames k) (holder k)"
    "locks_ok (frames k) (holder k) (values_of k)" "sleepers_ok k"
  using assms by (simp_all add: kinv0_def)

lemma kinvD:
  assumes "kinv k"
  shows "kinv0 k" "status_of k (running k) = Some THREAD_RUNNING" "\<not> in_external_intr k"
    "intr_on k \<longleftrightarrow> \<not> off_top (frames k (running k))"
  using assms by (simp_all add: kinv_def)

lemma stacks_okD:
  assumes "stacks_ok fr st i r"
  shows "stack_ok t (fr t)" "is_idle_stack (fr t) \<longleftrightarrow> t = i" "st t = None \<or> st t = Some THREAD_DYING \<Longrightarrow> fr t = []"
    "t \<noteq> r \<Longrightarrow> st t \<noteq> None \<Longrightarrow> st t \<noteq> Some THREAD_DYING \<Longrightarrow> off_top (fr t)"
  using assms by (auto simp: stacks_ok_def)

text \<open>Facts about the fields.\<close>

lemma is_thread_valid: "valid (threads k) \<Longrightarrow> is_thread k t \<longleftrightarrow> status_of k t \<noteq> None"
  by (cases "t = 0"; cases "threads k t") (auto simp: is_thread_def valid_def status_of_def)

lemma current_ok: "valid (threads k) \<Longrightarrow> status_of k (running k) = Some THREAD_RUNNING \<Longrightarrow> thread_current k = Inr (running k)"
  by (simp add: thread_current_def is_thread_valid)

lemma kinv_current: "kinv k \<Longrightarrow> thread_current k = Inr (running k)"
  by (simp add: current_ok kinv_def kinv0_def)

lemma status_upd [simp]:
  "status_of k t \<noteq> None \<Longrightarrow> status_of (set_status t s k) = (status_of k)(t \<mapsto> s)"
  by (auto simp: status_of_def set_status_def upd_thread_def fun_eq_iff)

lemma valid_upd [simp]: "valid (threads k) \<Longrightarrow> (\<And>x. magic (f x) = magic x) \<Longrightarrow> valid (threads (upd_thread t f k))"
  by (auto simp: valid_def upd_thread_def)

lemma upd_thread_fields [simp]:
  "frames (upd_thread t f k) = frames k" "running (upd_thread t f k) = running k"
  "ready_list (upd_thread t f k) = ready_list k" "sleep_list (upd_thread t f k) = sleep_list k"
  "blocked_threads (upd_thread t f k) = blocked_threads k" "all_list (upd_thread t f k) = all_list k"
  "next_tick_to_wakeup (upd_thread t f k) = next_tick_to_wakeup k" "idle_thread (upd_thread t f k) = idle_thread k"
  "initial_thread (upd_thread t f k) = initial_thread k" "intr_on (upd_thread t f k) = intr_on k"
  "in_external_intr (upd_thread t f k) = in_external_intr k" "semas (upd_thread t f k) = semas k"
  "yield_on_return (upd_thread t f k) = yield_on_return k" "ticks (upd_thread t f k) = ticks k"
  "holder (upd_thread t f k) = holder k" "next_tid (upd_thread t f k) = next_tid k"
  "cond_waiters (upd_thread t f k) = cond_waiters k"
  by (simp_all add: upd_thread_def)

lemmas set_status_fields [simp] = upd_thread_fields [of _ "\<lambda>th. th\<lparr>status := s\<rparr>" for s, folded set_status_def]

lemma members_upd_thread [simp]: "members (upd_thread t f k) = members k" "members (set_status t s k) = members k"
  by (rule members_cong; simp)+

lemma wakeup_upd [simp]:
  "wakeup_of (set_status t s k) = wakeup_of k" "wakeup_of (upd_thread t (\<lambda>th. th\<lparr>stack := f th\<rparr>) k) = wakeup_of k"
  "wakeup_of (upd_thread t (\<lambda>th. th\<lparr>tid := g th\<rparr>) k) = wakeup_of k"
  "wakeup_of (upd_thread t (\<lambda>th. th\<lparr>priority := g th\<rparr>) k) = wakeup_of k"
  by (auto simp: fun_eq_iff wakeup_of_def set_status_def upd_thread_def split: option.split)

lemma status_keep [simp]:
  "status_of (upd_thread t (\<lambda>th. th\<lparr>stack := f th\<rparr>) k) = status_of k"
  "status_of (upd_thread t (\<lambda>th. th\<lparr>tid := g th\<rparr>) k) = status_of k"
  "status_of (upd_thread t (\<lambda>th. th\<lparr>priority := g th\<rparr>) k) = status_of k"
  "status_of (upd_thread t (\<lambda>th. th\<lparr>wakeup_tick := g th\<rparr>) k) = status_of k"
  by (auto simp: fun_eq_iff status_of_def upd_thread_def option.map_comp comp_def option.map_ident)


lemma thread_fields [simp]:
  "status_of (k\<lparr>frames := x0\<rparr>) = status_of k" "wakeup_of (k\<lparr>frames := x0\<rparr>) = wakeup_of k"
  "status_of (k\<lparr>running := x1\<rparr>) = status_of k" "wakeup_of (k\<lparr>running := x1\<rparr>) = wakeup_of k"
  "status_of (k\<lparr>ready_list := x2\<rparr>) = status_of k" "wakeup_of (k\<lparr>ready_list := x2\<rparr>) = wakeup_of k"
  "status_of (k\<lparr>all_list := x3\<rparr>) = status_of k" "wakeup_of (k\<lparr>all_list := x3\<rparr>) = wakeup_of k"
  "status_of (k\<lparr>sleep_list := x4\<rparr>) = status_of k" "wakeup_of (k\<lparr>sleep_list := x4\<rparr>) = wakeup_of k"
  "status_of (k\<lparr>blocked_threads := x5\<rparr>) = status_of k" "wakeup_of (k\<lparr>blocked_threads := x5\<rparr>) = wakeup_of k"
  "status_of (k\<lparr>next_tick_to_wakeup := x6\<rparr>) = status_of k" "wakeup_of (k\<lparr>next_tick_to_wakeup := x6\<rparr>) = wakeup_of k"
  "status_of (k\<lparr>idle_thread := x7\<rparr>) = status_of k" "wakeup_of (k\<lparr>idle_thread := x7\<rparr>) = wakeup_of k"
  "status_of (k\<lparr>initial_thread := x8\<rparr>) = status_of k" "wakeup_of (k\<lparr>initial_thread := x8\<rparr>) = wakeup_of k"
  "status_of (k\<lparr>next_tid := x9\<rparr>) = status_of k" "wakeup_of (k\<lparr>next_tid := x9\<rparr>) = wakeup_of k"
  "status_of (k\<lparr>intr_on := x10\<rparr>) = status_of k" "wakeup_of (k\<lparr>intr_on := x10\<rparr>) = wakeup_of k"
  "status_of (k\<lparr>in_external_intr := x11\<rparr>) = status_of k" "wakeup_of (k\<lparr>in_external_intr := x11\<rparr>) = wakeup_of k"
  "status_of (k\<lparr>yield_on_return := x12\<rparr>) = status_of k" "wakeup_of (k\<lparr>yield_on_return := x12\<rparr>) = wakeup_of k"
  "status_of (k\<lparr>ticks := x13\<rparr>) = status_of k" "wakeup_of (k\<lparr>ticks := x13\<rparr>) = wakeup_of k"
  "status_of (k\<lparr>idle_ticks := x14\<rparr>) = status_of k" "wakeup_of (k\<lparr>idle_ticks := x14\<rparr>) = wakeup_of k"
  "status_of (k\<lparr>kernel_ticks := x15\<rparr>) = status_of k" "wakeup_of (k\<lparr>kernel_ticks := x15\<rparr>) = wakeup_of k"
  "status_of (k\<lparr>thread_ticks := x16\<rparr>) = status_of k" "wakeup_of (k\<lparr>thread_ticks := x16\<rparr>) = wakeup_of k"
  "status_of (k\<lparr>semas := x17\<rparr>) = status_of k" "wakeup_of (k\<lparr>semas := x17\<rparr>) = wakeup_of k"
  "status_of (k\<lparr>holder := x18\<rparr>) = status_of k" "wakeup_of (k\<lparr>holder := x18\<rparr>) = wakeup_of k"
  "status_of (k\<lparr>cond_waiters := x19\<rparr>) = status_of k" "wakeup_of (k\<lparr>cond_waiters := x19\<rparr>) = wakeup_of k"
  by (simp_all add: fun_eq_iff status_of_def wakeup_of_def)

lemma members_fields [simp]:
  "members (k\<lparr>threads := y\<rparr>) = members k"
  "members (k\<lparr>frames := x0\<rparr>) = members k"
  "members (k\<lparr>running := x1\<rparr>) = members k"
  "members (k\<lparr>all_list := x3\<rparr>) = members k"
  "members (k\<lparr>next_tick_to_wakeup := x6\<rparr>) = members k"
  "members (k\<lparr>idle_thread := x7\<rparr>) = members k"
  "members (k\<lparr>initial_thread := x8\<rparr>) = members k"
  "members (k\<lparr>next_tid := x9\<rparr>) = members k"
  "members (k\<lparr>intr_on := x10\<rparr>) = members k"
  "members (k\<lparr>in_external_intr := x11\<rparr>) = members k"
  "members (k\<lparr>yield_on_return := x12\<rparr>) = members k"
  "members (k\<lparr>ticks := x13\<rparr>) = members k"
  "members (k\<lparr>idle_ticks := x14\<rparr>) = members k"
  "members (k\<lparr>kernel_ticks := x15\<rparr>) = members k"
  "members (k\<lparr>thread_ticks := x16\<rparr>) = members k"
  "members (k\<lparr>holder := x18\<rparr>) = members k"
  "members (k\<lparr>cond_waiters := x19\<rparr>) = members k"
  by (rule members_cong; simp)+

lemma values_fields [simp]:
  "values_of (k\<lparr>threads := y\<rparr>) = values_of k" "values_of (upd_thread t f k) = values_of k" "values_of (set_status t st k) = values_of k"
  "values_of (set_sema s v ws k) = (values_of k)(s := v)"
  "values_of (k\<lparr>frames := x0\<rparr>) = values_of k"
  "values_of (k\<lparr>running := x1\<rparr>) = values_of k"
  "values_of (k\<lparr>ready_list := x2\<rparr>) = values_of k"
  "values_of (k\<lparr>all_list := x3\<rparr>) = values_of k"
  "values_of (k\<lparr>sleep_list := x4\<rparr>) = values_of k"
  "values_of (k\<lparr>blocked_threads := x5\<rparr>) = values_of k"
  "values_of (k\<lparr>next_tick_to_wakeup := x6\<rparr>) = values_of k"
  "values_of (k\<lparr>idle_thread := x7\<rparr>) = values_of k"
  "values_of (k\<lparr>initial_thread := x8\<rparr>) = values_of k"
  "values_of (k\<lparr>next_tid := x9\<rparr>) = values_of k"
  "values_of (k\<lparr>intr_on := x10\<rparr>) = values_of k"
  "values_of (k\<lparr>in_external_intr := x11\<rparr>) = values_of k"
  "values_of (k\<lparr>yield_on_return := x12\<rparr>) = values_of k"
  "values_of (k\<lparr>ticks := x13\<rparr>) = values_of k"
  "values_of (k\<lparr>idle_ticks := x14\<rparr>) = values_of k"
  "values_of (k\<lparr>kernel_ticks := x15\<rparr>) = values_of k"
  "values_of (k\<lparr>thread_ticks := x16\<rparr>) = values_of k"
  "values_of (k\<lparr>holder := x18\<rparr>) = values_of k"
  "values_of (k\<lparr>cond_waiters := x19\<rparr>) = values_of k"
  by (auto simp: fun_eq_iff values_of_def set_sema_def)

lemma set_sema_fields [simp]:
  "threads (set_sema s v ws k) = threads k" "frames (set_sema s v ws k) = frames k" "running (set_sema s v ws k) = running k"
  "ready_list (set_sema s v ws k) = ready_list k" "sleep_list (set_sema s v ws k) = sleep_list k"
  "blocked_threads (set_sema s v ws k) = blocked_threads k" "idle_thread (set_sema s v ws k) = idle_thread k"
  "next_tick_to_wakeup (set_sema s v ws k) = next_tick_to_wakeup k" "intr_on (set_sema s v ws k) = intr_on k"
  "in_external_intr (set_sema s v ws k) = in_external_intr k" "holder (set_sema s v ws k) = holder k"
  "cond_waiters (set_sema s v ws k) = cond_waiters k" "status_of (set_sema s v ws k) = status_of k"
  "wakeup_of (set_sema s v ws k) = wakeup_of k" "initial_thread (set_sema s v ws k) = initial_thread k"
  "ticks (set_sema s v ws k) = ticks k" "sema_value (semas (set_sema s v ws k) s) = v" "waiters (semas (set_sema s v ws k) s) = ws"
  by (simp_all add: set_sema_def fun_eq_iff status_of_def wakeup_of_def)

lemma kinv0_cong:
  assumes "threads k' = threads k" "frames k' = frames k" "running k' = running k" "ready_list k' = ready_list k"
    "sleep_list k' = sleep_list k" "blocked_threads k' = blocked_threads k" "idle_thread k' = idle_thread k"
    "next_tick_to_wakeup k' = next_tick_to_wakeup k" "semas k' = semas k" "holder k' = holder k"
  shows "kinv0 k' \<longleftrightarrow> kinv0 k"
proof -
  have "members k' = members k" using assms by (intro members_cong) auto
  moreover have "status_of k' = status_of k" "wakeup_of k' = wakeup_of k" "values_of k' = values_of k"
    using assms by (simp_all add: fun_eq_iff status_of_def wakeup_of_def values_of_def)
  ultimately show ?thesis using assms by (simp add: kinv0_def sleepers_ok_def)
qed


subsection \<open>The scheduler\<close>

definition next_thread :: "kernel \<Rightarrow> nat" where
  "next_thread k = (if ready_list k = [] then idle_thread k else hd (ready_list k))"

definition switched :: "kernel \<Rightarrow> kernel" where
  "switched k = set_status (next_thread k) THREAD_RUNNING
     (k\<lparr>ready_list := tl (ready_list k), running := next_thread k, thread_ticks := 0\<rparr>)"

lemma switched_fields [simp]:
  "frames (switched k) = frames k" "running (switched k) = next_thread k" "ready_list (switched k) = tl (ready_list k)"
  "sleep_list (switched k) = sleep_list k" "blocked_threads (switched k) = blocked_threads k"
  "next_tick_to_wakeup (switched k) = next_tick_to_wakeup k" "idle_thread (switched k) = idle_thread k"
  "initial_thread (switched k) = initial_thread k" "intr_on (switched k) = intr_on k"
  "in_external_intr (switched k) = in_external_intr k" "semas (switched k) = semas k" "holder (switched k) = holder k"
  "wakeup_of (switched k) = wakeup_of k" "values_of (switched k) = values_of k" "ticks (switched k) = ticks k"
  by (simp_all add: switched_def)

lemma next_thread_status:
  assumes "queues_ok (members k) (status_of k) (idle_thread k) (running k)"
  shows "status_of k (next_thread k) \<noteq> None" "status_of k (next_thread k) \<noteq> Some THREAD_DYING"
proof -
  have "status_of k (next_thread k) = Some THREAD_READY \<or> next_thread k = idle_thread k"
    using queues_okD(4) [OF assms, of _ Q_ready] by (cases "ready_list k") (auto simp: next_thread_def in_queue_status_def)
  then show "status_of k (next_thread k) \<noteq> None" "status_of k (next_thread k) \<noteq> Some THREAD_DYING"
    using queues_okD(7) [OF assms] by auto
qed

lemma switched_queues:
  assumes S: "queues_ok (members k) (status_of k) (idle_thread k) (running k)"
    and r: "status_of k (running k) \<noteq> Some THREAD_RUNNING"
  shows "queues_ok (members (switched k)) (status_of (switched k)) (idle_thread k) (next_thread k)"
    "status_of (switched k) = (status_of k)(next_thread k \<mapsto> THREAD_RUNNING)"
    "members (switched k) = (members k)(Q_ready := tl (ready_list k))"
proof -
  show st: "status_of (switched k) = (status_of k)(next_thread k \<mapsto> THREAD_RUNNING)"
    using next_thread_status(1) [OF S] by (simp add: switched_def)
  show m: "members (switched k) = (members k)(Q_ready := tl (ready_list k))" by (simp add: switched_def)
  show "queues_ok (members (switched k)) (status_of (switched k)) (idle_thread k) (next_thread k)"
  proof (cases "ready_list k")
    case Nil
    then have "(members k)(Q_ready := tl (ready_list k)) = members k" by (simp add: fun_upd_idem)
    then show ?thesis using queues_switch(2) [OF S r] Nil st m by (simp add: next_thread_def)
  next
    case (Cons t ts)
    then show ?thesis using queues_switch(1) [OF S r, of t ts] st m by (simp add: next_thread_def)
  qed
qed

lemma schedule_eq:
  assumes S: "queues_ok (members k) (status_of k) (idle_thread k) (running k)" and V: "valid (threads k)"
    and r: "status_of k (running k) \<noteq> Some THREAD_RUNNING" "\<not> intr_on k"
  shows "schedule k = Inr (if status_of k (running k) = Some THREAD_DYING \<and> running k \<noteq> initial_thread k
    then free_thread (running k) (switched k) else switched k)"
proof -
  have nt: "next_thread_to_run k = (next_thread k, k\<lparr>ready_list := tl (ready_list k)\<rparr>)"
    by (cases "ready_list k") (auto simp: next_thread_to_run_def next_thread_def)
  have "status_of k 0 = None" using V by (simp add: valid_def status_of_def)
  then have nz: "running k \<noteq> 0" using queues_okD(8) [OF S] by metis
  have nd: "status_of k (next_thread k) \<noteq> None" "status_of k (next_thread k) \<noteq> Some THREAD_DYING"
    using next_thread_status [OF S] .
  have th: "is_thread (k\<lparr>ready_list := tl (ready_list k)\<rparr>) (next_thread k)"
    using is_thread_valid [of "k\<lparr>ready_list := tl (ready_list k)\<rparr>"] V nd by simp
  have eq: "set_status (next_thread k) THREAD_RUNNING (k\<lparr>ready_list := tl (ready_list k), running := next_thread k\<rparr>)\<lparr>thread_ticks := 0\<rparr> = switched k"
    by (simp add: switched_def set_status_def upd_thread_def)
  show ?thesis
  proof (cases "running k = next_thread k")
    case True
    have "set_status (next_thread k) THREAD_RUNNING (k\<lparr>ready_list := tl (ready_list k)\<rparr>)\<lparr>thread_ticks := 0\<rparr> = switched k"
      using True by (simp add: switched_def set_status_def upd_thread_def)
    then show ?thesis using True nt th r nd by (simp add: schedule_def thread_schedule_tail_def Let_def)
  next
    case False
    let ?k = "k\<lparr>ready_list := tl (ready_list k), running := next_thread k\<rparr>"
    have "status_of (set_status (next_thread k) THREAD_RUNNING ?k) (running k) = status_of k (running k)"
      using nd(1) False by simp
    then show ?thesis using False nt th r nz eq by (simp add: schedule_def thread_schedule_tail_def Let_def)
  qed
qed


lemma makers_status:
  assumes "makers_ok fr m st i" "\<And>u t. Finish_create u \<in> set (fr t) \<Longrightarrow> st' u = st u"
    "\<And>q. set (m' q) \<subseteq> set (m q)"
  shows "makers_ok fr m' st' i"
  using assms unfolding makers_ok_def by (metis subsetD)

lemma makersD:
  assumes "makers_ok fr m st i" "Finish_create u \<in> set (fr t)"
  shows "st u = Some THREAD_BLOCKED" "u \<notin> set (m q)" "u \<noteq> i" "Finish_create u \<in> set (fr t') \<Longrightarrow> t' = t"
  using assms unfolding makers_ok_def by blast+

lemma free_thread_fields [simp]:
  "running (free_thread t k) = running k" "ready_list (free_thread t k) = ready_list k"
  "sleep_list (free_thread t k) = sleep_list k" "blocked_threads (free_thread t k) = blocked_threads k"
  "next_tick_to_wakeup (free_thread t k) = next_tick_to_wakeup k" "idle_thread (free_thread t k) = idle_thread k"
  "intr_on (free_thread t k) = intr_on k" "in_external_intr (free_thread t k) = in_external_intr k"
  "semas (free_thread t k) = semas k" "holder (free_thread t k) = holder k" "members (free_thread t k) = members k"
  "values_of (free_thread t k) = values_of k" "status_of (free_thread t k) = (status_of k)(t := None)"
  "frames (free_thread t k) = (frames k)(t := [])" "threads (free_thread t k) = (threads k)(t := None)"
  "ticks (free_thread t k) = ticks k"
  by (auto simp: free_thread_def status_of_def fun_eq_iff)

lemma kinv0_free:
  assumes k: "kinv0 k" and t: "status_of k t = Some THREAD_DYING" "t \<noteq> running k"
  shows "kinv0 (free_thread t k)"
proof -
  note K = kinv0D [OF k]
  have fr: "(frames k)(t := []) = frames k" using stacks_okD(3) [OF K(3)] t(1) by (simp add: fun_upd_idem)
  show ?thesis
  proof (rule kinv0I)
  show "queues_ok (members (free_thread t k)) (status_of (free_thread t k)) (idle_thread (free_thread t k)) (running (free_thread t k))"
    using queues_free [OF K(1) t] by simp
  show "valid (threads (free_thread t k))" using K(2) by (auto simp: valid_def)
  show "stacks_ok (frames (free_thread t k)) (status_of (free_thread t k)) (idle_thread (free_thread t k)) (running (free_thread t k))"
    using stacks_okD [OF K(3)] fr t(1) by (auto simp: stacks_ok_def)
  show "makers_ok (frames (free_thread t k)) (members (free_thread t k)) (status_of (free_thread t k)) (idle_thread (free_thread t k))"
    using fr makersD(1) [OF K(4)] t(1) by (auto intro!: makers_status [OF K(4)])
  have "t \<notin> set (sleep_list k)" using queues_okD(4) [OF K(1), of t Q_sleep] t(1) by (auto simp: in_queue_status_def)
  then show "sleepers_ok (free_thread t k)"
    using K(8) by (auto simp: sleepers_ok_def wakeup_of_def free_thread_def)
qed (use fr K in simp_all)
qed

lemma switched_kinv0:
  assumes k: "kinv0 k" and r: "status_of k (running k) \<noteq> Some THREAD_RUNNING"
    and off: "status_of k (running k) \<noteq> Some THREAD_DYING \<longrightarrow> off_top (frames k (running k))"
  shows "kinv0 (switched k)"
proof (rule kinv0I)
  note K = kinv0D [OF k] and sw = switched_queues [OF kinv0D(1) [OF k] r]
  note nt = next_thread_status [OF K(1)]
  show "queues_ok (members (switched k)) (status_of (switched k)) (idle_thread (switched k)) (running (switched k))"
    using sw(1) by simp
  show "valid (threads (switched k))" using K(2) by (simp add: switched_def set_status_def)
  show "stacks_ok (frames (switched k)) (status_of (switched k)) (idle_thread (switched k)) (running (switched k))"
    unfolding stacks_ok_def
  proof (intro allI conjI impI)
    fix t
    show "stack_ok t (frames (switched k) t)" "is_idle_stack (frames (switched k) t) \<longleftrightarrow> t = idle_thread (switched k)"
      using stacks_okD(1,2) [OF K(3)] by simp_all
    show "frames (switched k) t = []" if "status_of (switched k) t = None \<or> status_of (switched k) t = Some THREAD_DYING"
      using stacks_okD(3) [OF K(3), of t] that unfolding sw(2) by (auto split: if_splits)
    show "off_top (frames (switched k) t)" if "t \<noteq> running (switched k) \<and> status_of (switched k) t \<noteq> None \<and> status_of (switched k) t \<noteq> Some THREAD_DYING"
      using stacks_okD(4) [OF K(3), of t] off that unfolding sw(2) by (cases "t = running k") auto
  qed
  have "next_thread k \<noteq> u" if u: "Finish_create u \<in> set (frames k t)" for u t
    using makersD(3) [OF K(4) u] makersD(2) [OF K(4) u, of Q_ready] by (cases "ready_list k") (auto simp: next_thread_def)
  moreover have "set (tl (ready_list k)) \<subseteq> set (ready_list k)" by (cases "ready_list k") auto
  ultimately show "makers_ok (frames (switched k)) (members (switched k)) (status_of (switched k)) (idle_thread (switched k))"
    unfolding sw(2,3) switched_fields by - (rule makers_status [OF K(4)], auto split: if_splits)
  show "waits_ok (frames (switched k)) (members (switched k))"
    using K(5) unfolding sw(3) by (auto simp: waits_ok_def)
  show "sleepers_ok (switched k)" using K(8) by (simp add: sleepers_ok_def)
qed (use kinv0D [OF k] in simp_all)

lemma schedule_kinv:
  assumes k: "kinv0 k" and r: "status_of k (running k) \<noteq> Some THREAD_RUNNING" "\<not> intr_on k" "\<not> in_external_intr k"
    and off: "status_of k (running k) \<noteq> Some THREAD_DYING \<longrightarrow> off_top (frames k (running k))"
  shows "\<exists>k'. schedule k = Inr k' \<and> kinv k' \<and> running k' = next_thread k \<and> ready_list k' = tl (ready_list k)
    \<and> holder k' = holder k \<and> ticks k' = ticks k"
proof -
  note K = kinv0D [OF k] and sw = switched_queues [OF kinv0D(1) [OF k] r(1)]
  note nt = next_thread_status [OF K(1)]
  have sk: "kinv0 (switched k)" by (rule switched_kinv0 [OF k r(1) off])
  have run: "status_of (switched k) (running (switched k)) = Some THREAD_RUNNING" using sw(2) by simp
  have ot: "off_top (frames k (next_thread k))"
    using stacks_okD(4) [OF K(3), of "next_thread k"] nt off by (cases "next_thread k = running k") auto
  show ?thesis
  proof (cases "status_of k (running k) = Some THREAD_DYING \<and> running k \<noteq> initial_thread k")
    case True
    have neq: "running k \<noteq> next_thread k" using nt(2) True by auto
    then have dy: "status_of (switched k) (running k) = Some THREAD_DYING" using True sw(2) by simp
    have "kinv0 (free_thread (running k) (switched k))"
      using kinv0_free [OF sk dy] neq by simp
    then show ?thesis
      using schedule_eq [OF K(1,2) r(1,2)] True neq run ot r by (simp add: kinv_def)
  next
    case False
    then show ?thesis
      using schedule_eq [OF K(1,2) r(1,2)] False run ot r sk by (simp add: kinv_def)
  qed
qed



subsection \<open>Changing the frames of the running thread\<close>

lemma stacks_upd:
  assumes "stacks_ok fr st i r" "stack_ok r fs" "is_idle_stack fs \<longleftrightarrow> r = i" "st r \<noteq> None" "st r \<noteq> Some THREAD_DYING"
  shows "stacks_ok (fr(r := fs)) st i r"
  unfolding stacks_ok_def
proof
  fix t
  show "stack_ok t ((fr(r := fs)) t) \<and> (is_idle_stack ((fr(r := fs)) t) \<longleftrightarrow> t = i)
     \<and> (st t = None \<or> st t = Some THREAD_DYING \<longrightarrow> (fr(r := fs)) t = [])
     \<and> (t \<noteq> r \<and> st t \<noteq> None \<and> st t \<noteq> Some THREAD_DYING \<longrightarrow> off_top ((fr(r := fs)) t))"
    using assms(2-5) stacks_okD [OF assms(1), of t] by (cases "t = r") auto
qed

lemma makers_upd:
  assumes "makers_ok fr m st i" "\<And>u. Finish_create u \<in> set fs \<Longrightarrow> Finish_create u \<in> set (fr r)"
  shows "makers_ok (fr(r := fs)) m st i"
proof -
  have "Finish_create u \<in> set ((fr(r := fs)) t) \<Longrightarrow> Finish_create u \<in> set (fr t)" for u t
    using assms(2) by (cases "t = r") auto
  note sub = this
  show ?thesis unfolding makers_ok_def
  proof (intro allI impI)
    fix t u assume "Finish_create u \<in> set ((fr(r := fs)) t)"
    note u = sub [OF this]
    show "st u = Some THREAD_BLOCKED \<and> (\<forall>q. u \<notin> set (m q)) \<and> u \<noteq> i \<and> (\<forall>t'. Finish_create u \<in> set ((fr(r := fs)) t') \<longrightarrow> t' = t)"
      using makersD [OF assms(1) u] sub by blast
  qed
qed

lemma waits_upd:
  assumes "waits_ok fr m" "\<And>q. r \<notin> set (m q)"
  shows "waits_ok (fr(r := fs)) m"
  using assms unfolding waits_ok_def by (metis fun_upd_other)

lemma holders_upd:
  assumes H: "holders_ok fr ho" and ch: "\<And>l. ho' l \<noteq> ho l \<Longrightarrow> ho l \<in> {0, r} \<and> ho' l \<in> {0, r}"
    and z: "fr 0 = []" "r \<noteq> 0" and h: "holder_ok r fs ho'" "ho' tid_lock = r \<Longrightarrow> Call_release tid_lock \<in> set fs"
  shows "holders_ok (fr(r := fs)) ho'"
  unfolding holders_ok_def
proof (intro conjI allI impI)
  fix t show "holder_ok t ((fr(r := fs)) t) ho'"
  proof (cases "t = r \<or> t = 0")
    case True
    then show ?thesis using h z by (auto simp: holder_ok_def)
  next
    case False
    have "ho' l = t \<longleftrightarrow> ho l = t" for l using ch [of l] False by (cases "ho' l = ho l") auto
    moreover have "holder_ok t (fr t) ho" using H by (simp add: holders_ok_def)
    ultimately show ?thesis using False by (simp add: holder_ok_def)
  qed
next
  assume nz: "ho' tid_lock \<noteq> 0"
  show "Call_release tid_lock \<in> set ((fr(r := fs)) (ho' tid_lock))"
  proof (cases "ho' tid_lock = r")
    case True
    then show ?thesis using h(2) by simp
  next
    case False
    then have "ho' tid_lock = ho tid_lock" using ch [of tid_lock] nz by auto
    then show ?thesis using H nz False by (auto simp: holders_ok_def)
  qed
qed

text \<open>The steps a lock can take.\<close>

definition lock_moves :: "nat \<Rightarrow> bool \<Rightarrow> bool \<Rightarrow> nat \<Rightarrow> nat \<Rightarrow> 32 word \<Rightarrow> 32 word \<Rightarrow> bool" where
  "lock_moves r c c' h h' v v' \<longleftrightarrow>
     (c' = c \<and> h' = h \<and> v' = v)
   \<or> (\<not> c \<and> c' \<and> h' = h \<and> v \<noteq> 0 \<and> v' = v - 1)
   \<or> (c \<and> \<not> c' \<and> h' = r \<and> v' = v)
   \<or> (\<not> c \<and> c' \<and> h = r \<and> h' = 0 \<and> v' = v)
   \<or> (c \<and> \<not> c' \<and> h' = h \<and> v' = v + 1)"

lemma lock_ok_moves:
  assumes "lock_ok C h v" "lock_moves r (r \<in> C) c' h h' v v'" "r \<noteq> 0"
  shows "lock_ok (if c' then insert r C else C - {r}) h' v'"
proof -
  from assms(1) consider "v = 1" "h = 0" "C = {}" | "v = 0" "h \<noteq> 0" "C = {}" | t where "v = 0" "h = 0" "C = {t}"
    unfolding lock_ok_def by blast
  then show ?thesis
  proof cases
    case 1
    then show ?thesis using assms(2,3) unfolding lock_moves_def lock_ok_def by auto
  next
    case 2
    then show ?thesis using assms(2,3) unfolding lock_moves_def lock_ok_def by auto
  next
    case 3
    then show ?thesis using assms(2,3) unfolding lock_moves_def lock_ok_def by (cases "r = t") auto
  qed
qed

lemma locks_upd:
  assumes L: "locks_ok fr ho va" and r: "r \<noteq> 0"
    and mv: "\<And>l. lock_moves r (claims l (fr r)) (claims l fs) (ho l) (ho' l) (va (Lock_sema l)) (va' (Lock_sema l))"
  shows "locks_ok (fr(r := fs)) ho' va'"
  unfolding locks_ok_def
proof
  fix l
  have "{t. claims l ((fr(r := fs)) t)} = (if claims l fs then insert r {t. claims l (fr t)} else {t. claims l (fr t)} - {r})"
    by auto
  then show "lock_ok {t. claims l ((fr(r := fs)) t)} (ho' l) (va' (Lock_sema l))"
    using lock_ok_moves [of "{t. claims l (fr t)}" "ho l" "va (Lock_sema l)" r "claims l fs"] L mv [of l] r
    by (auto simp: locks_ok_def)
qed

lemma lock_moves_same [simp]: "lock_moves r c c h h v v"
  by (simp add: lock_moves_def)

lemma kinv_running:
  assumes "kinv k"
  shows "running k \<noteq> 0" "running k \<notin> set (members k q)" "frames k 0 = []" "status_of k (running k) \<noteq> None"
    "running k \<notin> set (waiters (semas k s))"
proof -
  note K = kinv0D [OF kinvD(1) [OF assms]]
  have z: "status_of k 0 = None" using K(2) by (simp add: valid_def status_of_def)
  then show "running k \<noteq> 0" using kinvD(2) [OF assms] by (metis option.distinct(1))
  show "status_of k (running k) \<noteq> None" using kinvD(2) [OF assms] by simp
  show "frames k 0 = []" using stacks_okD(3) [OF K(3)] z by simp
  show m: "running k \<notin> set (members k q)" for q
    using queues_okD(4) [OF K(1), of "running k" q] kinvD(2) [OF assms] by (auto simp: in_queue_status_def split: if_splits)
  show "running k \<notin> set (waiters (semas k s))" using m [of "Q_sema s"] by simp
qed

text \<open>A step that changes the frames of the running thread, holders and semaphore values, and schedules
  nothing.\<close>

lemma local_step:
  assumes k: "kinv k" and r: "r = running k" "frames k r = fs"
    and same: "valid (threads k')" "running k' = r" "members k' = members k" "idle_thread k' = idle_thread k"
      "next_tick_to_wakeup k' = next_tick_to_wakeup k" "in_external_intr k' = in_external_intr k"
    and s: "status_of k' = status_of k" "wakeup_of k' = wakeup_of k"
    and fr: "frames k' = (frames k)(r := fs')" and io: "intr_on k' \<longleftrightarrow> \<not> off_top fs'"
    and st: "stack_ok r fs'" "is_idle_stack fs' \<longleftrightarrow> is_idle_stack fs"
    and mk: "\<And>u. Finish_create u \<in> set fs' \<Longrightarrow> Finish_create u \<in> set fs"
    and ho: "\<And>l. holder k' l \<noteq> holder k l \<Longrightarrow> holder k l \<in> {0, r} \<and> holder k' l \<in> {0, r}"
      "holder_ok r fs' (holder k')" "holder k' tid_lock = r \<Longrightarrow> Call_release tid_lock \<in> set fs'"
    and mv: "\<And>l. lock_moves r (claims l fs) (claims l fs') (holder k l) (holder k' l)
      (values_of k (Lock_sema l)) (values_of k' (Lock_sema l))"
  shows "kinv k'"
proof -
  note K = kinv0D [OF kinvD(1) [OF k]] and R = kinv_running [OF k]
  have sl: "sleep_list k' = sleep_list k" using same(3) by (metis members_at(2))
  have run: "status_of k r = Some THREAD_RUNNING" using kinvD(2) [OF k] r by simp
  have "kinv0 k'"
  proof (rule kinv0I)
    show "queues_ok (members k') (status_of k') (idle_thread k') (running k')" using K(1) same s r by simp
    show "valid (threads k')" by (rule same(1))
    show "stacks_ok (frames k') (status_of k') (idle_thread k') (running k')"
      unfolding fr same(2-) s by (rule stacks_upd) (use K(3) r run st stacks_okD(2) [OF K(3), of r] in auto)
    show "makers_ok (frames k') (members k') (status_of k') (idle_thread k')"
      unfolding fr same(2-) s by (rule makers_upd [OF K(4)]) (use mk r in auto)
    show "waits_ok (frames k') (members k')"
      unfolding fr same(2-) s by (rule waits_upd [OF K(5)]) (use R(2) r in auto)
    show "holders_ok (frames k') (holder k')"
      unfolding fr by (rule holders_upd [OF K(6) ho(1)]) (use R ho r in auto)
    show "locks_ok (frames k') (holder k') (values_of k')"
      unfolding fr by (rule locks_upd [OF K(7)]) (use R mv r in auto)
    show "sleepers_ok k'" using K(8) s same sl by (simp add: sleepers_ok_def)
  qed
  then show ?thesis using kinvD(2,3) [OF k] same s fr io r by (simp add: kinv_def)
qed



subsection \<open>Which stacks occur\<close>

lemmas stack_defs = creation_def after_acquire_def is_idle_stack_def

lemma base_stack [simp]: "base t fs \<Longrightarrow> stack_ok t fs"
  by (simp add: stack_ok_def)

lemma stack_base: "stack_ok t (f # fs) \<Longrightarrow> f \<noteq> Iret \<Longrightarrow> f \<noteq> Set_level False \<Longrightarrow> base t (f # fs)"
  by (auto simp: stack_ok_def)

lemma base_no_iret: "base t fs \<Longrightarrow> Iret \<notin> set fs \<and> Set_level False \<notin> set fs"
  by (auto simp: stack_defs elim!: base.cases)

lemma stack_iret: "stack_ok t (Iret # fs) \<Longrightarrow> base t fs \<and> \<not> off_top fs"
  using base_no_iret [of t "Iret # fs"] by (auto simp: stack_ok_def)

lemma stack_level_off: "stack_ok t (Set_level False # fs) \<Longrightarrow> \<exists>gs. fs = Iret # gs \<and> base t gs \<and> \<not> off_top gs"
  using base_no_iret [of t "Set_level False # fs"] by (auto simp: stack_ok_def)

lemma base_tops:
  "base t (Set_level b # r) \<Longrightarrow> b \<and> r = []"
  "base t (Kernel_thread # r) \<Longrightarrow> r = []"
  "base t (Sema_loop s b # r) \<Longrightarrow> b \<and> ((\<exists>n. s = Sema n) \<and> r = [] \<or> (\<exists>l r'. s = Lock_sema l \<and> r = Set_holder l # r' \<and> after_acquire l r')
     \<or> s = Waiter t \<and> (\<exists>l. l \<noteq> tid_lock \<and> r = [Call_acquire l]))"
  "base t (Call_acquire l # r) \<Longrightarrow> after_acquire l r"
  "base t (Set_holder l # r) \<Longrightarrow> after_acquire l r"
  "base t (Next_tid u # r) \<Longrightarrow> r = [Call_release tid_lock, Finish_create u]"
  "base t (Call_release l # r) \<Longrightarrow> l = tid_lock \<and> (\<exists>u. r = [Finish_create u])"
  "base t (Finish_create u # r) \<Longrightarrow> r = []"
  "base t (Call_up s # r) \<Longrightarrow> \<exists>l. s = Lock_sema l \<and> (l = tid_lock \<and> (\<exists>u. r = [Finish_create u]) \<or> l \<noteq> tid_lock \<and> r = []
     \<or> l \<noteq> tid_lock \<and> r = [Call_down (Waiter t), Call_acquire l])"
  "base t (Call_down s # r) \<Longrightarrow> s = Waiter t \<and> (\<exists>l. l \<noteq> tid_lock \<and> r = [Call_acquire l])"
  "base t (Broadcast c l # r) \<Longrightarrow> l \<noteq> tid_lock \<and> r = []"
  "base t (Idle_block # r) \<Longrightarrow> r = []"
  "base t (Idle_hlt # r) \<Longrightarrow> r = []"
  "\<not> base t (Idle_start s # r)"
  by (auto simp: stack_defs elim!: base.cases)

lemma pop_frame_at: "frames k (running k) = f # fs \<Longrightarrow> pop_frame k = k\<lparr>frames := (frames k)(running k := fs)\<rparr>"
  by (simp add: pop_frame_def)

lemma frame_ops_fields [simp]:
  "threads (push_frames fs k) = threads k" "running (push_frames fs k) = running k" "members (push_frames fs k) = members k"
  "idle_thread (push_frames fs k) = idle_thread k" "next_tick_to_wakeup (push_frames fs k) = next_tick_to_wakeup k"
  "in_external_intr (push_frames fs k) = in_external_intr k" "intr_on (push_frames fs k) = intr_on k"
  "holder (push_frames fs k) = holder k" "semas (push_frames fs k) = semas k" "values_of (push_frames fs k) = values_of k"
  "status_of (push_frames fs k) = status_of k" "wakeup_of (push_frames fs k) = wakeup_of k"
  "frames (push_frames fs k) = (frames k)(running k := fs @ frames k (running k))"
  "ready_list (push_frames fs k) = ready_list k" "sleep_list (push_frames fs k) = sleep_list k"
  "blocked_threads (push_frames fs k) = blocked_threads k" "ticks (push_frames fs k) = ticks k"
  "cond_waiters (push_frames fs k) = cond_waiters k"
  "threads (pop_frame k) = threads k" "running (pop_frame k) = running k" "members (pop_frame k) = members k"
  "idle_thread (pop_frame k) = idle_thread k" "next_tick_to_wakeup (pop_frame k) = next_tick_to_wakeup k"
  "in_external_intr (pop_frame k) = in_external_intr k" "intr_on (pop_frame k) = intr_on k"
  "holder (pop_frame k) = holder k" "semas (pop_frame k) = semas k" "values_of (pop_frame k) = values_of k"
  "status_of (pop_frame k) = status_of k" "wakeup_of (pop_frame k) = wakeup_of k"
  "frames (pop_frame k) = (frames k)(running k := tl (frames k (running k)))"
  "ready_list (pop_frame k) = ready_list k" "sleep_list (pop_frame k) = sleep_list k"
  "blocked_threads (pop_frame k) = blocked_threads k" "ticks (pop_frame k) = ticks k"
  "cond_waiters (pop_frame k) = cond_waiters k" "next_tid (pop_frame k) = next_tid k"
  by (simp_all add: push_frames_def pop_frame_def)

lemma intr_disable_fields [simp]:
  "threads (intr_disable k) = threads k" "running (intr_disable k) = running k" "members (intr_disable k) = members k"
  "idle_thread (intr_disable k) = idle_thread k" "next_tick_to_wakeup (intr_disable k) = next_tick_to_wakeup k"
  "in_external_intr (intr_disable k) = in_external_intr k" "\<not> intr_on (intr_disable k)"
  "holder (intr_disable k) = holder k" "semas (intr_disable k) = semas k" "values_of (intr_disable k) = values_of k"
  "status_of (intr_disable k) = status_of k" "wakeup_of (intr_disable k) = wakeup_of k" "frames (intr_disable k) = frames k"
  "ready_list (intr_disable k) = ready_list k" "sleep_list (intr_disable k) = sleep_list k"
  "blocked_threads (intr_disable k) = blocked_threads k" "ticks (intr_disable k) = ticks k"
  "cond_waiters (intr_disable k) = cond_waiters k" "yield_on_return (intr_disable k) = yield_on_return k" "all_list (intr_disable k) = all_list k"
  by (simp_all add: intr_disable_def)

lemma holder_ok_simps [simp]:
  "holder_ok t [] ho"
  "holder_ok t (Set_level b # fs) ho \<longleftrightarrow> holder_ok t fs ho"
  "holder_ok t (Iret # fs) ho \<longleftrightarrow> holder_ok t fs ho"
  "holder_ok t (Kernel_thread # fs) ho \<longleftrightarrow> holder_ok t fs ho"
  "holder_ok t (Sema_loop s b # fs) ho \<longleftrightarrow> holder_ok t fs ho"
  "holder_ok t (Call_up s # fs) ho \<longleftrightarrow> holder_ok t fs ho"
  "holder_ok t (Call_down s # fs) ho \<longleftrightarrow> holder_ok t fs ho"
  "holder_ok t (Next_tid u # fs) ho \<longleftrightarrow> holder_ok t fs ho"
  "holder_ok t (Finish_create u # fs) ho \<longleftrightarrow> holder_ok t fs ho"
  "holder_ok t (Idle_block # fs) ho \<longleftrightarrow> holder_ok t fs ho"
  "holder_ok t (Idle_hlt # fs) ho \<longleftrightarrow> holder_ok t fs ho"
  by (auto simp: holder_ok_def)

lemma claims_simps [simp]:
  "\<not> claims l []" "\<not> claims l (Sema_loop s b # fs)"
  by (simp_all add: claims_def)

text \<open>The stack of the running thread.\<close>

lemma running_stack:
  assumes "kinv k" "frames k (running k) = fs"
  shows "stack_ok (running k) fs" "is_idle_stack fs \<longleftrightarrow> running k = idle_thread k" "holder_ok (running k) fs (holder k)"
    "holder k tid_lock = running k \<Longrightarrow> Call_release tid_lock \<in> set fs"
  using kinv0D(3,6) [OF kinvD(1) [OF assms(1)]] stacks_okD(1,2) [OF kinv0D(3) [OF kinvD(1) [OF assms(1)]], of "running k"]
    assms(2) kinv_running(1) [OF assms(1)] unfolding holders_ok_def by auto


subsection \<open>Waking and leaving\<close>

lemma wake_step:
  assumes k: "kinv0 k" and t: "t \<in> set (members k q)" "q \<noteq> Q_ready"
    and same: "valid (threads k')" "wakeup_of k' = wakeup_of k" "frames k' = frames k" "running k' = running k"
      "idle_thread k' = idle_thread k" "next_tick_to_wakeup k' = next_tick_to_wakeup k" "holder k' = holder k" "values_of k' = values_of k"
    and st: "status_of k' = (status_of k)(t \<mapsto> THREAD_READY)"
    and mem: "members k' = (members k)(q := remove1 t (members k q), Q_ready := ready_list k @ [t])"
  shows "kinv0 k'"
proof (rule kinv0I)
  note K = kinv0D [OF k]
  have tb: "status_of k t = Some THREAD_BLOCKED" using queues_okD(4) [OF K(1) t(1)] t(2) by (simp add: in_queue_status_def)
  have sub: "p \<noteq> Q_ready \<Longrightarrow> set (members k' p) \<subseteq> set (members k p)" for p
    using set_remove1_subset [of t "members k q"] unfolding mem by auto
  show "queues_ok (members k') (status_of k') (idle_thread k') (running k')"
    unfolding mem st same using queues_wake [OF K(1) t] by simp
  show "stacks_ok (frames k') (status_of k') (idle_thread k') (running k')"
    unfolding stacks_ok_def same st
  proof
    fix x
    show "stack_ok x (frames k x) \<and> (is_idle_stack (frames k x) \<longleftrightarrow> x = idle_thread k)
      \<and> (((status_of k)(t \<mapsto> THREAD_READY)) x = None \<or> ((status_of k)(t \<mapsto> THREAD_READY)) x = Some THREAD_DYING \<longrightarrow> frames k x = [])
      \<and> (x \<noteq> running k \<and> ((status_of k)(t \<mapsto> THREAD_READY)) x \<noteq> None \<and> ((status_of k)(t \<mapsto> THREAD_READY)) x \<noteq> Some THREAD_DYING \<longrightarrow> off_top (frames k x))"
      using stacks_okD [OF K(3), of x] tb by (cases "x = t") auto
  qed
  show "makers_ok (frames k') (members k') (status_of k') (idle_thread k')"
    unfolding makers_ok_def same
  proof (intro allI impI)
    fix x u assume "Finish_create u \<in> set (frames k x)"
    note u = makersD [OF K(4) this]
    have "u \<noteq> t" using u(2) [of q] t(1) by auto
    moreover have "u \<notin> set (members k' p)" for p
      using u(2) [of p] u(2) [of Q_ready] sub [of p] \<open>u \<noteq> t\<close> unfolding mem by (cases "p = Q_ready") auto
    ultimately show "status_of k' u = Some THREAD_BLOCKED \<and> (\<forall>q. u \<notin> set (members k' q)) \<and> u \<noteq> idle_thread k
        \<and> (\<forall>t'. Finish_create u \<in> set (frames k t') \<longrightarrow> t' = x)"
      using u unfolding st by simp
  qed
  show "waits_ok (frames k') (members k')"
    unfolding waits_ok_def same(3)
  proof (intro allI impI)
    fix s x assume "x \<in> set (members k' (Q_sema s))"
    then have "x \<in> set (members k (Q_sema s))" using sub [of "Q_sema s"] by auto
    then show "\<exists>r. frames k x = Sema_loop s True # r" using K(5) unfolding waits_ok_def by blast
  qed
  show "sleepers_ok k'"
    using K(8) sub [of Q_sleep] same by (auto simp: sleepers_ok_def)
qed (use kinv0D [OF k] same in simp_all)

text \<open>The running thread stops running; it goes to the list \<open>q\<close>, or to no list.\<close>

lemma leave_step:
  assumes k: "kinv k" and r: "r = running k" "frames k r = fs"
    and same: "valid (threads k')" "running k' = r" "idle_thread k' = idle_thread k" "holder k' = holder k" "values_of k' = values_of k"
    and fr: "frames k' = (frames k)(r := fs')"
    and Q: "queues_ok (members k') (status_of k') (idle_thread k') r" and st: "status_of k' = (status_of k)(r \<mapsto> s)"
    and dy: "s = THREAD_DYING \<Longrightarrow> fs' = []"
    and mem: "\<And>q x. x \<in> set (members k' q) \<Longrightarrow> x \<noteq> r \<Longrightarrow> x \<in> set (members k q)"
    and w: "\<And>s. r \<in> set (members k' (Q_sema s)) \<Longrightarrow> \<exists>gs. fs' = Sema_loop s True # gs"
    and ok: "stack_ok r fs'" "is_idle_stack fs' \<longleftrightarrow> is_idle_stack fs"
    and mk: "\<And>u. Finish_create u \<in> set fs' \<Longrightarrow> Finish_create u \<in> set fs"
    and ho: "holder_ok r fs' (holder k)" "holder k tid_lock = r \<Longrightarrow> Call_release tid_lock \<in> set fs'"
    and cl: "\<And>l. claims l fs' \<longleftrightarrow> claims l fs"
    and sl: "sleepers_ok k'"
  shows "kinv0 k'"
proof (rule kinv0I)
  note K = kinv0D [OF kinvD(1) [OF k]] and R = kinv_running [OF k]
  have run: "status_of k r = Some THREAD_RUNNING" using kinvD(2) [OF k] r by simp
  show "queues_ok (members k') (status_of k') (idle_thread k') (running k')" using Q same by simp
  show "stacks_ok (frames k') (status_of k') (idle_thread k') (running k')"
    unfolding stacks_ok_def same st fr
  proof
    fix x
    show "stack_ok x (((frames k)(r := fs')) x) \<and> (is_idle_stack (((frames k)(r := fs')) x) \<longleftrightarrow> x = idle_thread k)
      \<and> (((status_of k)(r \<mapsto> s)) x = None \<or> ((status_of k)(r \<mapsto> s)) x = Some THREAD_DYING \<longrightarrow> ((frames k)(r := fs')) x = [])
      \<and> (x \<noteq> r \<and> ((status_of k)(r \<mapsto> s)) x \<noteq> None \<and> ((status_of k)(r \<mapsto> s)) x \<noteq> Some THREAD_DYING \<longrightarrow> off_top (((frames k)(r := fs')) x))"
      using stacks_okD [OF K(3), of x] ok dy r by (cases "x = r") auto
  qed
  show "makers_ok (frames k') (members k') (status_of k') (idle_thread k')"
    unfolding makers_ok_def same
  proof (intro allI impI)
    fix x u assume x: "Finish_create u \<in> set (frames k' x)"
    have sub: "Finish_create u \<in> set (frames k' y) \<Longrightarrow> Finish_create u \<in> set (frames k y)" for y
      using mk r unfolding fr by (cases "y = r") auto
    note u = makersD [OF K(4) sub [OF x]]
    have "u \<noteq> r" using u(1) run by auto
    then have "u \<notin> set (members k' p)" for p using u(2) [of p] mem by blast
    then show "status_of k' u = Some THREAD_BLOCKED \<and> (\<forall>q. u \<notin> set (members k' q)) \<and> u \<noteq> idle_thread k
        \<and> (\<forall>t'. Finish_create u \<in> set (frames k' t') \<longrightarrow> t' = x)"
      using u sub \<open>u \<noteq> r\<close> unfolding st by auto
  qed
  show "waits_ok (frames k') (members k')"
    unfolding waits_ok_def
  proof (intro allI impI)
    fix s x assume x: "x \<in> set (members k' (Q_sema s))"
    show "\<exists>gs. frames k' x = Sema_loop s True # gs"
    proof (cases "x = r")
      case True
      then show ?thesis using w x fr by simp
    next
      case False
      then have "x \<in> set (members k (Q_sema s))" using mem x by blast
      then show ?thesis using K(5) False unfolding waits_ok_def fr by auto
    qed
  qed
  show "holders_ok (frames k') (holder k')"
    unfolding fr same by (rule holders_upd [OF K(6)]) (use R ho r in auto)
  show "locks_ok (frames k') (holder k') (values_of k')"
    unfolding fr same by (rule locks_upd [OF K(7)]) (use R cl r in auto)
qed (use same sl in simp_all)

end
