(* ===== verification/Thread_Steps.thy ===== *)
theory Thread_Steps
  imports Thread_Invariant
begin

text \<open>
  Every operation of the thread system keeps the invariant, and none fails one of its assertions.
  The only way a step does not come back is an overflow of the tick counter or of the thread
  identifiers.
\<close>

definition keeps :: "kernel result \<Rightarrow> bool" where
  "keeps r \<longleftrightarrow> (case r of Inl e \<Rightarrow> e = Signed_overflow | Inr k \<Rightarrow> kinv k)"

lemma keeps_simps [simp]: "keeps (Inr k) \<longleftrightarrow> kinv k" "keeps (Inl e) \<longleftrightarrow> e = Signed_overflow"
  by (simp_all add: keeps_def)

lemma keeps_ex: "\<exists>k'. r = Inr k' \<and> kinv k' \<and> P k' \<Longrightarrow> keeps r"
  by auto

subsection \<open>Frames that schedule nothing\<close>

lemma current_pop: "kinv k \<Longrightarrow> thread_current (pop_frame k) = Inr (running k)"
  using current_ok [of "pop_frame k"] by (simp add: kinv_def kinv0_def)

lemma kinv_valid: "kinv k \<Longrightarrow> valid (threads k)"
  by (simp add: kinv_def kinv0_def)

lemma claim_free:
  assumes "kinv k" "claims l (frames k t)"
  shows "holder k l = 0" "values_of k (Lock_sema l) = 0"
  using kinv0D(7) [OF kinvD(1) [OF assms(1)]] assms(2) unfolding locks_ok_def lock_ok_def by auto

lemma claims_Cons: "(\<And>s b. f \<noteq> Sema_loop s b) \<Longrightarrow>
  claims l (f # fs) \<longleftrightarrow> f = Set_holder l \<or> f = Call_up (Lock_sema l) \<or> Set_holder l \<in> set fs \<or> Call_up (Lock_sema l) \<in> set fs"
  by (auto simp: claims_def)

lemma claims_iret: "\<not> off_top fs \<Longrightarrow> claims l (Iret # fs) \<longleftrightarrow> claims l fs"
  by (cases fs) (auto simp: claims_def)

lemma no_claims [simp]: "\<not> claims l (creation u)"
  by (simp add: claims_def creation_def)

lemma resume_set_level:
  assumes k: "kinv k" and f: "frames k (running k) = Set_level b # fs"
  shows "keeps (resume k)"
proof (cases b)
  case True
  note rs = running_stack [OF k f]
  have fs: "fs = []" using base_tops(1) [OF stack_base [OF rs(1)]] True by simp
  have "kinv ((pop_frame k)\<lparr>intr_on := True\<rparr>)"
    by (rule local_step [OF k refl f, of _ "[]"])
      (use f rs fs kinv_valid [OF k] kinvD(3) [OF k] in \<open>auto simp: stack_defs base.intros claims_Cons\<close>)
  then show ?thesis using f True kinvD(3) [OF k] by (simp add: resume_def intr_set_level_def intr_enable_def)
next
  case False
  note rs = running_stack [OF k f]
  obtain gs where gs: "fs = Iret # gs" "base (running k) gs" "\<not> off_top gs" using stack_level_off [of "running k" fs] rs(1) False by auto
  have "kinv (intr_disable (pop_frame k))"
    by (rule local_step [OF k refl f, of _ fs])
      (use f rs gs kinv_valid [OF k] kinvD(3) [OF k] in \<open>auto simp: stack_ok_def is_idle_stack_def claims_Cons\<close>)
  then show ?thesis using f False by (simp add: resume_def intr_set_level_def)
qed

lemma resume_iret:
  assumes k: "kinv k" and f: "frames k (running k) = Iret # fs"
  shows "keeps (resume k)"
proof -
  note rs = running_stack [OF k f]
  have gs: "base (running k) fs" "\<not> off_top fs" using stack_iret [OF rs(1)] by auto
  have "kinv ((pop_frame k)\<lparr>intr_on := True\<rparr>)"
    by (rule local_step [OF k refl f, of _ fs])
      (use f rs gs kinv_valid [OF k] kinvD(3) [OF k] in \<open>auto simp: is_idle_stack_def claims_iret\<close>)
  then show ?thesis using f by (simp add: resume_def)
qed

lemma resume_kernel_thread:
  assumes k: "kinv k" and f: "frames k (running k) = Kernel_thread # fs"
  shows "keeps (resume k)"
proof -
  note rs = running_stack [OF k f]
  have fs: "fs = []" using base_tops(2) [OF stack_base [OF rs(1)]] by simp
  have "kinv ((pop_frame k)\<lparr>intr_on := True\<rparr>)"
    by (rule local_step [OF k refl f, of _ "[]"])
      (use f rs fs kinv_valid [OF k] kinvD(3) [OF k] in \<open>auto simp: stack_defs base.intros claims_Cons\<close>)
  then show ?thesis using f kinvD(3) [OF k] by (simp add: resume_def intr_enable_def)
qed

lemma resume_set_holder:
  assumes k: "kinv k" and f: "frames k (running k) = Set_holder l # fs"
  shows "keeps (resume k)"
proof -
  note rs = running_stack [OF k f]
  have fs: "after_acquire l fs" using base_tops(5) [OF stack_base [OF rs(1)]] by simp
  have "claims l (frames k (running k))" using f by (simp add: claims_Cons)
  note free = claim_free [OF k this]
  let ?k = "(pop_frame k)\<lparr>holder := (holder k)(l := running k)\<rparr>"
  have nT: "holder k tid_lock \<noteq> running k" if "l \<noteq> tid_lock" using rs(4) fs that by (auto simp: stack_defs)
  have "kinv ?k"
  proof (rule local_step [OF k refl f, of _ fs])
    show "stack_ok (running k) fs" using fs by (auto simp: after_acquire_def base.intros)
    show "is_idle_stack fs \<longleftrightarrow> is_idle_stack (Set_holder l # fs)" by (simp add: is_idle_stack_def)
    show "holder_ok (running k) fs (holder ?k)" using fs by (auto simp: stack_defs holder_ok_def)
    show "Call_release tid_lock \<in> set fs" if "holder ?k tid_lock = running k"
      using fs that nT by (auto simp: stack_defs split: if_splits)
    show "lock_moves (running k) (claims m (Set_holder l # fs)) (claims m fs) (holder k m) (holder ?k m)
      (values_of k (Lock_sema m)) (values_of ?k (Lock_sema m))" for m
      using fs by (auto simp: after_acquire_def lock_moves_def claims_Cons creation_def)
    show "intr_on ?k \<longleftrightarrow> \<not> off_top fs" using kinvD(4) [OF k] f fs by (auto simp: stack_defs)
    show "holder k m \<in> {0, running k} \<and> holder ?k m \<in> {0, running k}" if "holder ?k m \<noteq> holder k m" for m
      using that free(1) by (auto split: if_splits)
  qed (use f kinv_valid [OF k] in simp_all)
  then show ?thesis using f current_pop [OF k] by (simp add: resume_def set_holder_def)
qed

lemma resume_release:
  assumes k: "kinv k" and f: "frames k (running k) = Call_release l # fs"
  shows "keeps (resume k)"
proof -
  note rs = running_stack [OF k f]
  obtain u where fs: "l = tid_lock" "fs = [Finish_create u]" using base_tops(7) [OF stack_base [OF rs(1)]] by auto
  have h: "holder k l = running k" using rs(3) fs by (simp add: holder_ok_def)
  let ?k = "push_frames [Call_up (Lock_sema l)] ((pop_frame k)\<lparr>holder := (holder k)(l := 0)\<rparr>)"
  have "kinv ?k"
    by (rule local_step [OF k refl f, of _ "[Call_up (Lock_sema l), Finish_create u]"])
      (use f fs h kinv_valid [OF k] kinvD(3,4) [OF k] kinv_running(1) [OF k] in
        \<open>auto simp: base.intros is_idle_stack_def claims_Cons lock_moves_def split: if_splits\<close>)
  then show ?thesis
    using f h current_pop [OF k] by (simp add: resume_def lock_release_def lock_held_by_current_thread_def)
qed

lemma resume_next_tid:
  assumes k: "kinv k" and f: "frames k (running k) = Next_tid u # fs"
  shows "keeps (resume k)"
proof -
  note rs = running_stack [OF k f]
  have fs: "fs = [Call_release tid_lock, Finish_create u]" using base_tops(6) [OF stack_base [OF rs(1)]] by simp
  let ?k = "(upd_thread u (\<lambda>th. th\<lparr>tid := next_tid k\<rparr>) (pop_frame k))\<lparr>next_tid := next_tid k + 1\<rparr>"
  have "kinv ?k"
    by (rule local_step [OF k refl f, of _ fs])
      (use f fs rs kinv_valid [OF k] kinvD(3,4) [OF k] in \<open>auto simp: base.intros is_idle_stack_def claims_Cons\<close>)
  then show ?thesis using f by (simp add: resume_def allocate_tid_def c_int_def)
qed

lemma resume_idle_hlt:
  assumes k: "kinv k" and f: "frames k (running k) = Idle_hlt # fs"
  shows "keeps (resume k)"
proof -
  note rs = running_stack [OF k f]
  have fs: "fs = []" using base_tops(13) [OF stack_base [OF rs(1)]] by simp
  have "kinv (idle_hlt k)"
    by (rule local_step [OF k refl f, of _ "[Idle_block]"])
      (use f fs rs kinv_valid [OF k] kinvD(3,4) [OF k] in \<open>auto simp: idle_hlt_def base.intros is_idle_stack_def claims_Cons\<close>)
  then show ?thesis using f by (simp add: resume_def)
qed



subsection \<open>Down\<close>

text \<open>Blocking in the loop of \<^verbatim>\<open>sema_down\<close>; \<open>k1\<close> is the state before the thread is queued.\<close>

lemma block_in_queue:
  assumes k: "kinv k" and r: "running k \<noteq> idle_thread k" and q: "q \<noteq> Q_ready"
    and same: "valid (threads k1)" "running k1 = running k" "idle_thread k1 = idle_thread k" "holder k1 = holder k"
      "values_of k1 = values_of k" "status_of k1 = status_of k" "members k1 = (members k)(q := members k q @ [running k])"
      "\<not> intr_on k1" "\<not> in_external_intr k1"
    and fr: "frames k1 = (frames k)(running k := fs)" and off: "off_top fs" "stack_ok (running k) fs" "\<not> is_idle_stack fs"
    and w: "\<And>s. q = Q_sema s \<Longrightarrow> \<exists>gs. fs = Sema_loop s True # gs"
    and mk: "\<And>u. Finish_create u \<in> set fs \<Longrightarrow> Finish_create u \<in> set (frames k (running k))"
    and ho: "holder_ok (running k) fs (holder k)" "holder k tid_lock = running k \<Longrightarrow> Call_release tid_lock \<in> set fs"
    and cl: "\<And>l. claims l fs \<longleftrightarrow> claims l (frames k (running k))"
    and sl: "sleepers_ok k1"
  shows "\<exists>k'. thread_block k1 = Inr k' \<and> kinv k' \<and> running k' = next_thread k1 \<and> ready_list k' = tl (ready_list k1)
    \<and> holder k' = holder k \<and> ticks k' = ticks k1"
proof -
  note K = kinv0D [OF kinvD(1) [OF k]] and R = kinv_running [OF k]
  let ?k = "set_status (running k) THREAD_BLOCKED k1"
  have cur: "thread_current k1 = Inr (running k)" using current_ok [of k1] same kinvD(2) [OF k] by simp
  have st: "status_of ?k = (status_of k)(running k \<mapsto> THREAD_BLOCKED)" using status_upd [of k1 "running k"] same(6) R(4) by simp
  have "queues_ok (members ?k) (status_of ?k) (idle_thread ?k) (running k)"
    using queues_leave [OF K(1) kinvD(2) [OF k] r, of q] q st same by (simp add: in_queue_status_def)
  moreover have "valid (threads ?k)" using same(1) by (simp add: set_status_def)
  moreover have "sleepers_ok ?k" using sl by (simp add: sleepers_ok_def)
  ultimately have "kinv0 ?k"
    by (intro leave_step [OF k refl refl, of ?k fs THREAD_BLOCKED])
      (use same st fr off w mk ho cl R(2,5) running_stack(2) [OF k refl] r in \<open>auto split: if_splits\<close>)
  from schedule_kinv [OF this] obtain k' where "schedule ?k = Inr k'" "kinv k'" "running k' = next_thread ?k"
    "ready_list k' = tl (ready_list k1)" "holder k' = holder k" "ticks k' = ticks k1"
    using st same off fr by auto
  moreover have "next_thread ?k = next_thread k1" by (simp add: next_thread_def)
  ultimately show ?thesis using cur same by (simp add: thread_block_def)
qed

lemma base_not_idle: "base t fs \<Longrightarrow> is_idle_stack fs \<Longrightarrow> fs = [Idle_block] \<or> fs = [Idle_hlt]"
  by (auto simp: stack_defs elim!: base.cases)

lemma sema_loop_ok:
  assumes k: "kinv k" and f: "frames k (running k) = Sema_loop s b # fs"
  shows "\<exists>k'. sema_loop s b k = Inr k' \<and> kinv k' \<and> holder k' = holder k \<and> ticks k' = ticks k"
proof -
  note rs = running_stack [OF k f] and bs = base_tops(3) [OF stack_base [OF running_stack(1) [OF k f]], simplified]
  have off: "\<not> intr_on k" using kinvD(4) [OF k] f by simp
  have ni: "\<not> is_idle_stack (Sema_loop s b # fs)" using base_not_idle [OF stack_base [OF rs(1)]] by auto
  have r: "running k \<noteq> idle_thread k" using rs(2) ni by simp
  have b: "b" using bs by simp
  show ?thesis
  proof (cases "values_of k s = 0")
    case True
    let ?k = "set_sema s 0 (waiters (semas k s) @ [running k]) k"
    have "sleepers_ok ?k" using kinv0D(8) [OF kinvD(1) [OF k]] by (simp add: sleepers_ok_def)
    moreover have "values_of ?k = values_of k" using True by (simp add: fun_eq_iff)
    ultimately have "\<exists>k'. thread_block ?k = Inr k' \<and> kinv k' \<and> running k' = next_thread ?k \<and> ready_list k' = tl (ready_list ?k)
        \<and> holder k' = holder k \<and> ticks k' = ticks ?k"
      by (intro block_in_queue [OF k r, of "Q_sema s" _ "Sema_loop s b # fs"])
        (use kinv_valid [OF k] kinvD(3) [OF k] off f rs ni b in \<open>auto simp: fun_upd_idem\<close>)
    then show ?thesis using True kinv_current [OF k] by (auto simp: sema_loop_def values_of_def set_sema_def)
  next
    case False
    let ?k = "pop_frame (set_sema s (values_of k s - 1) (waiters (semas k s)) k)\<lparr>intr_on := True\<rparr>"
    have ta: "\<not> off_top fs" "stack_ok (running k) fs" using bs by (auto simp: stack_defs base.intros)
    have mv: "lock_moves (running k) (claims m (Sema_loop s b # fs)) (claims m fs) (holder k m) (holder ?k m)
      (values_of k (Lock_sema m)) (values_of ?k (Lock_sema m))" for m
      using bs False by (auto simp: lock_moves_def claims_Cons stack_defs)
    have "kinv ?k"
      by (rule local_step [OF k refl f, of _ fs])
        (use f rs ta mv kinv_valid [OF k] in \<open>auto simp: is_idle_stack_def fun_upd_idem\<close>)
    then show ?thesis
      using False b kinvD(3) [OF k]
      by (auto simp: sema_loop_def values_of_def intr_set_level_def intr_enable_def set_sema_def Let_def pop_frame_def)
  qed
qed

text \<open>Calling \<^verbatim>\<open>sema_down\<close> with interrupts on and \<open>fs\<close> left to do afterwards.\<close>

lemma sema_down_ok:
  assumes k: "kinv k" and f: "frames k (running k) = fs0" "intr_on k"
    and k1: "k1 = k\<lparr>frames := (frames k)(running k := fs)\<rparr>"
    and st: "base (running k) (Sema_loop s True # fs)" and ni: "\<not> is_idle_stack fs0"
    and mk: "\<And>u. Finish_create u \<in> set fs \<Longrightarrow> Finish_create u \<in> set fs0"
    and ho: "holder_ok (running k) fs (holder k)" "holder k tid_lock = running k \<Longrightarrow> Call_release tid_lock \<in> set fs"
    and cl: "\<And>l. \<not> claims l fs0"
  shows "\<exists>k'. sema_down s k1 = Inr k' \<and> kinv k' \<and> holder k' = holder k \<and> ticks k' = ticks k"
proof -
  let ?k = "intr_disable (push_frames [Sema_loop s True] k1)"
  have "kinv ?k"
    by (rule local_step [OF k refl f(1), of _ "Sema_loop s True # fs"])
      (use st ni mk ho cl k1 kinv_valid [OF k] base_not_idle [OF st] in auto)
  from sema_loop_ok [OF this, of s True fs] show ?thesis
    using k1 f(2) kinvD(3) [OF k] by (simp add: sema_down_def)
qed

lemma resume_sema_loop: "kinv k \<Longrightarrow> frames k (running k) = Sema_loop s b # fs \<Longrightarrow> keeps (resume k)"
  using sema_loop_ok [of k s b fs] by (auto simp: resume_def)

lemma resume_call_down:
  assumes k: "kinv k" and f: "frames k (running k) = Call_down s # fs"
  shows "keeps (resume k)"
proof -
  note rs = running_stack [OF k f]
  obtain l where l: "s = Waiter (running k)" "l \<noteq> tid_lock" "fs = [Call_acquire l]" using base_tops(10) [OF stack_base [OF rs(1)]] by auto
  have "\<exists>k'. sema_down s (pop_frame k) = Inr k' \<and> kinv k' \<and> holder k' = holder k \<and> ticks k' = ticks k"
    by (rule sema_down_ok [OF k f, of _ fs])
      (use f l rs kinvD(4) [OF k] in \<open>auto simp: pop_frame_at base.intros is_idle_stack_def claims_Cons\<close>)
  then show ?thesis using f by (auto simp: resume_def)
qed

text \<open>\<^verbatim>\<open>lock_acquire\<close> with \<open>fs\<close> left to do afterwards.\<close>

lemma lock_acquire_ok:
  assumes k: "kinv k" and f: "frames k (running k) = fs0" "intr_on k"
    and k1: "k1 = k\<lparr>frames := (frames k)(running k := fs)\<rparr>"
    and st: "after_acquire l fs" and ni: "\<not> is_idle_stack fs0" and h: "holder k l \<noteq> running k"
    and mk: "\<And>u. Finish_create u \<in> set fs \<Longrightarrow> Finish_create u \<in> set fs0"
    and ho: "holder k tid_lock = running k \<Longrightarrow> Call_release tid_lock \<in> set fs" and cl: "\<And>l. \<not> claims l fs0"
  shows "\<exists>k'. lock_acquire l k1 = Inr k' \<and> kinv k' \<and> holder k' = holder k \<and> ticks k' = ticks k"
proof -
  have "holder_ok (running k) (Set_holder l # fs) (holder k)" using st by (auto simp: stack_defs holder_ok_def)
  then have "\<exists>k'. sema_down (Lock_sema l) (push_frames [Set_holder l] k1) = Inr k' \<and> kinv k' \<and> holder k' = holder k \<and> ticks k' = ticks k"
    by (intro sema_down_ok [OF k f, of _ "Set_holder l # fs"])
      (use k1 st ni mk ho cl in \<open>auto simp: push_frames_def base.intros\<close>)
  moreover have "thread_current k1 = Inr (running k)" using current_ok [of k1] k1 kinv_valid [OF k] kinvD(2) [OF k] by simp
  ultimately show ?thesis using k1 h kinvD(3) [OF k] by (simp add: lock_acquire_def lock_held_by_current_thread_def)
qed

lemma resume_call_acquire:
  assumes k: "kinv k" and f: "frames k (running k) = Call_acquire l # fs"
  shows "keeps (resume k)"
proof -
  note rs = running_stack [OF k f]
  have fs: "after_acquire l fs" using base_tops(4) [OF stack_base [OF rs(1)]] by simp
  have "\<exists>k'. lock_acquire l (pop_frame k) = Inr k' \<and> kinv k' \<and> holder k' = holder k \<and> ticks k' = ticks k"
    by (rule lock_acquire_ok [OF k f, of _ fs])
      (use f fs rs kinvD(4) [OF k] in \<open>auto simp: pop_frame_at stack_defs claims_Cons holder_ok_def\<close>)
  then show ?thesis using f by (auto simp: resume_def)
qed



subsection \<open>Up\<close>

definition woken :: "nat \<Rightarrow> kernel \<Rightarrow> kernel" where
  "woken t k = set_status t THREAD_READY (k\<lparr>ready_list := ready_list k @ [t]\<rparr>)"

lemma woken_fields [simp]:
  "frames (woken t k) = frames k" "running (woken t k) = running k" "ready_list (woken t k) = ready_list k @ [t]"
  "sleep_list (woken t k) = sleep_list k" "blocked_threads (woken t k) = blocked_threads k"
  "next_tick_to_wakeup (woken t k) = next_tick_to_wakeup k" "idle_thread (woken t k) = idle_thread k"
  "intr_on (woken t k) = intr_on k" "in_external_intr (woken t k) = in_external_intr k" "semas (woken t k) = semas k"
  "holder (woken t k) = holder k" "values_of (woken t k) = values_of k" "wakeup_of (woken t k) = wakeup_of k"
  "members (woken t k) = (members k)(Q_ready := ready_list k @ [t])" "ticks (woken t k) = ticks k"
  "yield_on_return (woken t k) = yield_on_return k"
  "valid (threads k) \<Longrightarrow> valid (threads (woken t k))"
  "status_of k t \<noteq> None \<Longrightarrow> status_of (woken t k) = (status_of k)(t \<mapsto> THREAD_READY)"
  by (simp_all add: woken_def) (simp add: set_status_def)

lemma unblock_eq:
  assumes "valid (threads k)" "status_of k t = Some THREAD_BLOCKED" "intr_on k \<longrightarrow> \<not> in_external_intr k"
  shows "thread_unblock t k = Inr (woken t k)"
  using assms is_thread_valid [OF assms(1), of t]
  by (auto simp: thread_unblock_def Let_def woken_def intr_set_level_def intr_enable_def intr_disable_def
      set_status_def upd_thread_def)

text \<open>Raising a semaphore is raising its value and waking the first waiter, if there is one.\<close>

lemma sema_up_eq:
  assumes "valid (threads k)" "\<not> in_external_intr k"
    and "\<And>t. t \<in> set (waiters (semas k s)) \<Longrightarrow> status_of k t = Some THREAD_BLOCKED"
  shows "sema_up s k = Inr (case waiters (semas k s) of [] \<Rightarrow> set_sema s (values_of k s + 1) [] k
    | t # ts \<Rightarrow> woken t (set_sema s (values_of k s + 1) ts k))"
proof (cases "waiters (semas k s)")
  case Nil
  then show ?thesis using assms(2)
    by (auto simp: sema_up_def Let_def intr_set_level_def intr_enable_def intr_disable_def set_sema_def values_of_def)
next
  case (Cons t ts)
  let ?k = "set_sema s (sema_value (semas k s)) ts (intr_disable k)"
  have "thread_unblock t ?k = Inr (woken t ?k)"
    by (rule unblock_eq) (use assms Cons in simp_all)
  then show ?thesis using assms(2) Cons
    by (auto simp: sema_up_def Let_def intr_set_level_def intr_enable_def intr_disable_def set_sema_def values_of_def
        woken_def set_status_def upd_thread_def)
qed

text \<open>\<open>k1\<close> is the state in which the value is raised but no thread woken yet.\<close>

lemma sema_up_kinv:
  assumes k1: "kinv k1" and same: "valid (threads k)" "\<not> in_external_intr k"
    and eq: "set_sema s (values_of k s + 1) (waiters (semas k s)) k = k1"
  shows "\<exists>k'. sema_up s k = Inr k' \<and> kinv k' \<and> holder k' = holder k1 \<and> ticks k' = ticks k1"
proof -
  note K = kinv0D [OF kinvD(1) [OF k1]]
  have st: "status_of k = status_of k1" and ws: "waiters (semas k s) = waiters (semas k1 s)" using eq by auto
  have blk: "status_of k t = Some THREAD_BLOCKED" if "t \<in> set (waiters (semas k s))" for t
    using queues_okD(4) [OF K(1), of t "Q_sema s"] that st ws by (simp add: in_queue_status_def)
  have up: "sema_up s k = Inr (case waiters (semas k s) of [] \<Rightarrow> set_sema s (values_of k s + 1) [] k
    | t # ts \<Rightarrow> woken t (set_sema s (values_of k s + 1) ts k))"
    by (rule sema_up_eq [OF same]) (rule blk)
  show ?thesis
  proof (cases "waiters (semas k s)")
    case Nil
    then show ?thesis using up eq k1 by auto
  next
    case (Cons t ts)
    let ?k = "woken t (set_sema s (values_of k s + 1) ts k)"
    have tb: "status_of k t \<noteq> None" using blk [of t] Cons by simp
    have k1e: "k1 = set_sema s (values_of k s + 1) (t # ts) k" using eq Cons by simp
    have st': "status_of ?k = (status_of k)(t \<mapsto> THREAD_READY)" using tb by simp
    have mem: "members ?k = (members k1)(Q_sema s := remove1 t (members k1 (Q_sema s)), Q_ready := ready_list k1 @ [t])"
      unfolding k1e by simp
    have "kinv0 ?k"
      by (rule wake_step [OF kinvD(1) [OF k1] _ _ _ _ _ _ _ _ _ _ st' [unfolded st] mem])
        (use same in \<open>simp_all add: k1e\<close>)
    moreover have "running k \<noteq> t" using kinvD(2) [OF k1] blk [of t] Cons unfolding st by (auto simp: k1e)
    then have "status_of ?k (running ?k) = Some THREAD_RUNNING"
      using kinvD(2) [OF k1] unfolding st' st by (simp add: k1e)
    ultimately have "kinv ?k" using kinvD(3,4) [OF k1] by (simp add: kinv_def k1e)
    then show ?thesis using up Cons by (simp add: k1e)
  qed
qed

lemma resume_call_up:
  assumes k: "kinv k" and f: "frames k (running k) = Call_up s # fs"
  shows "keeps (resume k)"
proof -
  note rs = running_stack [OF k f]
  obtain l where l: "s = Lock_sema l" "l = tid_lock \<and> (\<exists>u. fs = [Finish_create u]) \<or> l \<noteq> tid_lock \<and> fs = []
     \<or> l \<noteq> tid_lock \<and> fs = [Call_down (Waiter (running k)), Call_acquire l]"
    using base_tops(9) [OF stack_base [OF rs(1)]] by auto
  let ?k = "set_sema s (values_of k s + 1) (waiters (semas k s)) (pop_frame k)"
  have "claims l (frames k (running k))" using f l(1) by (simp add: claims_Cons)
  note free = claim_free [OF k this]
  have "kinv ?k"
  proof (rule local_step [OF k refl f, of _ fs])
    show "stack_ok (running k) fs" "is_idle_stack fs \<longleftrightarrow> is_idle_stack (Call_up s # fs)"
      using l(2) by (auto simp: base.intros is_idle_stack_def)
    show "intr_on ?k \<longleftrightarrow> \<not> off_top fs" using kinvD(4) [OF k] f l(2) by auto
    show "holder_ok (running k) fs (holder ?k)" using rs(3) by simp
    show "Call_release tid_lock \<in> set fs" if "holder ?k tid_lock = running k" using rs(4) that by simp
    show "lock_moves (running k) (claims m (Call_up s # fs)) (claims m fs) (holder k m) (holder ?k m)
      (values_of k (Lock_sema m)) (values_of ?k (Lock_sema m))" for m
      using l by (auto simp: lock_moves_def claims_Cons)
  qed (use f kinv_valid [OF k] in \<open>simp_all add: fun_upd_idem\<close>)
  from sema_up_kinv [OF this, of "pop_frame k" s] show ?thesis
    using f kinv_valid [OF k] kinvD(3) [OF k] by (auto simp: resume_def)
qed

text \<open>Raising a semaphore that belongs to no lock.\<close>

lemma sema_up_plain:
  assumes k: "kinv k" and s: "\<And>l. s \<noteq> Lock_sema l"
  shows "\<exists>k'. sema_up s k = Inr k' \<and> kinv k' \<and> holder k' = holder k \<and> ticks k' = ticks k"
proof -
  note rs = running_stack [OF k refl]
  let ?k = "set_sema s (values_of k s + 1) (waiters (semas k s)) k"
  have "kinv ?k"
    by (rule local_step [OF k refl refl, of _ "frames k (running k)"])
      (use rs s kinv_valid [OF k] kinvD(3,4) [OF k] in \<open>auto simp: fun_upd_idem\<close>)
  from sema_up_kinv [OF this kinv_valid [OF k] kinvD(3) [OF k] refl] show ?thesis by simp
qed

lemma kinv_cond: "kinv (k\<lparr>cond_waiters := c\<rparr>) \<longleftrightarrow> kinv k"
  by (simp add: kinv_def kinv0_cong [of "k\<lparr>cond_waiters := c\<rparr>" k])

lemma cond_signal_ok:
  assumes k: "kinv k" and h: "holder k l = running k"
  shows "\<exists>k'. cond_signal c l k = Inr k' \<and> kinv k' \<and> holder k' = holder k \<and> ticks k' = ticks k"
proof (cases "cond_waiters k c")
  case Nil
  then show ?thesis using k h kinvD(3) [OF k] kinv_current [OF k] by (simp add: cond_signal_def lock_held_by_current_thread_def)
next
  case (Cons t ts)
  let ?k = "k\<lparr>cond_waiters := (cond_waiters k)(c := ts)\<rparr>"
  have "kinv ?k" using k kinv_cond by simp
  from sema_up_plain [OF this, of "Waiter t"] show ?thesis
    using Cons h kinvD(3) [OF k] kinv_current [OF k] by (simp add: cond_signal_def lock_held_by_current_thread_def)
qed

lemma resume_broadcast:
  assumes k: "kinv k" and f: "frames k (running k) = Broadcast c l # fs"
  shows "keeps (resume k)"
proof -
  note rs = running_stack [OF k f]
  have fs: "l \<noteq> tid_lock" "fs = []" using base_tops(11) [OF stack_base [OF rs(1)]] by auto
  have h: "holder k l = running k" using rs(3) by (simp add: holder_ok_def)
  show ?thesis
  proof (cases "cond_waiters k c = []")
    case True
    have "kinv (pop_frame k)"
      by (rule local_step [OF k refl f, of _ "[]"])
        (use f fs rs kinv_valid [OF k] kinvD(3,4) [OF k] in \<open>auto simp: base.intros is_idle_stack_def claims_Cons\<close>)
    then show ?thesis using True f by (simp add: resume_def broadcast_loop_def)
  next
    case False
    then show ?thesis using cond_signal_ok [OF k h, of c] f by (auto simp: resume_def broadcast_loop_def)
  qed
qed



subsection \<open>New threads and the idle thread\<close>

lemma admit_step:
  assumes k: "kinv0 k" and u: "status_of k u = Some THREAD_BLOCKED" "\<And>q. u \<notin> set (members k q)" "u \<noteq> idle_thread k"
    and m: "\<And>t. Finish_create u \<notin> set (frames k t)"
  shows "kinv0 (woken u k)"
proof (rule kinv0I)
  note K = kinv0D [OF k]
  have st: "status_of (woken u k) = (status_of k)(u \<mapsto> THREAD_READY)" using u(1) by simp
  show "queues_ok (members (woken u k)) (status_of (woken u k)) (idle_thread (woken u k)) (running (woken u k))"
    using queues_admit [OF K(1) u] st by simp
  show "stacks_ok (frames (woken u k)) (status_of (woken u k)) (idle_thread (woken u k)) (running (woken u k))"
    unfolding stacks_ok_def woken_fields st
  proof
    fix x
    show "stack_ok x (frames k x) \<and> (is_idle_stack (frames k x) \<longleftrightarrow> x = idle_thread k)
      \<and> (((status_of k)(u \<mapsto> THREAD_READY)) x = None \<or> ((status_of k)(u \<mapsto> THREAD_READY)) x = Some THREAD_DYING \<longrightarrow> frames k x = [])
      \<and> (x \<noteq> running k \<and> ((status_of k)(u \<mapsto> THREAD_READY)) x \<noteq> None \<and> ((status_of k)(u \<mapsto> THREAD_READY)) x \<noteq> Some THREAD_DYING \<longrightarrow> off_top (frames k x))"
      using stacks_okD [OF K(3), of x] u(1) by (cases "x = u") auto
  qed
  show "makers_ok (frames (woken u k)) (members (woken u k)) (status_of (woken u k)) (idle_thread (woken u k))"
    unfolding makers_ok_def woken_fields st
  proof (intro allI impI)
    fix x v assume v: "Finish_create v \<in> set (frames k x)"
    then have "v \<noteq> u" using m by auto
    then show "((status_of k)(u \<mapsto> THREAD_READY)) v = Some THREAD_BLOCKED
      \<and> (\<forall>q. v \<notin> set (((members k)(Q_ready := ready_list k @ [u])) q)) \<and> v \<noteq> idle_thread k
      \<and> (\<forall>t'. Finish_create v \<in> set (frames k t') \<longrightarrow> t' = x)"
      using makersD [OF K(4) v] makersD(2) [OF K(4) v, of Q_ready] by auto
  qed
  show "waits_ok (frames (woken u k)) (members (woken u k))" using K(5) by (simp add: waits_ok_def)
  show "sleepers_ok (woken u k)" using K(8) by (simp add: sleepers_ok_def)
qed (use kinv0D [OF k] in simp_all)

lemma resume_finish_create:
  assumes k: "kinv k" and f: "frames k (running k) = Finish_create u # fs"
  shows "keeps (resume k)"
proof -
  note rs = running_stack [OF k f] and K = kinv0D [OF kinvD(1) [OF k]]
  have fs: "fs = []" using base_tops(8) [OF stack_base [OF rs(1)]] by simp
  have mem: "Finish_create u \<in> set (frames k (running k))" using f by simp
  note u = makersD [OF K(4) mem]
  define sub where "sub n k = upd_thread u (\<lambda>th. th\<lparr>stack := stack th - n\<rparr>) k" for n k
  let ?k = "sub 28 (sub 4 (sub 12 (pop_frame k)))"
  have v: "valid (threads (sub n j))" "status_of (sub n j) = status_of j" if "valid (threads j)" for n j
    using that by (simp_all add: sub_def)
  have al: "alloc_frame u n j = Inr (sub n j)" if "valid (threads j)" "status_of j u \<noteq> None" "n mod 4 = 0" for n j
    using that is_thread_valid [of j u] by (simp add: alloc_frame_def sub_def)
  have k1: "kinv ?k"
    by (rule local_step [OF k refl f, of _ "[]"])
      (use f fs rs v kinv_valid [OF k] kinvD(3,4) [OF k] in \<open>auto simp: sub_def base.intros is_idle_stack_def claims_Cons\<close>)
  have fin: "Finish_create u \<notin> set (frames ?k t)" for t
    using u(4) [of t] f fs by (auto simp: sub_def split: if_splits)
  have b: "status_of ?k u = Some THREAD_BLOCKED" using u(1) by (simp add: sub_def)
  have "kinv0 (woken u ?k)"
    by (rule admit_step [OF kinvD(1) [OF k1] b]) (use u fin in \<open>simp_all add: sub_def\<close>)
  moreover have "running ?k \<noteq> u" using b kinvD(2) [OF k1] by auto
  ultimately have kw: "kinv (woken u ?k)" using kinvD(2,3,4) [OF k1] b by (simp add: kinv_def)
  have "thread_unblock u ?k = Inr (woken u ?k)"
    by (rule unblock_eq) (use kinv_valid [OF k1] b kinvD(3) [OF k1] in simp_all)
  then have "finish_create u (pop_frame k) = Inr (woken u ?k)"
    using al v kinv_valid [OF k] u(1) by (simp add: finish_create_def)
  then show ?thesis using f kw by (simp add: resume_def)
qed

lemma resume_idle_block:
  assumes k: "kinv k" and f: "frames k (running k) = Idle_block # fs"
  shows "keeps (resume k)"
proof -
  note rs = running_stack [OF k f] and K = kinv0D [OF kinvD(1) [OF k]] and R = kinv_running [OF k]
  have fs: "fs = []" using base_tops(12) [OF stack_base [OF rs(1)]] by simp
  have i: "running k = idle_thread k" using rs(2) by (simp add: is_idle_stack_def)
  let ?k = "intr_disable (push_frames [Idle_hlt] (pop_frame k))"
  let ?k1 = "set_status (running k) THREAD_BLOCKED ?k"
  have st: "status_of ?k1 = (status_of k)(running k \<mapsto> THREAD_BLOCKED)" using R(4) by simp
  have "queues_ok (members k) ((status_of k)(running k \<mapsto> THREAD_BLOCKED)) (idle_thread k) (running k)"
    by (rule queues_set_status [OF K(1)]) (use R in auto)
  moreover have "valid (threads ?k1)" using kinv_valid [OF k] by (simp add: set_status_def)
  moreover have "sleepers_ok ?k1" using K(8) by (simp add: sleepers_ok_def)
  ultimately have "kinv0 ?k1"
    by (intro leave_step [OF k refl f, of ?k1 "[Idle_hlt]" THREAD_BLOCKED])
      (use st f fs rs R(2,5) in \<open>auto simp: base.intros is_idle_stack_def claims_Cons\<close>)
  from schedule_kinv [OF this] obtain k' where "schedule ?k1 = Inr k'" "kinv k'" using st fs f kinvD(3) [OF k] by auto
  moreover have "thread_current ?k = Inr (running k)" using current_ok [of ?k] kinv_valid [OF k] kinvD(2) [OF k] by simp
  ultimately show ?thesis using f kinvD(3) [OF k] by (simp add: resume_def idle_block_def thread_block_def)
qed

text \<open>Every frame of the running thread can be executed.\<close>

lemma resume_keeps:
  assumes k: "kinv k"
  shows "keeps (resume k)"
proof (cases "frames k (running k)")
  case Nil
  then show ?thesis using k by (simp add: resume_def)
next
  case (Cons f fs)
  have "\<And>s. f \<noteq> Idle_start s" using running_stack(1) [OF k Cons] base_tops(14) stack_base by blast
  then show ?thesis
    using resume_sema_loop [OF k] resume_set_level [OF k] resume_iret [OF k] resume_set_holder [OF k] resume_call_up [OF k]
      resume_call_down [OF k] resume_call_acquire [OF k] resume_release [OF k] resume_next_tid [OF k] resume_finish_create [OF k]
      resume_broadcast [OF k] resume_kernel_thread [OF k] resume_idle_block [OF k] resume_idle_hlt [OF k] Cons
    by (cases f) (simp_all, blast)
qed



subsection \<open>Yielding, exiting, sleeping\<close>

lemma thread_yield_ok:
  assumes k: "kinv k" and f: "frames k (running k) = fs" and fs: "fs = [] \<or> (\<exists>gs. fs = Iret # gs)"
  shows "\<exists>k'. thread_yield k = Inr k' \<and> kinv k' \<and> holder k' = holder k \<and> ticks k' = ticks k
    \<and> ready_list k' = tl (ready_list k @ (if running k = idle_thread k then [] else [running k]))"
proof -
  note rs = running_stack [OF k f] and K = kinv0D [OF kinvD(1) [OF k]] and R = kinv_running [OF k]
  have io: "intr_on k \<longleftrightarrow> fs = []" using kinvD(4) [OF k] f fs by auto
  have so: "stack_ok (running k) (Set_level (intr_on k) # fs)"
  proof (cases "fs = []")
    case True
    then show ?thesis using io by (simp add: base.intros)
  next
    case False
    then obtain gs where gs: "fs = Iret # gs" using fs by blast
    then show ?thesis using stack_iret [of "running k" gs] rs(1) io by (auto simp: stack_ok_def)
  qed
  have cl: "claims l (Set_level (intr_on k) # fs) \<longleftrightarrow> claims l fs" for l
    using fs by (auto simp: claims_Cons)
  let ?b = "intr_disable (push_frames [Set_level (intr_on k)] k)"
  define k1 where "k1 = (if running k \<noteq> idle_thread k then ?b\<lparr>ready_list := ready_list k @ [running k]\<rparr> else ?b)"
  let ?k = "set_status (running k) THREAD_READY k1"
  have fields: "status_of k1 = status_of k" "wakeup_of k1 = wakeup_of k" "threads k1 = threads k" "running k1 = running k"
    "idle_thread k1 = idle_thread k" "holder k1 = holder k" "values_of k1 = values_of k" "sleep_list k1 = sleep_list k"
    "next_tick_to_wakeup k1 = next_tick_to_wakeup k" "\<not> intr_on k1" "in_external_intr k1 = in_external_intr k" "ticks k1 = ticks k"
    "frames k1 = (frames k)(running k := Set_level (intr_on k) # fs)"
    "ready_list k1 = ready_list k @ (if running k = idle_thread k then [] else [running k])"
    "members k1 = (members k)(Q_ready := ready_list k @ (if running k = idle_thread k then [] else [running k]))"
    using f by (auto simp: k1_def fun_upd_idem)
  have st: "status_of ?k = (status_of k)(running k \<mapsto> THREAD_READY)" using status_upd [of k1 "running k"] fields(1) R(4) by simp
  have Q: "queues_ok (members ?k) (status_of ?k) (idle_thread ?k) (running k)"
  proof (cases "running k = idle_thread k")
    case True
    then show ?thesis using queues_set_status [OF K(1), of "running k" THREAD_READY] R st fields by (simp add: fun_upd_idem)
  next
    case False
    then show ?thesis using queues_leave [OF K(1) kinvD(2) [OF k], of Q_ready] st fields by (simp add: in_queue_status_def)
  qed
  have "valid (threads ?k)" using kinv_valid [OF k] fields by (simp add: set_status_def)
  moreover have "sleepers_ok ?k" using K(8) fields by (simp add: sleepers_ok_def)
  ultimately have "kinv0 ?k" using Q
    by (intro leave_step [OF k refl f, of ?k "Set_level (intr_on k) # fs" THREAD_READY])
      (use st fields f rs so cl R(2,5) fs in \<open>auto simp: is_idle_stack_def split: if_splits\<close>)
  from schedule_kinv [OF this] obtain k' where k': "schedule ?k = Inr k'" "kinv k'" "holder k' = holder k" "ticks k' = ticks k"
    "ready_list k' = tl (ready_list k1)"
    using st fields kinvD(3) [OF k] by auto
  have "thread_yield k = schedule ?k"
    using kinv_current [OF k] kinvD(3) [OF k] by (auto simp: thread_yield_def Let_def k1_def)
  then show ?thesis using k' fields(14) by auto
qed

lemma thread_exit_ok:
  assumes k: "kinv k" and f: "frames k (running k) = []"
  shows "\<exists>k'. thread_exit k = Inr k' \<and> kinv k' \<and> holder k' = holder k \<and> ticks k' = ticks k"
proof -
  note rs = running_stack [OF k f] and K = kinv0D [OF kinvD(1) [OF k]] and R = kinv_running [OF k]
  have ni: "running k \<noteq> idle_thread k" using rs(2) by (simp add: is_idle_stack_def)
  let ?b = "(intr_disable k)\<lparr>all_list := remove1 (running k) (all_list k)\<rparr>"
  let ?k = "set_status (running k) THREAD_DYING ?b"
  have st: "status_of ?k = (status_of k)(running k \<mapsto> THREAD_DYING)" using R(4) by simp
  have "queues_ok (members k) ((status_of k)(running k \<mapsto> THREAD_DYING)) (idle_thread k) (running k)"
    by (rule queues_set_status [OF K(1)]) (use R ni in auto)
  moreover have "valid (threads ?k)" using kinv_valid [OF k] by (simp add: set_status_def)
  moreover have "sleepers_ok ?k" using K(8) by (simp add: sleepers_ok_def)
  ultimately have "kinv0 ?k"
    by (intro leave_step [OF k refl f, of ?k "[]" THREAD_DYING])
      (use st f rs R(2,5) in \<open>auto simp: base.intros is_idle_stack_def fun_upd_idem\<close>)
  from schedule_kinv [OF this] obtain k' where "schedule ?k = Inr k'" "kinv k'" "holder k' = holder k" "ticks k' = ticks k"
    using st kinvD(3) [OF k] by auto
  moreover have "thread_current (intr_disable k) = Inr (running k)"
    using current_ok [of "intr_disable k"] kinv_valid [OF k] kinvD(2) [OF k] by simp
  ultimately show ?thesis using kinvD(3) [OF k] by (simp add: thread_exit_def Let_def)
qed

lemma user_stack:
  assumes "kinv k" "frames k (running k) = []"
  shows "intr_on k" "running k \<noteq> idle_thread k" "holder k tid_lock \<noteq> running k"
  using kinvD(4) [OF assms(1)] running_stack(2,4) [OF assms] assms(2) by (auto simp: is_idle_stack_def)

lemma wakeup_set [simp]:
  "status_of k t \<noteq> None \<Longrightarrow> wakeup_of (upd_thread t (\<lambda>th. th\<lparr>wakeup_tick := w\<rparr>) k) = (wakeup_of k)(t := w)"
  by (auto simp: fun_eq_iff wakeup_of_def upd_thread_def status_of_def split: option.split)

lemma thread_sleep_ok:
  assumes k: "kinv k" and f: "frames k (running k) = []"
  shows "\<exists>k'. thread_sleep tick k = Inr k' \<and> kinv k' \<and> holder k' = holder k \<and> ticks k' = ticks k"
proof -
  note rs = running_stack [OF k f] and us = user_stack [OF k f] and R = kinv_running [OF k]
  let ?a = "update_next_tick_to_wakeup tick (upd_thread (running k) (\<lambda>th. th\<lparr>wakeup_tick := tick\<rparr>) (intr_disable k))"
  let ?k = "push_frames [Set_level True] (?a\<lparr>sleep_list := sleep_list ?a @ [running k]\<rparr>)"
  note u = update_next_tick_to_wakeup_def
  have nm: "running k \<notin> set (sleep_list k)" using R(2) [of Q_sleep] by simp
  have "wakeup_of ?k = (wakeup_of k)(running k := tick)" using R(4) by (simp add: u)
  then have sl: "sleepers_ok ?k" using kinv0D(8) [OF kinvD(1) [OF k]] nm by (auto simp: sleepers_ok_def u)
  have "valid (threads ?k)" using kinv_valid [OF k] by (simp add: u)
  then have "\<exists>k'. thread_block ?k = Inr k' \<and> kinv k' \<and> running k' = next_thread ?k \<and> ready_list k' = tl (ready_list ?k)
      \<and> holder k' = holder k \<and> ticks k' = ticks ?k"
    by (intro block_in_queue [OF k us(2), of Q_sleep _ "[Set_level True]"])
      (use sl f us rs kinvD(3) [OF k] in \<open>auto simp: u base.intros is_idle_stack_def claims_Cons\<close>)
  moreover have "thread_current (intr_disable k) = Inr (running k)"
    using current_ok [of "intr_disable k"] kinv_valid [OF k] kinvD(2) [OF k] by simp
  ultimately show ?thesis using us by (auto simp: thread_sleep_def Let_def u)
qed

lemma block_thread_ok:
  assumes k: "kinv k" and f: "frames k (running k) = []"
  shows "\<exists>k'. block_thread k = Inr k' \<and> kinv k' \<and> holder k' = holder k \<and> ticks k' = ticks k"
proof -
  note rs = running_stack [OF k f] and us = user_stack [OF k f] and R = kinv_running [OF k]
  let ?a = "intr_disable k"
  let ?k = "push_frames [Set_level True] (?a\<lparr>blocked_threads := blocked_threads k @ [running k]\<rparr>)"
  have "sleepers_ok ?k" using kinv0D(8) [OF kinvD(1) [OF k]] by (simp add: sleepers_ok_def)
  then have "\<exists>k'. thread_block ?k = Inr k' \<and> kinv k' \<and> running k' = next_thread ?k \<and> ready_list k' = tl (ready_list ?k)
      \<and> holder k' = holder k \<and> ticks k' = ticks ?k"
    by (intro block_in_queue [OF k us(2), of Q_blocked _ "[Set_level True]"])
      (use f us rs kinv_valid [OF k] kinvD(3) [OF k] in \<open>auto simp: base.intros is_idle_stack_def claims_Cons\<close>)
  then show ?thesis using us kinv_current [OF k] by (auto simp: block_thread_def Let_def)
qed


subsection \<open>Waking several threads\<close>

text \<open>What a wake-up leaves alone.\<close>

definition same_but_queues :: "kernel \<Rightarrow> kernel \<Rightarrow> bool" where
  "same_but_queues k k' \<longleftrightarrow> frames k' = frames k \<and> running k' = running k \<and> idle_thread k' = idle_thread k \<and> holder k' = holder k
     \<and> intr_on k' = intr_on k \<and> in_external_intr k' = in_external_intr k \<and> ticks k' = ticks k \<and> semas k' = semas k
     \<and> wakeup_of k' = wakeup_of k \<and> yield_on_return k' = yield_on_return k
     \<and> (status_of k (running k) = Some THREAD_RUNNING \<longrightarrow> status_of k' (running k) = Some THREAD_RUNNING)"

lemma same_but_queues_trans: "same_but_queues k k' \<Longrightarrow> same_but_queues k' k'' \<Longrightarrow> same_but_queues k k''"
  by (simp add: same_but_queues_def)

lemma unblock_head:
  assumes k: "kinv0 k" and t: "members k q = A @ t # B" "q \<noteq> Q_ready" and io: "intr_on k \<longrightarrow> \<not> in_external_intr k"
    and k1: "members k1 = (members k)(q := A @ B)" "threads k1 = threads k" "frames k1 = frames k" "running k1 = running k"
      "idle_thread k1 = idle_thread k" "next_tick_to_wakeup k1 = next_tick_to_wakeup k" "holder k1 = holder k" "semas k1 = semas k \<or> q \<in> range Q_sema"
      "values_of k1 = values_of k" "intr_on k1 = intr_on k" "in_external_intr k1 = in_external_intr k"
  shows "thread_unblock t k1 = Inr (woken t k1)" "kinv0 (woken t k1)"
    "status_of k (running k) = Some THREAD_RUNNING \<Longrightarrow> status_of (woken t k1) (running k) = Some THREAD_RUNNING"
proof -
  note K = kinv0D [OF k]
  have st: "status_of k1 = status_of k" "wakeup_of k1 = wakeup_of k" using k1(2) by (simp_all add: fun_eq_iff status_of_def wakeup_of_def)
  have b: "status_of k t = Some THREAD_BLOCKED" using queues_okD(4) [OF K(1), of t q] t by (simp add: in_queue_status_def)
  show "thread_unblock t k1 = Inr (woken t k1)" by (rule unblock_eq) (use K(2) k1 st b io in auto)
  have dq: "distinct (A @ t # B)" using queues_okD(1) [OF K(1), of q] t(1) by simp
  then have rm: "remove1 t (members k q) = A @ B" using t(1) by (simp add: remove1_append)
  have rq: "ready_list k1 = ready_list k" using fun_cong [OF k1(1), of Q_ready] t(2) by simp
  show "kinv0 (woken t k1)"
    by (rule wake_step [OF k, of t q]) (use t K(2) k1 st b rm rq in auto)
  show "status_of (woken t k1) (running k) = Some THREAD_RUNNING" if "status_of k (running k) = Some THREAD_RUNNING"
    using that b st by auto
qed

lemma unblock_loop_ok:
  "kinv0 k \<Longrightarrow> blocked_threads k = ts \<Longrightarrow> \<not> intr_on k \<Longrightarrow>
   \<exists>k'. unblock_loop ts k = Inr k' \<and> kinv0 k' \<and> same_but_queues k k' \<and> blocked_threads k' = []
     \<and> ready_list k' = ready_list k @ ts"
proof (induction ts arbitrary: k)
  case Nil
  then show ?case by (simp add: same_but_queues_def)
next
  case (Cons t ts)
  let ?k = "k\<lparr>blocked_threads := ts\<rparr>"
  have m: "members k Q_blocked = [] @ t # ts" using Cons.prems(2) by simp
  have u: "thread_unblock t ?k = Inr (woken t ?k)" "kinv0 (woken t ?k)"
    "status_of k (running k) = Some THREAD_RUNNING \<Longrightarrow> status_of (woken t ?k) (running k) = Some THREAD_RUNNING"
    by (rule unblock_head [OF Cons.prems(1) m]; use Cons.prems in simp)+
  then obtain k' where k': "unblock_loop ts (woken t ?k) = Inr k'" "kinv0 k'" "same_but_queues (woken t ?k) k'"
    "blocked_threads k' = []" "ready_list k' = (ready_list k @ [t]) @ ts"
    using Cons.IH [of "woken t ?k"] Cons.prems by auto
  have "same_but_queues k (woken t ?k)" using u(3) by (simp add: same_but_queues_def)
  then show ?case using k' u(1) same_but_queues_trans by auto
qed

lemma unblock_threads_ok:
  assumes k: "kinv k"
  shows "\<exists>k'. unblock_threads k = Inr k' \<and> kinv k' \<and> same_but_queues k k' \<and> blocked_threads k' = []
    \<and> ready_list k' = ready_list k @ blocked_threads k"
proof -
  have "kinv0 (intr_disable k)" using kinvD(1) [OF k] kinv0_cong [of "intr_disable k" k] by (simp add: intr_disable_def)
  then obtain k1 where k1: "unblock_loop (blocked_threads k) (intr_disable k) = Inr k1" "kinv0 k1"
    "same_but_queues (intr_disable k) k1" "blocked_threads k1 = []" "ready_list k1 = ready_list k @ blocked_threads k"
    using unblock_loop_ok [of "intr_disable k" "blocked_threads k"] by auto
  let ?k = "k1\<lparr>intr_on := intr_on k\<rparr>"
  have "intr_set_level (intr_on k) k1 = Inr ?k"
    using k1(3) kinvD(3) [OF k] by (auto simp: intr_set_level_def intr_enable_def intr_disable_def same_but_queues_def)
  moreover have "kinv0 ?k" using k1(2) kinv0_cong [of ?k k1] by simp
  then have "kinv ?k" using k1(3) kinvD [OF k] by (auto simp: kinv_def same_but_queues_def)
  ultimately show ?thesis using k1 by (auto simp: unblock_threads_def Let_def same_but_queues_def)
qed



subsection \<open>The timer\<close>

text \<open>While the sleepers are looked at, the next wake-up time is not a bound for all of them; the old
  value \<open>n0\<close> still is.\<close>

lemma wakeup_loop_ok:
  "kinv0 (k\<lparr>next_tick_to_wakeup := n0\<rparr>) \<Longrightarrow> sleep_list k = kept @ ts \<Longrightarrow> \<not> intr_on k \<Longrightarrow>
   \<forall>t \<in> set kept. next_tick_to_wakeup k \<le> wakeup_of k t \<Longrightarrow>
   \<exists>k'. wakeup_loop now kept ts k = Inr k' \<and> kinv0 (k'\<lparr>next_tick_to_wakeup := n0\<rparr>) \<and> same_but_queues k k'
     \<and> sleepers_ok k' \<and> sleep_list k' = kept @ filter (\<lambda>t. now < wakeup_of k t) ts
     \<and> ready_list k' = ready_list k @ filter (\<lambda>t. wakeup_of k t \<le> now) ts"
proof (induction ts arbitrary: k kept)
  case Nil
  then show ?case by (simp add: same_but_queues_def sleepers_ok_def)
next
  case (Cons t ts)
  let ?n = "k\<lparr>next_tick_to_wakeup := n0\<rparr>"
  show ?case
  proof (cases "wakeup_of k t \<le> now")
    case True
    let ?k = "k\<lparr>sleep_list := kept @ ts\<rparr>"
    have m: "members ?n Q_sleep = kept @ t # ts" using Cons.prems(2) by simp
    have u: "thread_unblock t (?k\<lparr>next_tick_to_wakeup := n0\<rparr>) = Inr (woken t (?k\<lparr>next_tick_to_wakeup := n0\<rparr>))"
      "kinv0 (woken t (?k\<lparr>next_tick_to_wakeup := n0\<rparr>))"
      "status_of ?n (running ?n) = Some THREAD_RUNNING \<Longrightarrow> status_of (woken t (?k\<lparr>next_tick_to_wakeup := n0\<rparr>)) (running ?n) = Some THREAD_RUNNING"
      by (rule unblock_head [OF Cons.prems(1) m]; use Cons.prems in simp)+
    have com: "woken t (?k\<lparr>next_tick_to_wakeup := n0\<rparr>) = (woken t ?k)\<lparr>next_tick_to_wakeup := n0\<rparr>"
      by (simp add: woken_def set_status_def upd_thread_def)
    have b: "status_of k t = Some THREAD_BLOCKED"
      using queues_okD(4) [OF kinv0D(1) [OF Cons.prems(1)], of t Q_sleep] Cons.prems(2) by (simp add: in_queue_status_def)
    have ub: "thread_unblock t ?k = Inr (woken t ?k)"
      by (rule unblock_eq) (use kinv0D(2) [OF Cons.prems(1)] b Cons.prems(3) in simp_all)
    obtain k' where k': "wakeup_loop now kept ts (woken t ?k) = Inr k'" "kinv0 (k'\<lparr>next_tick_to_wakeup := n0\<rparr>)"
      "same_but_queues (woken t ?k) k'" "sleepers_ok k'" "sleep_list k' = kept @ filter (\<lambda>t. now < wakeup_of k t) ts"
      "ready_list k' = (ready_list k @ [t]) @ filter (\<lambda>t. wakeup_of k t \<le> now) ts"
      using Cons.IH [of "woken t ?k" kept] u(2) com Cons.prems by auto
    have "same_but_queues k (woken t ?k)" using u(3) com by (simp add: same_but_queues_def)
    then show ?thesis using k' ub True same_but_queues_trans by auto
  next
    case False
    let ?k = "update_next_tick_to_wakeup (wakeup_of k t) k"
    have f: "?k\<lparr>next_tick_to_wakeup := n0\<rparr> = ?n" "wakeup_of ?k = wakeup_of k" "sleep_list ?k = sleep_list k" "intr_on ?k = intr_on k"
      "ready_list ?k = ready_list k" "next_tick_to_wakeup ?k \<le> next_tick_to_wakeup k" "next_tick_to_wakeup ?k \<le> wakeup_of k t"
      by (simp_all add: update_next_tick_to_wakeup_def)
    have "same_but_queues k ?k" by (simp add: same_but_queues_def update_next_tick_to_wakeup_def)
    moreover obtain k' where k': "wakeup_loop now (kept @ [t]) ts ?k = Inr k'" "kinv0 (k'\<lparr>next_tick_to_wakeup := n0\<rparr>)"
      "same_but_queues ?k k'" "sleepers_ok k'" "sleep_list k' = kept @ t # filter (\<lambda>t. now < wakeup_of k t) ts"
      "ready_list k' = ready_list k @ filter (\<lambda>t. wakeup_of k t \<le> now) ts"
      using Cons.IH [of ?k "kept @ [t]"] Cons.prems f by fastforce
    ultimately show ?thesis using False same_but_queues_trans by auto
  qed
qed

lemma kinv0_next:
  assumes "kinv0 (k\<lparr>next_tick_to_wakeup := n\<rparr>)" "sleepers_ok k"
  shows "kinv0 k"
  using assms by (simp add: kinv0_def)

lemma thread_wakeup_ok:
  assumes k: "kinv0 k" "\<not> intr_on k"
  shows "\<exists>k'. thread_wakeup now k = Inr k' \<and> kinv0 k' \<and> same_but_queues k k'
    \<and> sleep_list k' = filter (\<lambda>t. now < wakeup_of k t) (sleep_list k)
    \<and> ready_list k' = ready_list k @ filter (\<lambda>t. wakeup_of k t \<le> now) (sleep_list k)"
proof -
  let ?k = "k\<lparr>next_tick_to_wakeup := INT64_MAX\<rparr>"
  have "\<exists>k'. wakeup_loop now [] (sleep_list k) ?k = Inr k' \<and> kinv0 (k'\<lparr>next_tick_to_wakeup := next_tick_to_wakeup k\<rparr>)
     \<and> same_but_queues ?k k' \<and> sleepers_ok k' \<and> sleep_list k' = [] @ filter (\<lambda>t. now < wakeup_of ?k t) (sleep_list k)
     \<and> ready_list k' = ready_list ?k @ filter (\<lambda>t. wakeup_of ?k t \<le> now) (sleep_list k)"
    by (rule wakeup_loop_ok) (use k in simp_all)
  then show ?thesis using kinv0_next by (auto simp: thread_wakeup_def same_but_queues_def)
qed

lemma thread_tick_ok:
  assumes "thread_current k = Inr c" "in_external_intr k"
  shows "\<exists>k1. thread_tick k = Inr k1 \<and> threads k1 = threads k \<and> frames k1 = frames k \<and> running k1 = running k
    \<and> ready_list k1 = ready_list k \<and> sleep_list k1 = sleep_list k \<and> blocked_threads k1 = blocked_threads k \<and> idle_thread k1 = idle_thread k
    \<and> next_tick_to_wakeup k1 = next_tick_to_wakeup k \<and> semas k1 = semas k \<and> holder k1 = holder k \<and> ticks k1 = ticks k
    \<and> intr_on k1 = intr_on k \<and> in_external_intr k1 = in_external_intr k"
  using assms
  by (cases "c = idle_thread k"; cases "TIME_SLICE \<le> thread_ticks k + 1")
    (simp_all add: thread_tick_def Let_def intr_yield_on_return_def)

text \<open>The tick: everybody whose time has come is ready, in the order of going to sleep; everybody else
  goes on sleeping.\<close>

lemma timer_interrupt_ok:
  assumes k: "kinv0 k" "status_of k (running k) = Some THREAD_RUNNING" "\<not> intr_on k" "in_external_intr k"
  shows "timer_interrupt k = Inl Signed_overflow \<or> (\<exists>k'. timer_interrupt k = Inr k' \<and> kinv0 k' \<and> ticks k' = ticks k + 1
    \<and> frames k' = frames k \<and> running k' = running k \<and> holder k' = holder k \<and> \<not> intr_on k' \<and> in_external_intr k'
    \<and> wakeup_of k' = wakeup_of k \<and> status_of k' (running k) = Some THREAD_RUNNING \<and> idle_thread k' = idle_thread k
    \<and> sleep_list k' = filter (\<lambda>t. ticks k + 1 < wakeup_of k t) (sleep_list k)
    \<and> ready_list k' = ready_list k @ filter (\<lambda>t. wakeup_of k t \<le> ticks k + 1) (sleep_list k))"
proof (cases "c_int64 (ticks k + 1)")
  case (Inl e)
  then show ?thesis by (auto simp: timer_interrupt_def c_int64_def split: if_splits)
next
  case (Inr n)
  then have n: "n = ticks k + 1" by (auto simp: c_int64_def split: if_splits)
  let ?k = "k\<lparr>ticks := n\<rparr>"
  have cur: "thread_current ?k = Inr (running k)" using current_ok [of ?k] kinv0D(2) [OF k(1)] k(2) by simp
  obtain k1 where k1: "thread_tick ?k = Inr k1" "threads k1 = threads k" "frames k1 = frames k" "running k1 = running k"
    "ready_list k1 = ready_list k" "sleep_list k1 = sleep_list k" "blocked_threads k1 = blocked_threads k" "idle_thread k1 = idle_thread k"
    "next_tick_to_wakeup k1 = next_tick_to_wakeup k" "semas k1 = semas k" "holder k1 = holder k" "ticks k1 = n"
    "intr_on k1 = intr_on k" "in_external_intr k1 = in_external_intr k"
    using thread_tick_ok [OF cur] k(4) by auto
  have kk: "kinv0 k1" using kinv0_cong [of k1 k] k1 k(1) by simp
  have st: "status_of k1 = status_of k" "wakeup_of k1 = wakeup_of k"
    using k1(2) by (simp_all add: fun_eq_iff status_of_def wakeup_of_def)
  show ?thesis
  proof (cases "next_tick_to_wakeup k1 \<le> n")
    case True
    obtain k2 where "thread_wakeup n k1 = Inr k2" "kinv0 k2" "same_but_queues k1 k2"
      "sleep_list k2 = filter (\<lambda>t. n < wakeup_of k1 t) (sleep_list k1)"
      "ready_list k2 = ready_list k1 @ filter (\<lambda>t. wakeup_of k1 t \<le> n) (sleep_list k1)"
      using thread_wakeup_ok [OF kk, of n] k1 k(3) by auto
    then show ?thesis using Inr n k1 True st k by (auto simp: timer_interrupt_def same_but_queues_def)
  next
    case False
    have "\<forall>t \<in> set (sleep_list k). ticks k + 1 < wakeup_of k t"
      using kinv0D(8) [OF k(1)] False k1(9) n by (auto simp: sleepers_ok_def)
    then have "filter (\<lambda>t. ticks k + 1 < wakeup_of k t) (sleep_list k) = sleep_list k"
      "filter (\<lambda>t. wakeup_of k t \<le> ticks k + 1) (sleep_list k) = []" by (auto simp: filter_empty_conv filter_id_conv)
    then show ?thesis using Inr n k1 False st k kk by (auto simp: timer_interrupt_def)
  qed
qed

lemma handler_entry:
  assumes k: "kinv k" and io: "intr_on k"
  shows "kinv (intr_disable (push_frames [Iret] k))"
proof -
  note rs = running_stack [OF k refl]
  let ?fs = "frames k (running k)"
  have off: "\<not> off_top ?fs" using kinvD(4) [OF k] io by simp
  have base: "base (running k) ?fs" using rs(1) off by (auto simp: stack_ok_def)
  show ?thesis
    by (rule local_step [OF k refl refl, of _ "Iret # ?fs"])
      (use rs off base kinv_valid [OF k] in \<open>auto simp: stack_ok_def is_idle_stack_def claims_iret\<close>)
qed

lemma tick_keeps:
  assumes k: "kinv k" and io: "intr_on k"
  shows "keeps (intr_handler timer_interrupt k)"
proof -
  let ?k = "intr_disable (push_frames [Iret] k)"
  have k1: "kinv ?k" by (rule handler_entry [OF k io])
  let ?e = "?k\<lparr>in_external_intr := True, yield_on_return := False\<rparr>"
  have "kinv0 ?e" using kinvD(1) [OF k1] kinv0_cong [of ?e ?k] by simp
  from timer_interrupt_ok [OF this] consider "timer_interrupt ?e = Inl Signed_overflow"
    | k' where "timer_interrupt ?e = Inr k'" "kinv0 k'" "frames k' = frames ?k" "running k' = running k" "holder k' = holder k"
      "\<not> intr_on k'" "in_external_intr k'" "status_of k' (running k) = Some THREAD_RUNNING"
    using kinvD(2) [OF k] by auto
  then show ?thesis
  proof cases
    case 1
    then show ?thesis using kinvD(3) [OF k] by (simp add: intr_handler_def Let_def)
  next
    case 2
    let ?d = "k'\<lparr>in_external_intr := False\<rparr>"
    have "kinv0 ?d" using 2(2) kinv0_cong [of ?d k'] by simp
    then have kd: "kinv ?d" using 2 by (simp add: kinv_def)
    have "\<exists>k''. thread_yield ?d = Inr k'' \<and> kinv k'' \<and> holder k'' = holder ?d \<and> ticks k'' = ticks ?d
      \<and> ready_list k'' = tl (ready_list ?d @ (if running ?d = idle_thread ?d then [] else [running ?d]))"
      by (rule thread_yield_ok [OF kd refl]) (use 2 in auto)
    then show ?thesis using 2 kd kinvD(3) [OF k] by (auto simp: intr_handler_def Let_def)
  qed
qed



subsection \<open>Calls from a thread's own code\<close>

lemma create_ok:
  assumes k: "kinv k" and f: "frames k (running k) = []" and a: "allowed (Create (Some u) nm prio) k"
  shows "\<exists>k'. thread_create (Some u) nm prio [] k = Inr k' \<and> kinv k' \<and> holder k' = holder k"
proof -
  note K = kinv0D [OF kinvD(1) [OF k]] and R = kinv_running [OF k] and us = user_stack [OF k f] and rs = running_stack [OF k f]
  define th where "th = \<lparr>tid = 0, status = THREAD_BLOCKED, tname = take 15 nm, stack = u + PGSIZE, priority = prio,
    wakeup_tick = 0, magic = THREAD_MAGIC\<rparr>"
  define r where "r = running k"
  have u0: "u \<noteq> 0" "threads k u = None" "PRI_MIN \<le> prio" "prio \<le> PRI_MAX" using a by auto
  have su: "status_of k u = None" using u0 by (simp add: status_of_def)
  have ur: "u \<noteq> r" "r \<noteq> u" "u \<noteq> idle_thread k" using su kinvD(2) [OF k] queues_okD(7) [OF K(1)] by (auto simp: r_def)
  have fu: "frames k u = []" using stacks_okD(3) [OF K(3)] su by simp
  have um: "u \<notin> set (members k q)" for q using queues_okD(4) [OF K(1), of u q] su by auto
  let ?fs = "Call_acquire tid_lock # creation u"
  let ?fr = "(frames k)(u := [Kernel_thread], r := ?fs)"
  define k1 where "k1 = k\<lparr>threads := (threads k)(u \<mapsto> th), all_list := all_list k @ [u], frames := ?fr\<rparr>"
  have st: "status_of k1 = (status_of k)(u \<mapsto> THREAD_BLOCKED)" by (auto simp: k1_def status_of_def th_def fun_eq_iff)
  have flds: "members k1 = members k" "idle_thread k1 = idle_thread k" "running k1 = r" "frames k1 = ?fr" "holder k1 = holder k"
    "values_of k1 = values_of k" "intr_on k1 = intr_on k" "in_external_intr k1 = in_external_intr k"
    by (simp_all add: k1_def r_def)
  have "kinv0 k1"
  proof (rule kinv0I)
    show "queues_ok (members k1) (status_of k1) (idle_thread k1) (running k1)"
      using queues_new [OF K(1) su] flds st by (simp add: r_def)
    show "valid (threads k1)" using K(2) u0 by (auto simp: valid_def k1_def th_def)
    show "stacks_ok (frames k1) (status_of k1) (idle_thread k1) (running k1)"
      unfolding stacks_ok_def flds st
    proof
      fix x
      show "stack_ok x (?fr x) \<and> (is_idle_stack (?fr x) \<longleftrightarrow> x = idle_thread k)
        \<and> (((status_of k)(u \<mapsto> THREAD_BLOCKED)) x = None \<or> ((status_of k)(u \<mapsto> THREAD_BLOCKED)) x = Some THREAD_DYING \<longrightarrow> ?fr x = [])
        \<and> (x \<noteq> r \<and> ((status_of k)(u \<mapsto> THREAD_BLOCKED)) x \<noteq> None \<and> ((status_of k)(u \<mapsto> THREAD_BLOCKED)) x \<noteq> Some THREAD_DYING \<longrightarrow> off_top (?fr x))"
      proof (cases "x = r")
        case True
        then show ?thesis using ur us(2) kinvD(2) [OF k] by (simp add: r_def base.intros stack_defs)
      next
        case False
        then show ?thesis using stacks_okD [OF K(3), of x] ur by (cases "x = u") (auto simp: r_def base.intros is_idle_stack_def)
      qed
    qed
    show "makers_ok (frames k1) (members k1) (status_of k1) (idle_thread k1)"
      unfolding makers_ok_def flds st
    proof (intro allI impI)
      fix x v assume v: "Finish_create v \<in> set (?fr x)"
      have old: "Finish_create w \<in> set (frames k y)" if "Finish_create w \<in> set (?fr y)" "w \<noteq> u" for w y
        using that ur by (auto simp: creation_def split: if_splits)
      have newr: "y = r" if "Finish_create u \<in> set (?fr y)" for y
        using that makersD(1) [OF K(4), of u y] su by (auto split: if_splits)
      show "((status_of k)(u \<mapsto> THREAD_BLOCKED)) v = Some THREAD_BLOCKED \<and> (\<forall>q. v \<notin> set (members k q)) \<and> v \<noteq> idle_thread k
        \<and> (\<forall>t'. Finish_create v \<in> set (?fr t') \<longrightarrow> t' = x)"
      proof (cases "v = u")
        case True
        have x: "x = r" by (rule newr [OF v [unfolded True]])
        show ?thesis unfolding True x
        proof (intro conjI allI impI)
          show "u \<notin> set (members k q)" for q by (rule um)
          show "y = r" if "Finish_create u \<in> set (?fr y)" for y by (rule newr [OF that])
        qed (use ur(3) in simp_all)
      next
        case False
        note m = makersD [OF K(4) old [OF v False]]
        show ?thesis
        proof (intro conjI allI impI)
          show "v \<notin> set (members k q)" for q by (rule m(2))
          show "y = x" if "Finish_create v \<in> set (?fr y)" for y by (rule m(4) [OF old [OF that False]])
        qed (use m(1,3) False in simp_all)
      qed
    qed
    show "waits_ok (frames k1) (members k1)"
      unfolding flds by (intro waits_upd K(5)) (use um R(2) in \<open>auto simp: r_def\<close>)
    show "holders_ok (frames k1) (holder k1)"
      unfolding holders_ok_def flds
    proof (intro conjI allI impI)
      fix x
      have "holder_ok x (frames k x) (holder k)" using K(6) by (simp add: holders_ok_def)
      moreover have "holder_ok r ?fs (holder k)" using us(3) by (auto simp: r_def creation_def holder_ok_def)
      ultimately show "holder_ok x (?fr x) (holder k)" by auto
    next
      assume "holder k tid_lock \<noteq> 0"
      then have "Call_release tid_lock \<in> set (frames k (holder k tid_lock))" using K(6) by (simp add: holders_ok_def)
      then have "holder k tid_lock \<noteq> u" "holder k tid_lock \<noteq> r" using fu us(3) by (auto simp: r_def)
      then show "Call_release tid_lock \<in> set (?fr (holder k tid_lock))"
        using \<open>Call_release tid_lock \<in> set (frames k (holder k tid_lock))\<close> by simp
    qed
    have "{t. claims l (?fr t)} = {t. claims l (frames k t)}" for l
      using fu f by (auto simp: r_def claims_Cons creation_def)
    then show "locks_ok (frames k1) (holder k1) (values_of k1)" using K(7) by (simp add: flds locks_ok_def)
    have "wakeup_of k1 t = wakeup_of k t" if "t \<noteq> u" for t using that by (simp add: k1_def wakeup_of_def)
    moreover have "sleep_list k1 = sleep_list k" "next_tick_to_wakeup k1 = next_tick_to_wakeup k" by (simp_all add: k1_def)
    ultimately show "sleepers_ok k1" using K(8) um [of Q_sleep] unfolding sleepers_ok_def members_at by metis
  qed
  then have "kinv k1" using kinvD(2,3) [OF k] us(1) ur flds st by (simp add: kinv_def r_def creation_def)
  moreover have "thread_create (Some u) nm prio [] k = Inr k1"
    using u0 us(1) kinvD(3) [OF k] f ur
    by (simp add: thread_create_def init_thread_def intr_set_level_def intr_enable_def intr_disable_def k1_def th_def r_def
        push_frames_def creation_def Let_def)
  ultimately show ?thesis using flds by auto
qed

lemma user_step:
  assumes k: "kinv k" and f: "frames k (running k) = []"
    and same: "valid (threads k')" "running k' = running k" "members k' = members k" "idle_thread k' = idle_thread k"
      "next_tick_to_wakeup k' = next_tick_to_wakeup k" "in_external_intr k' = in_external_intr k"
      "status_of k' = status_of k" "wakeup_of k' = wakeup_of k" "intr_on k'"
    and fr: "frames k' = (frames k)(running k := fs)" and st: "base (running k) fs" "\<not> off_top fs" "\<not> is_idle_stack fs"
    and mk: "\<And>u. Finish_create u \<notin> set fs"
    and ho: "\<And>l. holder k' l \<noteq> holder k l \<Longrightarrow> holder k l \<in> {0, running k} \<and> holder k' l \<in> {0, running k}"
      "holder_ok (running k) fs (holder k')" "holder k' tid_lock = holder k tid_lock"
    and mv: "\<And>l. lock_moves (running k) False (claims l fs) (holder k l) (holder k' l)
      (values_of k (Lock_sema l)) (values_of k' (Lock_sema l))"
  shows "kinv k'"
  by (rule local_step [OF k refl f, of _ fs])
    (use assms user_stack [OF k f] in \<open>auto simp: is_idle_stack_def\<close>)

lemma sema_try_down_eq:
  assumes "intr_on k" "\<not> in_external_intr k"
  shows "sema_try_down s k = Inr (if values_of k s > 0 then (True, set_sema s (values_of k s - 1) (waiters (semas k s)) k) else (False, k))"
  using assms by (cases k)
    (auto simp: sema_try_down_def Let_def intr_set_level_def intr_enable_def intr_disable_def values_of_def set_sema_def)

lemma call_keeps:
  assumes k: "kinv k" and f: "frames k (running k) = []" and a: "allowed c k"
  shows "keeps (do_call c k)"
proof -
  note us = user_stack [OF k f] and V = kinv_valid [OF k] and C = kinv_current [OF k] and E = kinvD(3) [OF k]
  have self: "k = k\<lparr>frames := (frames k)(running k := [])\<rparr>" using f by (simp add: fun_upd_idem)
  have ni: "\<not> is_idle_stack []" by (simp add: is_idle_stack_def)
  show ?thesis
  proof (cases c)
    case (Create page nm prio)
    show ?thesis
    proof (cases page)
      case None
      then show ?thesis using Create k by (simp add: thread_create_def)
    next
      case (Some u)
      then show ?thesis using Create create_ok [OF k f, of u nm prio] a by auto
    qed
  next
    case Yield
    then show ?thesis using thread_yield_ok [OF k f] by auto
  next
    case Exit
    then show ?thesis using thread_exit_ok [OF k f] by auto
  next
    case (Down n)
    have "\<exists>k'. sema_down (Sema n) k = Inr k' \<and> kinv k' \<and> holder k' = holder k \<and> ticks k' = ticks k"
      by (rule sema_down_ok [OF k f us(1) self]) (use us ni in \<open>auto simp: base.intros\<close>)
    then show ?thesis using Down by auto
  next
    case (Up n)
    then show ?thesis using sema_up_plain [OF k, of "Sema n"] by auto
  next
    case (Try_down n)
    let ?v = "values_of k (Sema n)"
    let ?k = "set_sema (Sema n) (?v - 1) (waiters (semas k (Sema n))) k"
    have "kinv ?k"
      by (rule user_step [OF k f, of _ "[]"]) (use V us f in \<open>auto simp: base.intros is_idle_stack_def fun_upd_idem\<close>)
    then show ?thesis using Try_down k sema_try_down_eq [OF us(1) E] by simp
  next
    case (Acquire l)
    have "\<exists>k'. lock_acquire l k = Inr k' \<and> kinv k' \<and> holder k' = holder k \<and> ticks k' = ticks k"
      by (rule lock_acquire_ok [OF k f us(1) self]) (use us ni a Acquire in \<open>auto simp: after_acquire_def\<close>)
    then show ?thesis using Acquire by auto
  next
    case (Try_acquire l)
    let ?v = "values_of k (Lock_sema l)"
    let ?k = "push_frames [Set_holder l] (set_sema (Lock_sema l) (?v - 1) (waiters (semas k (Lock_sema l))) k)"
    have "kinv ?k" if "?v \<noteq> 0"
      by (rule user_step [OF k f, of _ "[Set_holder l]"])
        (use V us f that a Try_acquire in \<open>auto simp: base.intros after_acquire_def is_idle_stack_def fun_upd_idem claims_Cons
          lock_moves_def holder_ok_def\<close>)
    then show ?thesis using Try_acquire k sema_try_down_eq [OF us(1) E] C a
      by (simp add: lock_try_acquire_def lock_held_by_current_thread_def word_gt_0)
  next
    case (Release l)
    let ?k = "push_frames [Call_up (Lock_sema l)] (k\<lparr>holder := (holder k)(l := 0)\<rparr>)"
    have "kinv ?k"
      by (rule user_step [OF k f, of _ "[Call_up (Lock_sema l)]"])
        (use V us f a Release in \<open>auto simp: base.intros is_idle_stack_def claims_Cons lock_moves_def split: if_splits\<close>)
    then show ?thesis using Release C a by (simp add: lock_release_def lock_held_by_current_thread_def)
  next
    case (Wait d l)
    let ?w = "Waiter (running k)"
    have nw: "waiters (semas k ?w) = []"
    proof (rule ccontr)
      assume "waiters (semas k ?w) \<noteq> []"
      then obtain t where t: "t \<in> set (members k (Q_sema ?w))" by (cases "waiters (semas k ?w)") auto
      then obtain r where r: "frames k t = Sema_loop ?w True # r"
        using kinv0D(5) [OF kinvD(1) [OF k]] unfolding waits_ok_def by blast
      have "base t (Sema_loop ?w True # r)"
        using stacks_okD(1) [OF kinv0D(3) [OF kinvD(1) [OF k]], of t] r stack_base [of t "Sema_loop ?w True" r] by simp
      then have "t = running k" using base_tops(3) by auto
      then show False using r f by simp
    qed
    let ?fs = "[Call_up (Lock_sema l), Call_down ?w, Call_acquire l]"
    let ?k = "push_frames ?fs ((sema_init ?w 0 k)\<lparr>cond_waiters := (cond_waiters k)(d := cond_waiters k d @ [running k]), holder := (holder k)(l := 0)\<rparr>)"
    have "kinv ?k"
      by (rule user_step [OF k f, of _ ?fs])
        (use V us f a Wait nw kinv_running(1) [OF k] in \<open>auto simp: sema_init_def base.intros is_idle_stack_def claims_Cons lock_moves_def
          holder_ok_def fun_upd_idem split: if_splits\<close>)
    moreover have "thread_current (push_frames [Call_down ?w, Call_acquire l] ((sema_init ?w 0 k)\<lparr>cond_waiters := (cond_waiters k)(d := cond_waiters k d @ [running k])\<rparr>)) = Inr (running k)"
      using current_ok [of "push_frames [Call_down ?w, Call_acquire l] ((sema_init ?w 0 k)\<lparr>cond_waiters := (cond_waiters k)(d := cond_waiters k d @ [running k])\<rparr>)"] V kinvD(2) [OF k] by (simp add: sema_init_def)
    ultimately show ?thesis using Wait C a E
      by (simp add: cond_wait_def lock_release_def lock_held_by_current_thread_def Let_def sema_init_def push_frames_def set_sema_def)
  next
    case (Signal d l)
    then show ?thesis using cond_signal_ok [OF k, of l d] a by auto
  next
    case (Broadcast_all d l)
    have "kinv (push_frames [Broadcast d l] k)"
      by (rule user_step [OF k f, of _ "[Broadcast d l]"])
        (use V us f a Broadcast_all in \<open>auto simp: base.intros is_idle_stack_def claims_Cons holder_ok_def\<close>)
    then show ?thesis using Broadcast_all by (simp add: cond_broadcast_def)
  next
    case (Sleep n)
    then show ?thesis using thread_sleep_ok [OF k f, of "ticks k + n"] us(1) by (auto simp: timer_sleep_def c_int64_def)
  next
    case Block
    then show ?thesis using block_thread_ok [OF k f] by auto
  next
    case Unblock
    then show ?thesis using unblock_threads_ok [OF k] by auto
  next
    case (Set_priority p)
    have "kinv (upd_thread (running k) (\<lambda>th. th\<lparr>priority := p\<rparr>) k)"
      by (rule user_step [OF k f, of _ "[]"]) (use V us f in \<open>auto simp: base.intros is_idle_stack_def fun_upd_idem\<close>)
    then show ?thesis using Set_priority C by (simp add: thread_set_priority_def)
  qed
qed

lemma kstep_kinv: "kstep k k' \<Longrightarrow> kinv k \<Longrightarrow> kinv k'"
  by (induction rule: kstep.induct) (metis resume_keeps keeps_simps(1), metis tick_keeps keeps_simps(1), metis call_keeps keeps_simps(1))

end
