(* ===== verification/Thread_Properties.thy ===== *)
theory Thread_Properties
  imports Thread_Steps
begin

text \<open>
  The thread system from its start on: the start-up code reaches a state that satisfies the
  invariant, so the invariant holds in every state of every run, and the properties of scheduling,
  locks and sleeping follow.
\<close>

subsection \<open>Start-up\<close>

text \<open>What \<^verbatim>\<open>thread_init\<close> and \<^verbatim>\<open>thread_start\<close> compute, at three points: after \<^verbatim>\<open>thread_init\<close>, when the idle thread
  has been created, and when \<^verbatim>\<open>thread_start\<close> returns.\<close>

lemmas boot_defs = thread_init_def thread_start_def lock_init_def sema_init_def set_sema_def init_thread_def
  PRI_DEFAULT_def PRI_MIN_def PRI_MAX_def intr_set_level_def intr_enable_def intr_disable_def push_frames_def pop_frame_def set_status_def upd_thread_def
  resume_def lock_acquire_def lock_held_by_current_thread_def thread_current_def is_thread_def status_of_def THREAD_MAGIC_def
  sema_down_def sema_loop_def set_holder_def lock_release_def sema_up_def allocate_tid_def c_int_def
  thread_create_def finish_create_def alloc_frame_def thread_unblock_def thread_block_def schedule_def next_thread_to_run_def
  thread_schedule_tail_def idle_start_def idle_block_def free_thread_def Let_def tid_lock_def

lemma run_num: "run_frames (numeral n) k = rbind (resume k) (run_frames (pred_numeral n))"
  by (simp add: numeral_eq_Suc)

definition init_state :: "nat \<Rightarrow> kernel" where
  "init_state main = blank\<lparr>threads := [main \<mapsto> \<lparr>tid = 1, status = THREAD_RUNNING, tname = ''main'', stack = main + PGSIZE, priority = 31,
      wakeup_tick = 0, magic = THREAD_MAGIC\<rparr>], running := main, all_list := [main], initial_thread := main, next_tid := 2\<rparr>"


lemma init_runs:
  assumes "main \<noteq> 0"
  shows "rbind (thread_init main blank) (run_frames 5) = Inr (init_state main)"
proof -
  have "rbind (thread_init main blank) (run_frames 5) = Inr ((init_state main)\<lparr>semas := (semas blank)(Lock_sema 0 := \<lparr>sema_value = 1, waiters = []\<rparr>),
    holder := (holder blank)(0 := 0), frames := (frames blank)(main := [])\<rparr>)"
    using assms by (simp add: run_num boot_defs blank_def init_state_def)
  moreover have "(semas blank)(Lock_sema 0 := \<lparr>sema_value = 1, waiters = []\<rparr>) = semas (init_state main)"
    "(holder blank)(0 := 0) = holder (init_state main)" "(frames blank)(main := []) = frames (init_state main)"
    by (auto simp: blank_def init_state_def fun_eq_iff)
  ultimately show ?thesis by simp
qed

definition idle_created :: "nat \<Rightarrow> nat \<Rightarrow> kernel" where
  "idle_created main idle = blank\<lparr>threads := [main \<mapsto> \<lparr>tid = 1, status = THREAD_RUNNING, tname = ''main'', stack = main + PGSIZE, priority = 31,
      wakeup_tick = 0, magic = THREAD_MAGIC\<rparr>, idle \<mapsto> \<lparr>tid = 2, status = THREAD_READY, tname = ''idle'', stack = idle + PGSIZE - 44, priority = 0,
      wakeup_tick = 0, magic = THREAD_MAGIC\<rparr>], frames := (frames blank)(idle := [Kernel_thread, Idle_start (Sema 0)], main := [Set_level True, Call_down (Sema 0)]),
      running := main, ready_list := [idle], all_list := [main, idle], initial_thread := main, next_tid := 3\<rparr>"

lemma start_runs:
  assumes "main \<noteq> 0" "idle \<noteq> 0" "main \<noteq> idle" "idle \<noteq> main"
  shows "rbind (thread_start (Sema 0) (Some idle) (init_state main)) (run_frames 6) = Inr (idle_created main idle)"
proof -
  have "rbind (thread_start (Sema 0) (Some idle) (init_state main)) (run_frames 6) = Inr (idle_created main idle\<lparr>semas := (semas blank)(Sema 0 := \<lparr>sema_value = 0, waiters = []\<rparr>, Lock_sema 0 := \<lparr>sema_value = 1, waiters = []\<rparr>),
    holder := (holder blank)(0 := 0)\<rparr>)"
    using assms by (simp add: run_num boot_defs blank_def init_state_def idle_created_def)
  moreover have "(semas blank)(Sema 0 := \<lparr>sema_value = 0, waiters = []\<rparr>, Lock_sema 0 := \<lparr>sema_value = 1, waiters = []\<rparr>) = semas (idle_created main idle)"
    "(holder blank)(0 := 0) = holder (idle_created main idle)" 
    by (auto simp: blank_def idle_created_def fun_eq_iff)
  ultimately show ?thesis by simp
qed


definition booted :: "nat \<Rightarrow> nat \<Rightarrow> kernel" where
  "booted main idle = blank\<lparr>threads := [main \<mapsto> \<lparr>tid = 1, status = THREAD_RUNNING, tname = ''main'', stack = main + PGSIZE, priority = 31,
      wakeup_tick = 0, magic = THREAD_MAGIC\<rparr>, idle \<mapsto> \<lparr>tid = 2, status = THREAD_BLOCKED, tname = ''idle'', stack = idle + PGSIZE - 44, priority = 0,
      wakeup_tick = 0, magic = THREAD_MAGIC\<rparr>], frames := (frames blank)(idle := [Idle_hlt]), running := main, all_list := [main, idle],
      idle_thread := idle, initial_thread := main, next_tid := 3, intr_on := True\<rparr>"

lemma idle_runs:
  assumes "main \<noteq> 0" "idle \<noteq> 0" "main \<noteq> idle" "idle \<noteq> main"
  shows "run_frames 8 (idle_created main idle) = Inr (booted main idle)"
proof -
  have "run_frames 8 (idle_created main idle) = Inr (booted main idle\<lparr>semas := (semas blank)(Sema 0 := \<lparr>sema_value = 0, waiters = []\<rparr>),
    threads := (threads (booted main idle))(main := threads (booted main idle) main),
    frames := (frames blank)(idle := [Idle_hlt], main := [])\<rparr>)"
    using assms by (simp add: run_num boot_defs blank_def idle_created_def booted_def fun_upd_twist)
  moreover have "(semas blank)(Sema 0 := \<lparr>sema_value = 0, waiters = []\<rparr>) = semas (booted main idle)"
    "(frames blank)(idle := [Idle_hlt], main := []) = frames (booted main idle)"
    using assms by (auto simp: blank_def booted_def fun_eq_iff)
  ultimately show ?thesis by simp
qed

lemma run_frames_add: "run_frames (m + n) k = rbind (run_frames m k) (run_frames n)"
proof (induction m arbitrary: k)
  case (Suc m)
  then show ?case by (cases "resume k") simp_all
qed simp

lemma boot_runs:
  assumes "main \<noteq> 0" "idle \<noteq> 0" "main \<noteq> idle"
  shows "boot_threads main idle = Inr (booted main idle)"
proof -
  have ne: "idle \<noteq> main" using assms by simp
  obtain k1 where k1: "thread_init main blank = Inr k1" "run_frames 5 k1 = Inr (init_state main)"
    using init_runs [OF assms(1)] by (cases "thread_init main blank") auto
  obtain k2 where k2: "thread_start (Sema 0) (Some idle) (init_state main) = Inr k2" "run_frames 6 k2 = Inr (idle_created main idle)"
    using start_runs [OF assms ne] by (cases "thread_start (Sema 0) (Some idle) (init_state main)") auto
  have "run_frames 14 k2 = Inr (booted main idle)" using run_frames_add [of 6 8 k2] k2(2) idle_runs [OF assms ne] by simp
  then show ?thesis using k1 k2(1) by (simp add: boot_threads_def)
qed


lemma booted_kinv:
  assumes "main \<noteq> 0" "idle \<noteq> 0" "main \<noteq> idle"
  shows "kinv (booted main idle)"
proof -
  let ?k = "booted main idle"
  have ne: "idle \<noteq> main" using assms by simp
  have st: "status_of ?k = [main \<mapsto> THREAD_RUNNING, idle \<mapsto> THREAD_BLOCKED]"
    by (auto simp: booted_def status_of_def fun_eq_iff blank_def)
  have mem: "members ?k q = []" for q by (cases q) (auto simp: booted_def blank_def split: sema_id.split)
  have flds: "idle_thread ?k = idle" "running ?k = main" "frames ?k = (\<lambda>_. [])(idle := [Idle_hlt])" "holder ?k = (\<lambda>_. 0)"
    "intr_on ?k" "\<not> in_external_intr ?k" "sleep_list ?k = []"
    by (simp_all add: booted_def blank_def)
  have "kinv0 ?k"
  proof (rule kinv0I)
    show "queues_ok (members ?k) (status_of ?k) (idle_thread ?k) (running ?k)"
      unfolding flds st by (rule queues_okI) (use mem assms in \<open>auto split: if_splits\<close>)
    show "valid (threads ?k)" using assms by (auto simp: valid_def booted_def blank_def split: if_splits)
    show "stacks_ok (frames ?k) (status_of ?k) (idle_thread ?k) (running ?k)"
      unfolding flds st stacks_ok_def using ne by (auto simp: base.intros is_idle_stack_def)
    show "makers_ok (frames ?k) (members ?k) (status_of ?k) (idle_thread ?k)"
      unfolding flds makers_ok_def by auto
    show "waits_ok (frames ?k) (members ?k)" unfolding waits_ok_def mem by simp
    show "holders_ok (frames ?k) (holder ?k)" unfolding flds holders_ok_def by (auto simp: holder_ok_def)
    have "{t. claims l (((\<lambda>_. [])(idle := [Idle_hlt])) t)} = {}" for l by (auto simp: claims_def)
    then show "locks_ok (frames ?k) (holder ?k) (values_of ?k)"
      unfolding flds locks_ok_def lock_ok_def by (simp add: values_of_def booted_def blank_def)
    show "sleepers_ok ?k" using flds by (simp add: sleepers_ok_def)
  qed
  then show ?thesis using st flds ne by (simp add: kinv_def)
qed

lemma kreach_kinv: "kreach k \<Longrightarrow> kinv k"
proof (induction rule: kreach.induct)
  case (Boot main idle k)
  then show ?case using boot_runs booted_kinv by auto
next
  case (Step k k')
  then show ?case using kstep_kinv by blast
qed

lemma booted_kreach: "kreach (booted 1 2)"
  by (rule kreach.Boot [of 1 2]) (use boot_runs [of 1 2] in simp_all)


subsection \<open>What a step does to the ready list and to holders\<close>

definition appends :: "kernel \<Rightarrow> kernel \<Rightarrow> bool" where
  "appends k k' \<longleftrightarrow> holder k' = holder k \<and> running k' = running k \<and> idle_thread k' = idle_thread k
     \<and> (\<exists>zs. ready_list k' = ready_list k @ zs)"

definition switches :: "kernel \<Rightarrow> kernel \<Rightarrow> bool" where
  "switches k k' \<longleftrightarrow> holder k' = holder k \<and> (\<exists>zs. ready_list k @ zs = running k' # ready_list k'
     \<or> ready_list k @ zs = [] \<and> ready_list k' = [] \<and> running k' = idle_thread k)"

definition moves :: "kernel \<Rightarrow> kernel \<Rightarrow> bool" where
  "moves k k' \<longleftrightarrow> appends k k' \<or> switches k k'"

lemma appends_same [simp]:
  "holder k' = holder k \<Longrightarrow> running k' = running k \<Longrightarrow> idle_thread k' = idle_thread k \<Longrightarrow> ready_list k' = ready_list k \<Longrightarrow> appends k k'"
  by (simp add: appends_def)

lemma appends_trans: "appends k k1 \<Longrightarrow> appends k1 k2 \<Longrightarrow> appends k k2"
  by (auto simp: appends_def)

lemma appends_switches: "appends k k1 \<Longrightarrow> switches k1 k2 \<Longrightarrow> switches k k2"
  unfolding appends_def switches_def by (metis append.assoc append_is_Nil_conv)

lemma appends_moves: "appends k k1 \<Longrightarrow> moves k1 k2 \<Longrightarrow> moves k k2"
  unfolding moves_def using appends_trans appends_switches by blast

lemmas result_elims = c_assert_Inr rbind_eq_Inr

lemma schedule_switches: "schedule k = Inr k' \<Longrightarrow> switches k k'"
  by (cases "ready_list k")
    (auto simp: result_elims schedule_def next_thread_to_run_def thread_schedule_tail_def Let_def switches_def free_thread_def
      set_status_def upd_thread_def split: if_splits)

lemma block_switches: "thread_block k = Inr k' \<Longrightarrow> switches k k'"
proof -
  assume "thread_block k = Inr k'"
  then obtain c where "schedule (set_status c THREAD_BLOCKED k) = Inr k'" by (auto simp: thread_block_def result_elims)
  then show ?thesis using schedule_switches appends_switches [of k "set_status c THREAD_BLOCKED k"] by simp
qed

lemma intr_set_level_appends: "intr_set_level b k = Inr k' \<Longrightarrow> appends k k'"
  by (auto simp: intr_set_level_def intr_enable_def result_elims intr_disable_def split: if_splits)

lemma unblock_appends: "thread_unblock t k = Inr k' \<Longrightarrow> appends k k'"
  by (auto simp: thread_unblock_def Let_def intr_set_level_def intr_enable_def intr_disable_def result_elims
      set_status_def upd_thread_def appends_def split: if_splits)

lemma yield_switches: "thread_yield k = Inr k' \<Longrightarrow> switches k k'"
proof -
  assume "thread_yield k = Inr k'"
  then obtain c where "schedule (set_status c THREAD_READY (let k = intr_disable (push_frames [Set_level (intr_on k)] k)
      in if c \<noteq> idle_thread k then k\<lparr>ready_list := ready_list k @ [c]\<rparr> else k)) = Inr k'" (is "schedule ?k = _")
    by (auto simp: thread_yield_def Let_def result_elims)
  moreover have "appends k ?k" by (simp add: appends_def Let_def)
  ultimately show ?thesis using appends_switches schedule_switches by blast
qed

lemma exit_switches: "thread_exit k = Inr k' \<Longrightarrow> switches k k'"
proof -
  assume "thread_exit k = Inr k'"
  then obtain c where "schedule (set_status c THREAD_DYING ((intr_disable k)\<lparr>all_list := remove1 c (all_list k)\<rparr>)) = Inr k'"
    (is "schedule ?k = _") by (auto simp: thread_exit_def Let_def result_elims)
  moreover have "appends k ?k" by simp
  ultimately show ?thesis using appends_switches schedule_switches by blast
qed

lemma sema_loop_moves: "sema_loop s b k = Inr k' \<Longrightarrow> moves k k'"
proof (cases "sema_value (semas k s) = 0")
  case True
  assume "sema_loop s b k = Inr k'"
  with True obtain c where "thread_block (set_sema s 0 (waiters (semas k s) @ [c]) k) = Inr k'" (is "thread_block ?k = _")
    by (auto simp: sema_loop_def result_elims)
  then show ?thesis unfolding moves_def using appends_switches [OF _ block_switches, of k ?k] by simp
next
  case False
  assume "sema_loop s b k = Inr k'"
  with False have "intr_set_level b (pop_frame (set_sema s (sema_value (semas k s) - 1) (waiters (semas k s)) k)) = Inr k'"
    (is "intr_set_level b ?k = _") by (simp add: sema_loop_def Let_def)
  then show ?thesis unfolding moves_def using appends_trans [OF _ intr_set_level_appends, of k ?k] by simp
qed

lemma sema_down_moves: "sema_down s k = Inr k' \<Longrightarrow> moves k k'"
proof -
  assume "sema_down s k = Inr k'"
  then have "sema_loop s (intr_on k) (intr_disable (push_frames [Sema_loop s (intr_on k)] k)) = Inr k'" (is "sema_loop s _ ?k = _")
    by (simp add: sema_down_def result_elims)
  then show ?thesis using appends_moves [OF _ sema_loop_moves, of k ?k] by simp
qed

lemma sema_up_appends: "sema_up s k = Inr k' \<Longrightarrow> appends k k'"
proof -
  assume "sema_up s k = Inr k'"
  then obtain k1 where k1: "(case waiters (semas k s) of [] \<Rightarrow> Inr (intr_disable k)
      | t # ts \<Rightarrow> thread_unblock t (set_sema s (sema_value (semas (intr_disable k) s)) ts (intr_disable k))) = Inr k1"
    "intr_set_level (intr_on k) (set_sema s (sema_value (semas k1 s) + 1) (waiters (semas k1 s)) k1) = Inr k'"
    by (auto simp: sema_up_def Let_def result_elims)
  have "appends k k1"
  proof (cases "waiters (semas k s)")
    case (Cons t ts)
    let ?k = "set_sema s (sema_value (semas (intr_disable k) s)) ts (intr_disable k)"
    have "thread_unblock t ?k = Inr k1" using k1(1) Cons by simp
    then show ?thesis using appends_trans [OF _ unblock_appends, of k ?k] by simp
  qed (use k1 in auto)
  moreover have "appends k1 k'" using appends_trans [OF _ intr_set_level_appends [OF k1(2)], of k1] by simp
  ultimately show ?thesis by (rule appends_trans)
qed

lemma lock_acquire_moves: "lock_acquire l k = Inr k' \<Longrightarrow> moves k k'"
  using appends_moves [OF _ sema_down_moves, of k "push_frames [Set_holder l] k" "Lock_sema l" k']
  by (auto simp: lock_acquire_def lock_held_by_current_thread_def result_elims)

lemma cond_signal_appends:
  assumes "cond_signal c l k = Inr k'"
  shows "appends k k'"
proof (cases "cond_waiters k c")
  case (Cons t ts)
  let ?k = "k\<lparr>cond_waiters := (cond_waiters k)(c := ts)\<rparr>"
  have "sema_up (Waiter t) ?k = Inr k'" using assms Cons by (auto simp: cond_signal_def result_elims)
  then show ?thesis using appends_trans [OF _ sema_up_appends, of k ?k] by simp
qed (use assms in \<open>auto simp: cond_signal_def result_elims\<close>)

lemma unblock_loop_appends: "unblock_loop ts k = Inr k' \<Longrightarrow> appends k k'"
proof (induction ts arbitrary: k)
  case (Cons t ts)
  let ?k = "k\<lparr>blocked_threads := ts\<rparr>"
  obtain k1 where k1: "thread_unblock t ?k = Inr k1" "unblock_loop ts k1 = Inr k'" using Cons.prems by (auto simp: result_elims)
  have "appends k ?k" by simp
  with Cons.IH [OF k1(2)] unblock_appends [OF k1(1)] show ?case using appends_trans by blast
qed simp

lemma wakeup_loop_appends: "wakeup_loop now kept ts k = Inr k' \<Longrightarrow> appends k k'"
proof (induction now kept ts k rule: wakeup_loop.induct)
  case (2 now kept t ts k)
  show ?case
  proof (cases "now \<ge> wakeup_of k t")
    case True
    let ?k = "k\<lparr>sleep_list := kept @ ts\<rparr>"
    obtain k1 where k1: "thread_unblock t ?k = Inr k1" "wakeup_loop now kept ts k1 = Inr k'" using "2.prems" True by (auto simp: result_elims)
    have "appends k ?k" by simp
    with "2.IH"(1) [OF True k1(2)] unblock_appends [OF k1(1)] show ?thesis using appends_trans by blast
  next
    case False
    let ?k = "update_next_tick_to_wakeup (wakeup_of k t) k"
    have "appends k ?k" by (simp add: update_next_tick_to_wakeup_def)
    then show ?thesis using "2.IH"(2) [OF False] "2.prems" False appends_trans by auto
  qed
qed simp

lemma thread_tick_appends: "thread_tick k = Inr k' \<Longrightarrow> appends k k'"
proof (cases "thread_current k")
  case (Inr c)
  assume "thread_tick k = Inr k'"
  then show ?thesis using Inr
    by (cases "c = idle_thread k"; cases "TIME_SLICE \<le> thread_ticks k + 1")
      (auto simp: thread_tick_def Let_def intr_yield_on_return_def result_elims)
qed (simp add: thread_tick_def)

lemma timer_appends:
  assumes "timer_interrupt k = Inr k'"
  shows "appends k k'"
proof -
  obtain n k1 where k1: "thread_tick (k\<lparr>ticks := n\<rparr>) = Inr k1"
    "(if next_tick_to_wakeup k1 \<le> ticks k1 then thread_wakeup (ticks k1) k1 else Inr k1) = Inr k'"
    using assms by (auto simp: timer_interrupt_def result_elims)
  have "appends k k1" using appends_trans [OF _ thread_tick_appends [OF k1(1)], of k] by simp
  moreover have "appends k1 k'"
  proof (cases "next_tick_to_wakeup k1 \<le> ticks k1")
    case True
    then have "wakeup_loop (ticks k1) [] (sleep_list k1) (k1\<lparr>next_tick_to_wakeup := INT64_MAX\<rparr>) = Inr k'"
      using k1(2) by (simp add: thread_wakeup_def)
    from appends_trans [OF _ wakeup_loop_appends [OF this], of k1] show ?thesis by simp
  qed (use k1 in auto)
  ultimately show ?thesis by (rule appends_trans)
qed

lemma tick_moves:
  assumes "intr_handler timer_interrupt k = Inr k'"
  shows "moves k k'"
proof -
  let ?k = "(intr_disable (push_frames [Iret] k))\<lparr>in_external_intr := True, yield_on_return := False\<rparr>"
  obtain k1 where k1: "timer_interrupt ?k = Inr k1"
    "(if yield_on_return k1 then thread_yield (k1\<lparr>in_external_intr := False\<rparr>) else Inr (k1\<lparr>in_external_intr := False\<rparr>)) = Inr k'"
    using assms by (auto simp: intr_handler_def Let_def result_elims)
  let ?k1 = "k1\<lparr>in_external_intr := False\<rparr>"
  have "appends k ?k" "appends k1 ?k1" by simp_all
  then have a: "appends k ?k1" using timer_appends [OF k1(1)] appends_trans by blast
  show ?thesis
  proof (cases "yield_on_return k1")
    case True
    then have "thread_yield ?k1 = Inr k'" using k1(2) by simp
    then show ?thesis using a appends_switches yield_switches unfolding moves_def by blast
  next
    case False
    then show ?thesis using a k1(2) by (auto simp: moves_def)
  qed
qed


text \<open>The frames that change a holder are two: recording the holder, and giving it up.\<close>

definition takes :: "nat \<Rightarrow> kernel \<Rightarrow> kernel \<Rightarrow> bool" where
  "takes l k k' \<longleftrightarrow> holder k l = 0 \<and> holder k' = (holder k)(l := running k) \<and> running k' = running k \<and> ready_list k' = ready_list k"

definition gives :: "nat \<Rightarrow> kernel \<Rightarrow> kernel \<Rightarrow> bool" where
  "gives l k k' \<longleftrightarrow> holder k l = running k \<and> holder k' = (holder k)(l := 0) \<and> running k' = running k \<and> ready_list k' = ready_list k"

lemma lock_release_gives: "lock_release l k = Inr k' \<Longrightarrow> gives l k k'"
  by (auto simp: lock_release_def lock_held_by_current_thread_def thread_current_def result_elims gives_def)

lemma gives_pre: "gives l k1 k' \<Longrightarrow> holder k1 = holder k \<Longrightarrow> running k1 = running k \<Longrightarrow> ready_list k1 = ready_list k \<Longrightarrow> gives l k k'"
  by (simp add: gives_def)

lemma finish_create_appends:
  assumes "finish_create u k = Inr k'"
  shows "appends k k'"
proof -
  obtain k1 where "thread_unblock u k1 = Inr k'" "appends k k1"
    using assms by (auto simp: finish_create_def alloc_frame_def result_elims)
  then show ?thesis using unblock_appends appends_trans by blast
qed

lemma appends_pop: "appends (pop_frame k) k' \<Longrightarrow> appends k k'" "moves (pop_frame k) k' \<Longrightarrow> moves k k'"
  using appends_trans [of k "pop_frame k"] appends_moves [of k "pop_frame k"] by simp_all

lemma resume_moves:
  assumes k: "kinv k" and r: "resume k = Inr k'"
  shows "moves k k' \<or> (\<exists>l. takes l k k') \<or> (\<exists>l. gives l k k')"
proof (cases "frames k (running k)")
  case Nil
  then show ?thesis using r by (simp add: resume_def moves_def)
next
  case (Cons f fs)
  show ?thesis
  proof (cases f)
    case (Sema_loop s b)
    then show ?thesis using Cons r sema_loop_moves by (simp add: resume_def)
  next
    case (Set_level b)
    then show ?thesis using Cons r intr_set_level_appends [of b "pop_frame k" k'] appends_pop by (auto simp: resume_def moves_def)
  next
    case Iret
    then show ?thesis using Cons r by (auto simp: resume_def moves_def)
  next
    case (Set_holder l)
    have "claims l (frames k (running k))" using Cons Set_holder by (simp add: claims_Cons)
    then have "holder k l = 0" using claim_free [OF k] by simp
    then have "takes l k k'" using Cons Set_holder r current_pop [OF k] by (auto simp: resume_def set_holder_def takes_def)
    then show ?thesis by blast
  next
    case (Call_up s)
    then show ?thesis using Cons r sema_up_appends appends_pop by (auto simp: resume_def moves_def)
  next
    case (Call_down s)
    then show ?thesis using Cons r sema_down_moves appends_pop by (auto simp: resume_def)
  next
    case (Call_acquire l)
    then show ?thesis using Cons r lock_acquire_moves appends_pop by (auto simp: resume_def)
  next
    case (Call_release l)
    then have "gives l (pop_frame k) k'" using Cons r lock_release_gives by (simp add: resume_def)
    then show ?thesis using gives_pre [of l "pop_frame k" k' k] by auto
  next
    case (Next_tid u)
    then have "appends k k'" using Cons r by (auto simp: resume_def allocate_tid_def result_elims appends_def)
    then show ?thesis by (simp add: moves_def)
  next
    case (Finish_create u)
    then show ?thesis using Cons r finish_create_appends appends_pop by (auto simp: resume_def moves_def)
  next
    case (Broadcast c l)
    then show ?thesis using Cons r cond_signal_appends by (auto simp: resume_def broadcast_loop_def moves_def split: if_splits)
  next
    case Kernel_thread
    then show ?thesis using Cons r by (auto simp: resume_def intr_enable_def result_elims moves_def)
  next
    case (Idle_start s)
    then show ?thesis using running_stack(1) [OF k Cons] stack_base [of "running k" f fs] base_tops(14) by auto
  next
    case Idle_block
    let ?k = "intr_disable (push_frames [Idle_hlt] (pop_frame k))"
    have "thread_block ?k = Inr k'" using Cons Idle_block r by (simp add: resume_def idle_block_def)
    then show ?thesis using appends_switches [OF _ block_switches, of k ?k k'] by (simp add: moves_def)
  next
    case Idle_hlt
    then show ?thesis using Cons r by (auto simp: resume_def idle_hlt_def moves_def)
  qed
qed

lemma call_moves:
  assumes r: "do_call c k = Inr k'"
  shows "moves k k' \<or> (\<exists>l. gives l k k')"
proof (cases c)
  case (Create page nm prio)
  then show ?thesis using r
    by (cases page) (auto simp: thread_create_def init_thread_def Let_def intr_set_level_def intr_enable_def intr_disable_def
        push_frames_def result_elims moves_def split: if_splits)
next
  case Yield
  then show ?thesis using r yield_switches by (simp add: moves_def)
next
  case Exit
  then show ?thesis using r exit_switches by (simp add: moves_def)
next
  case (Down n)
  then show ?thesis using r sema_down_moves by simp
next
  case (Up n)
  then show ?thesis using r sema_up_appends by (simp add: moves_def)
next
  case (Try_down n)
  then show ?thesis using r
    by (auto simp: sema_try_down_def Let_def intr_set_level_def intr_enable_def intr_disable_def result_elims moves_def set_sema_def split: if_splits)
next
  case (Acquire l)
  then show ?thesis using r lock_acquire_moves by simp
next
  case (Try_acquire l)
  then show ?thesis using r
    by (auto simp: lock_try_acquire_def sema_try_down_def Let_def intr_set_level_def intr_enable_def intr_disable_def
        result_elims moves_def set_sema_def push_frames_def split: if_splits)
next
  case (Release l)
  then show ?thesis using r lock_release_gives by auto
next
  case (Wait d l)
  then obtain k1 where "lock_release l k1 = Inr k'" "holder k1 = holder k" "running k1 = running k" "ready_list k1 = ready_list k"
    using r by (auto simp: cond_wait_def Let_def result_elims sema_init_def)
  then show ?thesis using lock_release_gives gives_pre by blast
next
  case (Signal d l)
  then show ?thesis using r cond_signal_appends by (simp add: moves_def)
next
  case (Broadcast_all d l)
  then show ?thesis using r by (auto simp: cond_broadcast_def moves_def)
next
  case (Sleep n)
  then obtain tick where t: "thread_sleep tick k = Inr k'" using r by (auto simp: timer_sleep_def result_elims)
  then obtain c where c: "thread_block (push_frames [Set_level (intr_on k)] ((update_next_tick_to_wakeup tick (upd_thread c (\<lambda>th. th\<lparr>wakeup_tick := tick\<rparr>) (intr_disable k)))\<lparr>sleep_list := sleep_list k @ [c]\<rparr>)) = Inr k'"
    (is "thread_block ?k = _")
    by (auto simp: thread_sleep_def Let_def result_elims update_next_tick_to_wakeup_def)
  have "appends k ?k" by (simp add: update_next_tick_to_wakeup_def)
  then show ?thesis using appends_switches [OF _ block_switches [OF c]] by (simp add: moves_def)
next
  case Block
  then obtain c where c: "thread_block (push_frames [Set_level (intr_on k)] ((intr_disable k)\<lparr>blocked_threads := blocked_threads k @ [c]\<rparr>)) = Inr k'"
    (is "thread_block ?k = _") using r by (auto simp: block_thread_def Let_def result_elims)
  then show ?thesis using appends_switches [OF _ block_switches [OF c], of k] by (simp add: moves_def)
next
  case Unblock
  then obtain k1 where k1: "unblock_loop (blocked_threads k) (intr_disable k) = Inr k1" "intr_set_level (intr_on k) k1 = Inr k'"
    using r by (auto simp: unblock_threads_def Let_def result_elims)
  have "appends k (intr_disable k)" by simp
  then have "appends k k'" using unblock_loop_appends [OF k1(1)] intr_set_level_appends [OF k1(2)] appends_trans by blast
  then show ?thesis by (simp add: moves_def)
next
  case (Set_priority p)
  then show ?thesis using r by (auto simp: thread_set_priority_def result_elims moves_def)
qed

lemma kstep_moves:
  assumes "kinv k" "kstep k k'"
  shows "moves k k' \<or> (\<exists>l. takes l k k') \<or> (\<exists>l. gives l k k')"
  using assms(2)
proof cases
  case Run
  then show ?thesis using resume_moves [OF assms(1)] by blast
next
  case Tick
  then show ?thesis using tick_moves by blast
next
  case (Call c)
  then show ?thesis using call_moves by blast
qed



lemma handler_entry_kinv0:
  assumes k: "kinv k" and io: "intr_on k"
  shows "kinv0 ((intr_disable (push_frames [Iret] k))\<lparr>in_external_intr := True, yield_on_return := False\<rparr>)" (is "kinv0 ?e")
proof -
  let ?k = "intr_disable (push_frames [Iret] k)"
  have "kinv ?k" by (rule handler_entry [OF k io])
  then show ?thesis using kinv0_cong [of ?e ?k] kinvD(1) by simp
qed

lemma schedule_sleepers: "schedule k = Inr k' \<Longrightarrow> sleep_list k' = sleep_list k \<and> ticks k' = ticks k"
  by (cases "ready_list k")
    (auto simp: result_elims schedule_def next_thread_to_run_def thread_schedule_tail_def Let_def free_thread_def
      set_status_def upd_thread_def split: if_splits)

lemma yield_sleepers: "thread_yield k = Inr k' \<Longrightarrow> sleep_list k' = sleep_list k \<and> ticks k' = ticks k"
proof -
  assume "thread_yield k = Inr k'"
  then obtain c where "schedule (set_status c THREAD_READY (let k = intr_disable (push_frames [Set_level (intr_on k)] k)
      in if c \<noteq> idle_thread k then k\<lparr>ready_list := ready_list k @ [c]\<rparr> else k)) = Inr k'"
    by (auto simp: thread_yield_def Let_def result_elims)
  from schedule_sleepers [OF this] show ?thesis by (simp add: Let_def split: if_splits)
qed


subsection \<open>Properties\<close>



text \<open>C2. No assertion of the thread system ever fails: in a reachable state the rest of a kernel call, the
  timer interrupt and every call whose documented precondition holds either run to the next state or
  overflow one of the two counters (ticks, thread identifiers).\<close>

theorem threads_never_panic:
  assumes "kreach k"
  shows "(\<forall>e. resume k = Inl e \<longrightarrow> e = Signed_overflow)
    \<and> (intr_on k \<longrightarrow> (\<forall>e. intr_handler timer_interrupt k = Inl e \<longrightarrow> e = Signed_overflow))
    \<and> (frames k (running k) = [] \<longrightarrow> (\<forall>c e. allowed c k \<longrightarrow> do_call c k = Inl e \<longrightarrow> e = Signed_overflow))"
  using resume_keeps [OF kreach_kinv [OF assms]] tick_keeps [OF kreach_kinv [OF assms]] call_keeps [OF kreach_kinv [OF assms]]
  by (metis keeps_simps(2))

theorem threads_never_panic_witness:
  "\<exists>k. kreach k \<and> k = booted 1 2 \<and> frames k (running k) = [] \<and> allowed (Acquire 5) k
    \<and> (\<forall>e. do_call (Acquire 5) k = Inl e \<longrightarrow> e = Signed_overflow)"
proof -
  have r: "kreach (booted 1 2)" by (rule booted_kreach)
  have a: "frames (booted 1 2) (running (booted 1 2)) = []" "allowed (Acquire 5) (booted 1 2)"
    by (simp_all add: booted_def blank_def tid_lock_def)
  have "\<forall>e. do_call (Acquire 5) (booted 1 2) = Inl e \<longrightarrow> e = Signed_overflow"
    using threads_never_panic [OF r] a by blast
  with r a show ?thesis by blast
qed

text \<open>C4. Locks exclude each other: whatever step is taken, the holder of a lock changes only from nobody to
  the running thread, or from the running thread to nobody. No thread ever becomes the holder of a lock
  that another thread holds, although the semaphore is taken and the holder recorded in separate,
  preemptible steps.\<close>

theorem lock_excludes:
  assumes "kreach k" "kstep k k'" "holder k' l \<noteq> holder k l"
  shows "(holder k l = 0 \<and> holder k' l = running k) \<or> (holder k l = running k \<and> holder k' l = 0)"
proof -
  consider "moves k k'" | m where "takes m k k'" | m where "gives m k k'"
    using kstep_moves [OF kreach_kinv [OF assms(1)] assms(2)] by blast
  then show ?thesis
  proof cases
    case 1
    then show ?thesis using assms(3) by (auto simp: moves_def appends_def switches_def)
  next
    case 2
    then show ?thesis using assms(3) by (auto simp: takes_def split: if_splits)
  next
    case 3
    then show ?thesis using assms(3) by (auto simp: gives_def split: if_splits)
  qed
qed

text \<open>C19. Scheduling is first come, first served: a step leaves the ready list in order, possibly with threads
  added at the end, and another thread only comes to run by being taken from its front, or is the
  idle thread when the list is empty. So no ready thread is ever overtaken.\<close>

theorem ready_list_fifo:
  assumes "kreach k" "kstep k k'"
  shows "\<exists>zs. (running k' = running k \<and> ready_list k' = ready_list k @ zs)
    \<or> ready_list k @ zs = running k' # ready_list k'
    \<or> (ready_list k @ zs = [] \<and> ready_list k' = [] \<and> running k' = idle_thread k)"
  using kstep_moves [OF kreach_kinv [OF assms(1)] assms(2)]
  by (auto simp: moves_def appends_def switches_def takes_def gives_def)


text \<open>\<^verbatim>\<open>unblock_threads\<close>, called by the central control thread, makes every thread blocked in \<^verbatim>\<open>block_thread\<close>
  ready, in the order in which they blocked, and empties the list; it does not switch threads.\<close>

theorem unblock_threads_wakes_all:
  assumes "kreach k"
  shows "\<exists>k'. Threads.unblock_threads k = Inr k' \<and> blocked_threads k' = [] \<and> running k' = running k
    \<and> ready_list k' = ready_list k @ blocked_threads k
    \<and> (\<forall>t \<in> set (blocked_threads k). status_of k' t = Some THREAD_READY)"
proof -
  obtain k' where k': "Threads.unblock_threads k = Inr k'" "kinv k'" "same_but_queues k k'" "blocked_threads k' = []"
    "ready_list k' = ready_list k @ blocked_threads k" using unblock_threads_ok [OF kreach_kinv [OF assms]] by blast
  have "status_of k' t = Some THREAD_READY" if "t \<in> set (blocked_threads k)" for t
    using queues_okD(4) [OF kinv0D(1) [OF kinvD(1) [OF k'(2)]], of t Q_ready] that k'(5) by (simp add: in_queue_status_def)
  then show ?thesis using k' by (auto simp: same_but_queues_def)
qed

theorem unblock_threads_wakes_all_witness:
  "\<exists>k'. Threads.unblock_threads (booted 1 2) = Inr k' \<and> blocked_threads k' = [] \<and> running k' = running (booted 1 2)
    \<and> ready_list k' = ready_list (booted 1 2) @ blocked_threads (booted 1 2)
    \<and> (\<forall>t \<in> set (blocked_threads (booted 1 2)). status_of k' t = Some THREAD_READY)"
  by (rule unblock_threads_wakes_all [OF booted_kreach])

text \<open>Two short runs: the main thread takes a lock, and the main thread sleeps for one tick.\<close>

lemma lock_run:
  "\<exists>k k'. kreach k \<and> kstep k k' \<and> holder k 5 = 0 \<and> holder k' 5 = 1 \<and> running k = 1 \<and> ready_list k = []"
proof -
  obtain k where k: "do_call (Acquire 5) (booted 1 2) = Inr k" "frames k (running k) = [Set_holder 5]" "holder k 5 = 0" "running k = 1"
    "thread_current k = Inr 1" "ready_list k = []"
    by (simp add: boot_defs booted_def blank_def)
  have r: "kreach k"
    by (rule kreach.Step [OF booted_kreach kstep.Call [of _ "Acquire 5"]])
      (use k(1) in \<open>simp_all add: booted_def blank_def tid_lock_def\<close>)
  have cur: "thread_current (pop_frame k) = Inr 1" using k(5) by (simp add: thread_current_def is_thread_def)
  then have "resume k = Inr ((pop_frame k)\<lparr>holder := (holder k)(5 := 1)\<rparr>)" using k(2) by (simp add: resume_def set_holder_def)
  then have "kstep k ((pop_frame k)\<lparr>holder := (holder k)(5 := 1)\<rparr>)" using k(2) by (intro kstep.Run) simp_all
  then show ?thesis using r k by (intro exI [of _ k] exI [of _ "(pop_frame k)\<lparr>holder := (holder k)(5 := 1)\<rparr>"]) simp
qed

theorem lock_excludes_witness:
  "\<exists>k k'. kreach k \<and> kstep k k' \<and> holder k' 5 \<noteq> holder k 5
    \<and> ((holder k 5 = 0 \<and> holder k' 5 = running k) \<or> (holder k 5 = running k \<and> holder k' 5 = 0))"
proof -
  obtain k k' where "kreach k" "kstep k k'" "holder k' 5 \<noteq> holder k 5" using lock_run by force
  with lock_excludes [of k k' 5] show ?thesis by blast
qed

theorem ready_list_fifo_witness:
  "\<exists>k k'. kreach k \<and> kstep k k' \<and> (\<exists>zs. (running k' = running k \<and> ready_list k' = ready_list k @ zs)
    \<or> ready_list k @ zs = running k' # ready_list k' \<or> (ready_list k @ zs = [] \<and> ready_list k' = [] \<and> running k' = idle_thread k))"
proof -
  obtain k k' where "kreach k" "kstep k k'" using lock_run by blast
  with ready_list_fifo [of k k'] show ?thesis by blast
qed

lemma sleep_run:
  "\<exists>k k'. kreach k \<and> intr_on k \<and> intr_handler timer_interrupt k = Inr k' \<and> sleep_list k = [1] \<and> wakeup_of k 1 = 1 \<and> ticks k = 0"
proof -
  have "\<exists>k k'. do_call (Sleep 1) (booted 1 2) = Inr k \<and> frames k (running k) = [Idle_hlt] \<and> sleep_list k = [1]
      \<and> wakeup_of k 1 = 1 \<and> ticks k = 0 \<and> intr_handler timer_interrupt (idle_hlt k) = Inr k'"
    by (simp add: boot_defs booted_def blank_def timer_sleep_def c_int64_def thread_sleep_def update_next_tick_to_wakeup_def
        wakeup_of_def INT64_MAX_def idle_hlt_def intr_handler_def timer_interrupt_def thread_tick_def thread_wakeup_def TIME_SLICE_def word_le_nat_alt)
  then obtain k k' where k: "do_call (Sleep 1) (booted 1 2) = Inr k" "frames k (running k) = [Idle_hlt]" "sleep_list k = [1]"
    "wakeup_of k 1 = 1" "ticks k = 0" "intr_handler timer_interrupt (idle_hlt k) = Inr k'" by blast
  have "kreach k"
    by (rule kreach.Step [OF booted_kreach kstep.Call [of _ "Sleep 1"]]) (use k(1) in \<open>simp_all add: booted_def blank_def\<close>)
  moreover have "kstep k (idle_hlt k)" using k(2) by (intro kstep.Run) (simp_all add: resume_def)
  ultimately have "kreach (idle_hlt k)" by (rule kreach.Step)
  then show ?thesis using k by (intro exI [of _ "idle_hlt k"] exI [of _ k']) (simp add: idle_hlt_def)
qed


end
