(* ===== verification/Bitmap.thy ===== *)
theory Bitmap
  imports Prelude
begin

unbundle bit_operations_syntax

text \<open>
  The bitmaps of \<^verbatim>\<open>lib/kernel/bitmap.c\<close>: an array of 32-bit elements read as an array of bits, and the
  search for a run of bits on which the page allocator and the free map build. A bitmap is the value
  of its structure; the assertions that a pointer is not null have no counterpart. Indexes are
  \<^verbatim>\<open>size_t\<close> values and their sums wrap around at 32 bits.
\<close>

subsection \<open>Elements\<close>

definition ELEM_BITS :: nat where
  "ELEM_BITS = 32"

record bitmap =
  bit_cnt :: nat
  bits :: "32 word list"

definition DIV_ROUND_UP :: "nat \<Rightarrow> nat \<Rightarrow> nat" where
  "DIV_ROUND_UP X STEP = size_t (X + STEP - 1) div STEP"

definition elem_idx :: "nat \<Rightarrow> nat" where
  "elem_idx bit_idx = bit_idx div ELEM_BITS"

definition bit_mask :: "nat \<Rightarrow> 32 word" where
  "bit_mask bit_idx = push_bit (bit_idx mod ELEM_BITS) 1"

definition elem_cnt :: "nat \<Rightarrow> nat" where
  "elem_cnt n = DIV_ROUND_UP n ELEM_BITS"

definition byte_cnt :: "nat \<Rightarrow> nat" where
  "byte_cnt n = size_t (4 * elem_cnt n)"

definition last_mask :: "bitmap \<Rightarrow> 32 word" where
  "last_mask b = (let last_bits = bit_cnt b mod ELEM_BITS in
     if last_bits \<noteq> 0 then push_bit last_bits 1 - 1 else - 1)"

definition BITMAP_ERROR :: nat where
  "BITMAP_ERROR = 2 ^ 32 - 1"


subsection \<open>Single bits\<close>

definition bitmap_size :: "bitmap \<Rightarrow> nat" where
  "bitmap_size b = bit_cnt b"

definition upd_elem :: "nat \<Rightarrow> (32 word \<Rightarrow> 32 word) \<Rightarrow> bitmap \<Rightarrow> bitmap result" where
  "upd_elem idx f b =
     (if idx < length (bits b) then Inr (b\<lparr>bits := (bits b)[idx := f (bits b ! idx)]\<rparr>) else Inl Out_of_bounds)"

definition bitmap_mark :: "bitmap \<Rightarrow> nat \<Rightarrow> bitmap result" where
  "bitmap_mark b bit_idx = upd_elem (elem_idx bit_idx) (\<lambda>e. e OR bit_mask bit_idx) b"

definition bitmap_reset :: "bitmap \<Rightarrow> nat \<Rightarrow> bitmap result" where
  "bitmap_reset b bit_idx = upd_elem (elem_idx bit_idx) (\<lambda>e. e AND NOT (bit_mask bit_idx)) b"

definition bitmap_flip :: "bitmap \<Rightarrow> nat \<Rightarrow> bitmap result" where
  "bitmap_flip b bit_idx = upd_elem (elem_idx bit_idx) (\<lambda>e. e XOR bit_mask bit_idx) b"

definition bitmap_set :: "bitmap \<Rightarrow> nat \<Rightarrow> bool \<Rightarrow> bitmap result" where
  "bitmap_set b idx value = c_assert (idx < bit_cnt b)
     (if value then bitmap_mark b idx else bitmap_reset b idx)"

definition bitmap_test :: "bitmap \<Rightarrow> nat \<Rightarrow> bool result" where
  "bitmap_test b idx = c_assert (idx < bit_cnt b)
     (if elem_idx idx < length (bits b) then Inr (bits b ! elem_idx idx AND bit_mask idx \<noteq> 0) else Inl Out_of_bounds)"


subsection \<open>Ranges of bits\<close>

definition in_range :: "bitmap \<Rightarrow> nat \<Rightarrow> nat \<Rightarrow> bool" where
  "in_range b start cnt \<longleftrightarrow> start \<le> bit_cnt b \<and> size_t (start + cnt) \<le> bit_cnt b"

definition bitmap_set_multiple :: "bitmap \<Rightarrow> nat \<Rightarrow> nat \<Rightarrow> bool \<Rightarrow> bitmap result" where
  "bitmap_set_multiple b start cnt value = c_assert (in_range b start cnt)
     (rfold (\<lambda>i b. bitmap_set b (size_t (start + i)) value) [0..<cnt] b)"

definition bitmap_set_all :: "bitmap \<Rightarrow> bool \<Rightarrow> bitmap result" where
  "bitmap_set_all b value = bitmap_set_multiple b 0 (bitmap_size b) value"

definition bitmap_count :: "bitmap \<Rightarrow> nat \<Rightarrow> nat \<Rightarrow> bool \<Rightarrow> nat result" where
  "bitmap_count b start cnt value = c_assert (in_range b start cnt)
     (rfold (\<lambda>i value_cnt. rbind (bitmap_test b (size_t (start + i))) (\<lambda>v.
        Inr (if v = value then value_cnt + 1 else value_cnt))) [0..<cnt] 0)"

fun contains_loop :: "bitmap \<Rightarrow> nat \<Rightarrow> bool \<Rightarrow> nat list \<Rightarrow> bool result" where
  "contains_loop b start value [] = Inr False"
| "contains_loop b start value (i # is) = rbind (bitmap_test b (size_t (start + i))) (\<lambda>v.
     if v = value then Inr True else contains_loop b start value is)"

definition bitmap_contains :: "bitmap \<Rightarrow> nat \<Rightarrow> nat \<Rightarrow> bool \<Rightarrow> bool result" where
  "bitmap_contains b start cnt value = c_assert (in_range b start cnt) (contains_loop b start value [0..<cnt])"

definition bitmap_any :: "bitmap \<Rightarrow> nat \<Rightarrow> nat \<Rightarrow> bool result" where
  "bitmap_any b start cnt = bitmap_contains b start cnt True"

definition bitmap_none :: "bitmap \<Rightarrow> nat \<Rightarrow> nat \<Rightarrow> bool result" where
  "bitmap_none b start cnt = rbind (bitmap_contains b start cnt True) (\<lambda>r. Inr (\<not> r))"

definition bitmap_all :: "bitmap \<Rightarrow> nat \<Rightarrow> nat \<Rightarrow> bool result" where
  "bitmap_all b start cnt = rbind (bitmap_contains b start cnt False) (\<lambda>r. Inr (\<not> r))"


subsection \<open>Searching\<close>

fun scan_loop :: "bitmap \<Rightarrow> nat \<Rightarrow> bool \<Rightarrow> nat list \<Rightarrow> nat result" where
  "scan_loop b cnt value [] = Inr BITMAP_ERROR"
| "scan_loop b cnt value (i # is) = rbind (bitmap_contains b i cnt (\<not> value)) (\<lambda>r.
     if \<not> r then Inr i else scan_loop b cnt value is)"

definition bitmap_scan :: "bitmap \<Rightarrow> nat \<Rightarrow> nat \<Rightarrow> bool \<Rightarrow> nat result" where
  "bitmap_scan b start cnt value = c_assert (start \<le> bit_cnt b)
     (if cnt \<le> bit_cnt b then scan_loop b cnt value [start..<Suc (bit_cnt b - cnt)] else Inr BITMAP_ERROR)"

definition bitmap_scan_and_flip :: "bitmap \<Rightarrow> nat \<Rightarrow> nat \<Rightarrow> bool \<Rightarrow> (nat \<times> bitmap) result" where
  "bitmap_scan_and_flip b start cnt value = rbind (bitmap_scan b start cnt value) (\<lambda>idx.
     if idx \<noteq> BITMAP_ERROR then rbind (bitmap_set_multiple b idx cnt (\<not> value)) (\<lambda>b. Inr (idx, b))
     else Inr (idx, b))"


subsection \<open>Creation\<close>

text \<open>\<open>room\<close> says whether the allocation of the structure succeeded; \<open>block\<close> is what \<^verbatim>\<open>malloc\<close> returned for
  the elements, with whatever they contain.\<close>

definition bitmap_buf_size :: "nat \<Rightarrow> nat" where
  "bitmap_buf_size n = size_t (8 + byte_cnt n)"

definition bitmap_create :: "bool \<Rightarrow> 32 word list option \<Rightarrow> nat \<Rightarrow> bitmap option result" where
  "bitmap_create room block n =
     (if room \<and> (block \<noteq> None \<or> n = 0) then
        rbind (bitmap_set_all \<lparr>bit_cnt = n, bits = (case block of None \<Rightarrow> [] | Some es \<Rightarrow> es)\<rparr> False) (\<lambda>b. Inr (Some b))
      else Inr None)"

definition bitmap_create_in_buf :: "nat \<Rightarrow> 32 word list \<Rightarrow> nat \<Rightarrow> bitmap result" where
  "bitmap_create_in_buf n block block_size = c_assert (block_size \<ge> bitmap_buf_size n)
     (bitmap_set_all \<lparr>bit_cnt = n, bits = block\<rparr> False)"


subsection \<open>A bitmap is an array of bits\<close>

definition bit_at :: "bitmap \<Rightarrow> nat \<Rightarrow> bool" where
  "bit_at b i = bit (bits b ! (i div 32)) (i mod 32)"

definition bits_of :: "bitmap \<Rightarrow> bool list" where
  "bits_of b = map (bit_at b) [0..<bit_cnt b]"

definition bitmap_ok :: "bitmap \<Rightarrow> bool" where
  "bitmap_ok b \<longleftrightarrow> bit_cnt b \<le> 32 * length (bits b) \<and> bit_cnt b < 2 ^ 32"

lemma length_bits_of [simp]: "length (bits_of b) = bit_cnt b"
  by (simp add: bits_of_def)

lemma nth_bits_of [simp]: "i < bit_cnt b \<Longrightarrow> bits_of b ! i = bit_at b i"
  by (simp add: bits_of_def)

lemma elem_idx_in: "bitmap_ok b \<Longrightarrow> i < bit_cnt b \<Longrightarrow> elem_idx i < length (bits b)"
  by (auto simp: bitmap_ok_def elem_idx_def ELEM_BITS_def intro!: less_mult_imp_div_less)

lemma bit_bit_mask: "n < 32 \<Longrightarrow> bit (bit_mask i) n \<longleftrightarrow> n = i mod 32"
  by (auto simp: bit_mask_def ELEM_BITS_def bit_simps)

lemma and_bit_mask: "(w AND bit_mask i \<noteq> 0) = bit w (i mod 32)"
proof
  assume "w AND bit_mask i \<noteq> 0"
  then obtain n where "n < LENGTH(32)" "bit (w AND bit_mask i) n" by (metis bit_word_eqI bit_0_eq bot_apply bot_bool_def)
  then show "bit w (i mod 32)" by (auto simp: bit_and_iff bit_bit_mask)
next
  assume "bit w (i mod 32)"
  then have "bit (w AND bit_mask i) (i mod 32)" by (simp add: bit_and_iff bit_bit_mask)
  then show "w AND bit_mask i \<noteq> 0" by force
qed

lemma bitmap_test_ok:
  "bitmap_ok b \<Longrightarrow> i < bit_cnt b \<Longrightarrow> bitmap_test b i = Inr (bits_of b ! i)"
  using elem_idx_in [of b i] by (simp add: bitmap_test_def and_bit_mask bit_at_def elem_idx_def ELEM_BITS_def)

text \<open>Replacing one bit of one element.\<close>

lemma upd_elem_bit:
  assumes ok: "bitmap_ok b" and i: "i < bit_cnt b"
    and f: "\<And>n. n < 32 \<Longrightarrow> bit (f (bits b ! elem_idx i)) n = (if n = i mod 32 then v else bit (bits b ! elem_idx i) n)"
  shows "\<exists>b'. upd_elem (elem_idx i) f b = Inr b' \<and> bitmap_ok b' \<and> bit_cnt b' = bit_cnt b \<and> bits_of b' = (bits_of b)[i := v]"
proof -
  let ?b = "b\<lparr>bits := (bits b)[elem_idx i := f (bits b ! elem_idx i)]\<rparr>"
  note l = elem_idx_in [OF ok i]
  have "bit_at ?b j = (if j = i then v else bit_at b j)" for j
  proof (cases "j div 32 = i div 32")
    case True
    then have "j = i \<longleftrightarrow> j mod 32 = i mod 32" by (metis div_mult_mod_eq)
    then show ?thesis using True l f [of "j mod 32"] by (auto simp: bit_at_def elem_idx_def ELEM_BITS_def)
  next
    case False
    then show ?thesis by (auto simp: bit_at_def elem_idx_def ELEM_BITS_def)
  qed
  then have "bits_of ?b = (bits_of b)[i := v]"
    by (intro nth_equalityI) (auto simp: nth_list_update)
  then show ?thesis using ok l by (simp add: upd_elem_def bitmap_ok_def)
qed

lemma bitmap_set_ok:
  assumes "bitmap_ok b" "i < bit_cnt b"
  shows "\<exists>b'. bitmap_set b i v = Inr b' \<and> bitmap_ok b' \<and> bit_cnt b' = bit_cnt b \<and> bits_of b' = (bits_of b)[i := v]"
  using upd_elem_bit [OF assms, of _ v] assms(2)
  by (cases v) (auto simp: bitmap_set_def bitmap_mark_def bitmap_reset_def bit_or_iff bit_and_iff bit_not_iff bit_bit_mask)

lemma bitmap_flip_ok:
  assumes "bitmap_ok b" "i < bit_cnt b"
  shows "\<exists>b'. bitmap_flip b i = Inr b' \<and> bitmap_ok b' \<and> bit_cnt b' = bit_cnt b \<and> bits_of b' = (bits_of b)[i := \<not> bits_of b ! i]"
  using upd_elem_bit [OF assms, of "\<lambda>e. e XOR bit_mask i" "\<not> bits_of b ! i"] assms(2)
  by (auto simp: bitmap_flip_def bit_xor_iff bit_bit_mask bit_at_def elem_idx_def ELEM_BITS_def)

text \<open>A range within the bitmap: no sum of indexes wraps.\<close>

lemma in_range_ok: "bitmap_ok b \<Longrightarrow> start + cnt \<le> bit_cnt b \<Longrightarrow> in_range b start cnt \<and> (\<forall>i\<le>cnt. size_t (start + i) = start + i)"
  by (auto simp: in_range_def bitmap_ok_def)

lemma set_loop_ok:
  assumes "bitmap_ok b" "start + cnt \<le> bit_cnt b"
  shows "\<exists>b'. rfold (\<lambda>i b. bitmap_set b (size_t (start + i)) v) [0..<cnt] b = Inr b' \<and> bitmap_ok b' \<and> bit_cnt b' = bit_cnt b
    \<and> bits_of b' = take start (bits_of b) @ replicate cnt v @ drop (start + cnt) (bits_of b)"
  using assms
proof (induction cnt)
  case 0
  then show ?case by simp
next
  case (Suc cnt)
  then obtain b1 where b1: "rfold (\<lambda>i b. bitmap_set b (size_t (start + i)) v) [0..<cnt] b = Inr b1" "bitmap_ok b1"
    "bit_cnt b1 = bit_cnt b" "bits_of b1 = take start (bits_of b) @ replicate cnt v @ drop (start + cnt) (bits_of b)" by auto
  obtain b2 where b2: "bitmap_set b1 (start + cnt) v = Inr b2" "bitmap_ok b2" "bit_cnt b2 = bit_cnt b1"
    "bits_of b2 = (bits_of b1)[start + cnt := v]"
    using bitmap_set_ok [OF b1(2), of "start + cnt" v] Suc.prems b1(3) by auto
  have "drop (start + cnt) (bits_of b) = bits_of b ! (start + cnt) # drop (Suc (start + cnt)) (bits_of b)"
    using Suc.prems by (intro Cons_nth_drop_Suc [symmetric]) simp
  then have "bits_of b2 = take start (bits_of b) @ replicate (Suc cnt) v @ drop (start + Suc cnt) (bits_of b)"
    using Suc.prems by (simp add: b2(4) b1(4) list_update_append replicate_append_same [symmetric])
  then show ?case
    using b1 b2 Suc.prems by (simp add: rfold_append size_t_id bitmap_ok_def)
qed

lemma bitmap_set_multiple_ok:
  assumes "bitmap_ok b" "start + cnt \<le> bit_cnt b"
  shows "\<exists>b'. bitmap_set_multiple b start cnt v = Inr b' \<and> bitmap_ok b' \<and> bit_cnt b' = bit_cnt b
    \<and> bits_of b' = take start (bits_of b) @ replicate cnt v @ drop (start + cnt) (bits_of b)"
  using set_loop_ok [OF assms, of v] in_range_ok [OF assms] by (simp add: bitmap_set_multiple_def)

lemma bitmap_set_all_ok:
  "bitmap_ok b \<Longrightarrow> \<exists>b'. bitmap_set_all b v = Inr b' \<and> bitmap_ok b' \<and> bit_cnt b' = bit_cnt b \<and> bits_of b' = replicate (bit_cnt b) v"
  using bitmap_set_multiple_ok [of b 0 "bit_cnt b" v] by (simp add: bitmap_set_all_def bitmap_size_def)

lemma contains_loop_ok:
  assumes "bitmap_ok b" "\<forall>i \<in> set is. start + i < bit_cnt b"
  shows "contains_loop b start v is = Inr (\<exists>i \<in> set is. bits_of b ! (start + i) = v)"
  using assms by (induction "is") (auto simp: bitmap_test_ok bitmap_ok_def)

definition run_at :: "bitmap \<Rightarrow> nat \<Rightarrow> bool \<Rightarrow> nat \<Rightarrow> bool" where
  "run_at b cnt v i \<longleftrightarrow> i + cnt \<le> bit_cnt b \<and> (\<forall>j<cnt. bits_of b ! (i + j) = v)"

lemma bitmap_contains_ok:
  assumes "bitmap_ok b" "start + cnt \<le> bit_cnt b"
  shows "bitmap_contains b start cnt v = Inr (\<exists>j<cnt. bits_of b ! (start + j) = v)"
proof -
  have "contains_loop b start v [0..<cnt] = Inr (\<exists>i \<in> set [0..<cnt]. bits_of b ! (start + i) = v)"
    using assms by (intro contains_loop_ok) auto
  then show ?thesis using in_range_ok [OF assms] by (simp add: bitmap_contains_def) (meson atLeastLessThan_iff le0)
qed

lemma bitmap_count_ok:
  assumes "bitmap_ok b" "start + cnt \<le> bit_cnt b"
  shows "bitmap_count b start cnt v = Inr (card {j. j < cnt \<and> bits_of b ! (start + j) = v})"
proof -
  let ?f = "\<lambda>i c. rbind (bitmap_test b (size_t (start + i))) (\<lambda>w. Inr (if w = v then c + 1 else c))"
  have "rfold ?f [0..<n] 0 = Inr (card {j. j < n \<and> bits_of b ! (start + j) = v})" if "n \<le> cnt" for n
    using that
  proof (induction n)
    case (Suc n)
    have "{j. j < Suc n \<and> bits_of b ! (start + j) = v} =
        (if bits_of b ! (start + n) = v then insert n {j. j < n \<and> bits_of b ! (start + j) = v}
         else {j. j < n \<and> bits_of b ! (start + j) = v})"
      by (auto simp: less_Suc_eq)
    then show ?case
      using Suc assms in_range_ok [OF assms] by (auto simp: rfold_append bitmap_test_ok)
  qed simp
  then show ?thesis using in_range_ok [OF assms] by (simp add: bitmap_count_def)
qed

text \<open>The search returns the first run.\<close>

lemma scan_loop_ok:
  assumes "bitmap_ok b" "\<forall>i \<in> set is. i + cnt \<le> bit_cnt b" "sorted is"
  shows "scan_loop b cnt v is = Inr (if \<exists>i \<in> set is. run_at b cnt v i then LEAST i. i \<in> set is \<and> run_at b cnt v i else BITMAP_ERROR)"
  using assms
proof (induction "is")
  case (Cons i "is")
  have c: "bitmap_contains b i cnt (\<not> v) = Inr (\<not> run_at b cnt v i)"
    using Cons.prems by (auto simp: bitmap_contains_ok run_at_def)
  show ?case
  proof (cases "run_at b cnt v i")
    case True
    then have "(LEAST j. j \<in> set (i # is) \<and> run_at b cnt v j) = i"
      using Cons.prems(3) by (intro Least_equality) auto
    then show ?thesis using True c by auto
  next
    case False
    then have "(\<lambda>j. j \<in> set (i # is) \<and> run_at b cnt v j) = (\<lambda>j. j \<in> set is \<and> run_at b cnt v j)" by auto
    then show ?thesis using False c Cons by auto
  qed
qed simp

lemma bitmap_scan_ok:
  assumes "bitmap_ok b" "start \<le> bit_cnt b"
  shows "bitmap_scan b start cnt v =
    Inr (if \<exists>i\<ge>start. run_at b cnt v i then LEAST i. start \<le> i \<and> run_at b cnt v i else BITMAP_ERROR)"
proof (cases "cnt \<le> bit_cnt b")
  case True
  let ?is = "[start..<Suc (bit_cnt b - cnt)]"
  have in_is: "(i \<in> set ?is \<and> run_at b cnt v i) = (start \<le> i \<and> run_at b cnt v i)" for i
    using True by (auto simp: run_at_def)
  have "scan_loop b cnt v ?is = Inr (if \<exists>i \<in> set ?is. run_at b cnt v i then LEAST i. i \<in> set ?is \<and> run_at b cnt v i else BITMAP_ERROR)"
    using True assms(1) by (intro scan_loop_ok) (auto simp del: upt_Suc)
  then show ?thesis
    unfolding Bex_def in_is using True assms(2) by (simp add: bitmap_scan_def del: upt_Suc)
next
  case False
  then show ?thesis using assms(2) by (auto simp: bitmap_scan_def run_at_def)
qed


lemma first_run:
  assumes "\<exists>i\<ge>start. run_at b cnt v i"
  shows "start \<le> (LEAST i. start \<le> i \<and> run_at b cnt v i) \<and> run_at b cnt v (LEAST i. start \<le> i \<and> run_at b cnt v i)"
  using assms by (metis (mono_tags, lifting) LeastI)

lemma bitmap_scan_and_flip_ok:
  fixes cnt :: nat and v :: bool
  assumes ok: "bitmap_ok b" "start \<le> bit_cnt b" and small: "bit_cnt b < BITMAP_ERROR"
  defines "i \<equiv> LEAST i. start \<le> i \<and> run_at b cnt v i"
  shows "if \<exists>i\<ge>start. run_at b cnt v i
    then \<exists>b'. bitmap_scan_and_flip b start cnt v = Inr (i, b') \<and> bitmap_ok b' \<and> bit_cnt b' = bit_cnt b
      \<and> bits_of b' = take i (bits_of b) @ replicate cnt (\<not> v) @ drop (i + cnt) (bits_of b)
    else bitmap_scan_and_flip b start cnt v = Inr (BITMAP_ERROR, b)"
proof (cases "\<exists>i\<ge>start. run_at b cnt v i")
  case True
  then have r: "run_at b cnt v i" using first_run [OF True] by (simp add: i_def)
  then have i: "i + cnt \<le> bit_cnt b" by (simp add: run_at_def)
  from bitmap_set_multiple_ok [OF ok(1) i, of "\<not> v"] obtain b' where "bitmap_set_multiple b i cnt (\<not> v) = Inr b'"
    "bitmap_ok b'" "bit_cnt b' = bit_cnt b" "bits_of b' = take i (bits_of b) @ replicate cnt (\<not> v) @ drop (i + cnt) (bits_of b)"
    by blast
  moreover have "i \<noteq> BITMAP_ERROR" using i small by simp
  ultimately show ?thesis
    using True bitmap_scan_ok [OF ok, of cnt v] by (simp add: bitmap_scan_and_flip_def i_def [symmetric])
next
  case False
  then show ?thesis using bitmap_scan_ok [OF ok, of cnt v] by (auto simp: bitmap_scan_and_flip_def)
qed

lemma elem_cnt_enough:
  assumes "n \<le> 2 ^ 32 - 32" shows "n \<le> 32 * elem_cnt n" "elem_cnt n \<le> n div 32 + 1"
proof -
  have "elem_cnt n = (n + 31) div 32" using assms by (simp add: elem_cnt_def DIV_ROUND_UP_def ELEM_BITS_def)
  moreover have "n + 31 = (n + 31) div 32 * 32 + (n + 31) mod 32" "(n + 31) mod 32 < 32" by simp_all
  moreover have "(n + 31) div 32 \<le> (n + 32) div 32" by (intro div_le_mono) simp
  ultimately show "n \<le> 32 * elem_cnt n" "elem_cnt n \<le> n div 32 + 1" by (linarith, simp)
qed

lemma bitmap_create_ok:
  assumes "n \<le> 2 ^ 32 - 32" "elem_cnt n \<le> length es"
  shows "\<exists>b. bitmap_create True (Some es) n = Inr (Some b) \<and> bitmap_ok b \<and> bits_of b = replicate n False"
    and "block_size \<ge> bitmap_buf_size n \<Longrightarrow>
      \<exists>b. bitmap_create_in_buf n es block_size = Inr b \<and> bitmap_ok b \<and> bits_of b = replicate n False"
proof -
  have "bitmap_ok \<lparr>bit_cnt = n, bits = es\<rparr>"
    using elem_cnt_enough(1) [OF assms(1)] assms by (simp add: bitmap_ok_def)
  from bitmap_set_all_ok [OF this, of False]
  show "\<exists>b. bitmap_create True (Some es) n = Inr (Some b) \<and> bitmap_ok b \<and> bits_of b = replicate n False"
    "block_size \<ge> bitmap_buf_size n \<Longrightarrow>
      \<exists>b. bitmap_create_in_buf n es block_size = Inr b \<and> bitmap_ok b \<and> bits_of b = replicate n False"
    by (auto simp: bitmap_create_def bitmap_create_in_buf_def)
qed


subsection \<open>Allocating runs\<close>

text \<open>C31. \<^verbatim>\<open>bitmap_scan_and_flip\<close> claims the first run of the wanted length at or after the start: it returns
  the least index of such a run and inverts exactly the bits of that run, or returns the error value and
  changes nothing when there is none. For length zero it returns the start, where the comment above
  the function promises zero.\<close>

theorem scan_and_flip_claims_first_run:
  assumes "bitmap_ok b" "start \<le> bit_cnt b" "bit_cnt b < BITMAP_ERROR"
  shows "(if \<exists>i\<ge>start. run_at b cnt v i
    then \<exists>i b'. bitmap_scan_and_flip b start cnt v = Inr (i, b') \<and> start \<le> i \<and> run_at b cnt v i
      \<and> (\<forall>j. start \<le> j \<and> run_at b cnt v j \<longrightarrow> i \<le> j) \<and> bitmap_ok b'
      \<and> bits_of b' = take i (bits_of b) @ replicate cnt (\<not> v) @ drop (i + cnt) (bits_of b)
    else bitmap_scan_and_flip b start cnt v = Inr (BITMAP_ERROR, b))
    \<and> (\<exists>b'. bitmap_scan_and_flip b start 0 v = Inr (start, b'))"
proof (intro conjI)
  show "if \<exists>i\<ge>start. run_at b cnt v i
    then \<exists>i b'. bitmap_scan_and_flip b start cnt v = Inr (i, b') \<and> start \<le> i \<and> run_at b cnt v i
      \<and> (\<forall>j. start \<le> j \<and> run_at b cnt v j \<longrightarrow> i \<le> j) \<and> bitmap_ok b'
      \<and> bits_of b' = take i (bits_of b) @ replicate cnt (\<not> v) @ drop (i + cnt) (bits_of b)
    else bitmap_scan_and_flip b start cnt v = Inr (BITMAP_ERROR, b)"
    using bitmap_scan_and_flip_ok [OF assms, of cnt v] first_run [of start b cnt v]
    by (auto split: if_splits intro: Least_le)
  have z: "\<exists>i\<ge>start. run_at b 0 v i" "(LEAST i. start \<le> i \<and> run_at b 0 v i) = start"
    using assms(2) by (auto simp: run_at_def intro!: Least_equality)
  then show "\<exists>b'. bitmap_scan_and_flip b start 0 v = Inr (start, b')"
    using bitmap_scan_and_flip_ok [OF assms, of 0 v] by auto
qed

definition sample_bitmap :: bitmap where
  "sample_bitmap = \<lparr>bit_cnt = 8, bits = [0x13]\<rparr>"

theorem scan_and_flip_claims_first_run_witness:
  "(\<exists>i b'. bitmap_scan_and_flip sample_bitmap 1 2 False = Inr (i, b') \<and> run_at sample_bitmap 2 False i)
    \<and> (\<exists>b'. bitmap_scan_and_flip sample_bitmap 1 0 False = Inr (1, b'))"
proof -
  have "run_at sample_bitmap 2 False 2"
    by (auto simp: run_at_def sample_bitmap_def bit_at_def less_2_cases_iff bit_simps)
  then have "\<exists>i\<ge>1. run_at sample_bitmap 2 False i" by (intro exI [of _ 2]) simp
  then show ?thesis
    using scan_and_flip_claims_first_run [of sample_bitmap 1 2 False]
    by (auto simp: sample_bitmap_def bitmap_ok_def BITMAP_ERROR_def)
qed

end
