(* ===== verification/Arithmetic.thy ===== *)
theory Arithmetic
  imports Prelude
begin

unbundle bit_operations_syntax

text \<open>
  The 64-bit division routines of \<^verbatim>\<open>lib/arithmetic.c\<close>, which the compiler calls for every 64-bit \<^verbatim>\<open>/\<close> and
  \<^verbatim>\<open>%\<close> of the kernel. Unsigned values are words; signed values are integers of the type's range. The
  machine instruction \<^verbatim>\<open>divl\<close> traps on a zero divisor and on a quotient that needs more than 32 bits.
\<close>

subsection \<open>The routines\<close>

definition divl :: "64 word \<Rightarrow> 32 word \<Rightarrow> 32 word result" where
  "divl n d =
     (let n1 = ucast (drop_bit 32 n) :: 32 word; n0 = ucast n :: 32 word;
          dividend = unat n1 * 2 ^ 32 + unat n0 in
      if d = 0 \<or> dividend div unat d \<ge> 2 ^ 32 then Inl Divide_error
      else Inr (of_nat (dividend div unat d)))"

definition nlz_stage :: "32 word \<Rightarrow> nat \<Rightarrow> nat \<times> 32 word \<Rightarrow> nat \<times> 32 word" where
  "nlz_stage limit k = (\<lambda>(n, x). if x \<le> limit then (n + k, push_bit k x) else (n, x))"

definition nlz :: "32 word \<Rightarrow> nat" where
  "nlz x0 =
     (let s1 = nlz_stage 0x0000FFFF 16 (0, x0);
          s2 = nlz_stage 0x00FFFFFF 8 s1;
          s3 = nlz_stage 0x0FFFFFFF 4 s2;
          (n, x) = nlz_stage 0x3FFFFFFF 2 s3 in
      if x \<le> 0x7FFFFFFF then n + 1 else n)"

definition udiv64 :: "64 word \<Rightarrow> 64 word \<Rightarrow> 64 word result" where
  "udiv64 n d =
     (if drop_bit 32 d = 0 then
        let b = push_bit 32 1 :: 64 word;
            n1 = ucast (drop_bit 32 n) :: 32 word; n0 = ucast n :: 32 word; d0 = ucast d :: 32 word in
        if d0 = 0 then Inl Divide_error
        else rbind (divl (b * ucast (n1 mod d0) + ucast n0) d0) (\<lambda>q.
               Inr (ucast q + b * ucast (n1 div d0)))
      else if n < d then Inr 0
      else
        let d1 = ucast (drop_bit 32 d) :: 32 word; s = nlz d1 in
        rbind (divl (drop_bit 1 n) (ucast (drop_bit 32 (push_bit s d)))) (\<lambda>q32.
          let q = ucast (drop_bit (31 - s) q32) :: 64 word in
          Inr (if n - (q - 1) * d < d then q - 1 else q)))"

definition umod64 :: "64 word \<Rightarrow> 64 word \<Rightarrow> 32 word result" where
  "umod64 n d = rbind (udiv64 n d) (\<lambda>q. Inr (ucast (n - d * q)))"

definition sdiv64 :: "int \<Rightarrow> int \<Rightarrow> int result" where
  "sdiv64 n d =
     (let n_abs = if n \<ge> 0 then word_of_int n else - word_of_int n;
          d_abs = if d \<ge> 0 then word_of_int d else - word_of_int d in
      rbind (udiv64 n_abs d_abs) (\<lambda>q_abs.
        if (n < 0) = (d < 0) then Inr (sint q_abs) else c_int64 (- sint q_abs)))"

definition smod64 :: "int \<Rightarrow> int \<Rightarrow> int result" where
  "smod64 n d = rbind (sdiv64 n d) (\<lambda>q. rbind (c_int64 (d * q)) (\<lambda>p. rbind (c_int64 (n - p)) (\<lambda>r.
     Inr (signed_take_bit 31 r))))"

definition udivdi3 :: "64 word \<Rightarrow> 64 word \<Rightarrow> 64 word result" where
  "udivdi3 n d = udiv64 n d"

definition umoddi3 :: "64 word \<Rightarrow> 64 word \<Rightarrow> 64 word result" where
  "umoddi3 n d = rbind (umod64 n d) (\<lambda>r. Inr (ucast r))"

definition divdi3 :: "int \<Rightarrow> int \<Rightarrow> int result" where
  "divdi3 n d = sdiv64 n d"

definition moddi3 :: "int \<Rightarrow> int \<Rightarrow> int result" where
  "moddi3 n d = smod64 n d"


subsection \<open>Leading zeros\<close>

lemma unat64: "unat (n :: 64 word) < 2 ^ 64"
  using unsigned_less [where ?'a = nat, of n] by simp

lemma unat32: "unat (n :: 32 word) < 2 ^ 32"
  using unsigned_less [where ?'a = nat, of n] by simp

lemma unat_push32: "unat (x :: 32 word) * 2 ^ k < 2 ^ 32 \<Longrightarrow> unat (push_bit k x) = unat x * 2 ^ k"
  by (simp only: unsigned_push_bit_eq) (simp add: push_bit_nat_def take_bit_nat_eq_self)

lemma unat_push64: "unat (x :: 64 word) * 2 ^ k < 2 ^ 64 \<Longrightarrow> unat (push_bit k x) = unat x * 2 ^ k"
  by (simp only: unsigned_push_bit_eq) (simp add: push_bit_nat_def take_bit_nat_eq_self)

lemma nlz_stage_ok:
  assumes "unat limit = 2 ^ (32 - k) - 1" "2 * k \<le> 32" "2 ^ (32 - 2 * k) \<le> unat x" "unat x = X * 2 ^ n"
    and "nlz_stage limit k (n, x) = (n', x')"
  shows "2 ^ (32 - k) \<le> unat x' \<and> unat x' = X * 2 ^ n' \<and> n' \<le> n + k"
proof (cases "x \<le> limit")
  case True
  then have "unat x \<le> 2 ^ (32 - k) - 1" using assms(1) by (simp add: word_le_nat_alt)
  then have "unat x < 2 ^ (32 - k)" by (metis Suc_pred' less_Suc_eq_le zero_less_numeral zero_less_power)
  then have "unat x * 2 ^ k < 2 ^ (32 - k) * 2 ^ k" by simp
  moreover have "32 - k + k = (32 :: nat)" using assms(2) by simp
  ultimately have lt: "unat x * 2 ^ k < 2 ^ 32" by (metis power_add)
  then have e: "unat (push_bit k x) = unat x * 2 ^ k"
    by (rule unat_push32)
  have "2 ^ (32 - 2 * k) * 2 ^ k \<le> unat x * 2 ^ k" using assms(3) by simp
  moreover have "32 - 2 * k + k = 32 - k" using assms(2) by simp
  ultimately have "2 ^ (32 - k) \<le> unat x * 2 ^ k" by (metis power_add)
  then show ?thesis using True assms(4,5) e by (auto simp: nlz_stage_def power_add)
next
  case False
  then have "unat x > 2 ^ (32 - k) - 1" using assms(1) by (simp add: word_le_nat_alt)
  then show ?thesis using False assms(4,5) by (auto simp: nlz_stage_def)
qed

lemma nlz_ok:
  assumes "x \<noteq> 0"
  shows "nlz x \<le> 31" "2 ^ 31 \<le> unat x * 2 ^ nlz x" "unat x * 2 ^ nlz x < 2 ^ 32"
proof -
  obtain n1 x1 where s1: "nlz_stage 0x0000FFFF 16 (0, x) = (n1, x1)" by (meson surj_pair)
  obtain n2 x2 where s2: "nlz_stage 0x00FFFFFF 8 (n1, x1) = (n2, x2)" by (meson surj_pair)
  obtain n3 x3 where s3: "nlz_stage 0x0FFFFFFF 4 (n2, x2) = (n3, x3)" by (meson surj_pair)
  obtain n4 x4 where s4: "nlz_stage 0x3FFFFFFF 2 (n3, x3) = (n4, x4)" by (meson surj_pair)
  have "1 \<le> unat x" using assms by (simp add: Suc_leI unat_gt_0)
  with nlz_stage_ok [OF _ _ _ _ s1, of "unat x"] have a: "2 ^ 16 \<le> unat x1" "unat x1 = unat x * 2 ^ n1" "n1 \<le> 16" by simp_all
  with nlz_stage_ok [OF _ _ _ _ s2, of "unat x"] have b: "2 ^ 24 \<le> unat x2" "unat x2 = unat x * 2 ^ n2" "n2 \<le> n1 + 8" by simp_all
  with nlz_stage_ok [OF _ _ _ _ s3, of "unat x"] have c: "2 ^ 28 \<le> unat x3" "unat x3 = unat x * 2 ^ n3" "n3 \<le> n2 + 4" by simp_all
  with nlz_stage_ok [OF _ _ _ _ s4, of "unat x"] have d: "2 ^ 30 \<le> unat x4" "unat x4 = unat x * 2 ^ n4" "n4 \<le> n3 + 2" by simp_all
  have l: "unat x4 < 2 ^ 32" by (rule unat32)
  have z: "nlz x = (if x4 \<le> 0x7FFFFFFF then n4 + 1 else n4)"
    using s1 s2 s3 s4 by (simp add: nlz_def)
  show "nlz x \<le> 31" using z a(3) b(3) c(3) d(3) by simp
  show "2 ^ 31 \<le> unat x * 2 ^ nlz x" "unat x * 2 ^ nlz x < 2 ^ 32"
    using z d(1,2) l by (auto simp: word_le_nat_alt)
qed


subsection \<open>Unsigned division\<close>

lemma unat_high: "unat (ucast (drop_bit 32 (n :: 64 word)) :: 32 word) = unat n div 2 ^ 32"
proof -
  have "unat n div 2 ^ 32 < 2 ^ 32" using unat64 [of n] by (simp add: less_mult_imp_div_less)
  then show ?thesis
    by (simp only: unsigned_ucast_eq unsigned_drop_bit_eq) (simp add: drop_bit_nat_def take_bit_nat_eq_self)
qed

lemma unat_low: "unat (ucast (n :: 64 word) :: 32 word) = unat n mod 2 ^ 32"
  by (simp add: unsigned_ucast_eq take_bit_eq_mod)

lemma unat_wide: "unat (ucast (w :: 32 word) :: 64 word) = unat w"
  by (simp add: unsigned_ucast_eq take_bit_nat_eq_self order_less_trans [OF unsigned_less])

lemma divl_ok:
  assumes "d \<noteq> 0" "unat n div unat d < 2 ^ 32"
  shows "\<exists>q. divl n d = Inr q \<and> unat q = unat n div unat d"
proof -
  have "unat (ucast (drop_bit 32 n) :: 32 word) * 2 ^ 32 + unat (ucast n :: 32 word) = unat n"
    unfolding unat_high unat_low [of n] by simp
  then show ?thesis
    using assms by (simp add: divl_def Let_def unat_of_nat take_bit_nat_eq_self del: of_nat_unat)
qed

text \<open>The identity of the comment in the source: dividing digit by digit.\<close>

lemma digitwise_div:
  assumes "(0 :: nat) < d"
  shows "(b * (n1 mod d) + n0) div d + b * (n1 div d) = (b * n1 + n0) div d"
proof -
  have "b * n1 + n0 = (b * (n1 mod d) + n0) + d * (b * (n1 div d))"
    by (metis add.assoc add.commute distrib_left mod_mult_div_eq mult.left_commute)
  then show ?thesis using assms by (simp only: div_mult_self2 [OF less_imp_neq [OF assms, symmetric]] add.commute)
qed

lemma udiv64_small:
  assumes "drop_bit 32 d = 0" "d \<noteq> 0"
  shows "udiv64 n d = Inr (n div d)"
proof -
  define n1 n0 d0 :: "32 word" where "n1 = ucast (drop_bit 32 n)" and "n0 = ucast n" and "d0 = ucast d"
  have hi: "unat d div 2 ^ 32 = 0"
    using assms(1) by (metis unsigned_drop_bit_eq drop_bit_eq_div unsigned_0 take_bit_0 unat_high ucast_0)
  then have D: "unat d < 2 ^ 32" by (simp add: div_eq_0_iff)
  have d0: "unat d0 = unat d" using D by (simp add: d0_def unat_low)
  then have pos: "0 < unat d" "d0 \<noteq> 0" using assms(2) by (auto simp: unat_gt_0 unsigned_eq_0_iff)
  have N: "unat n = 2 ^ 32 * unat n1 + unat n0" unfolding n1_def n0_def unat_high unat_low [of n] by simp
  have n0: "unat n0 < 2 ^ 32" by (rule unat32)
  define a :: "64 word" where "a = push_bit 32 1 * ucast (n1 mod d0) + ucast n0"
  let ?A = "2 ^ 32 * (unat n1 mod unat d) + unat n0"
  have "unat n1 mod unat d \<le> unat d - 1" using pos by (simp add: Suc_leI less_Suc_eq_le [symmetric])
  then have "2 ^ 32 * (unat n1 mod unat d) \<le> 2 ^ 32 * (unat d - 1)" by simp
  then have A: "?A < 2 ^ 32 * unat d" using n0 pos(1) by (simp add: diff_mult_distrib2)
  then have A64: "?A < 2 ^ 64" using D by simp
  have "unat (push_bit 32 1 * ucast (n1 mod d0) :: 64 word) = 2 ^ 32 * (unat n1 mod unat d)"
    using A64 by (simp add: unat_word_ariths unat_wide unat_mod d0 push_bit_eq_mult)
  then have a: "unat a = ?A" using A64 by (simp add: a_def unat_word_ariths unat_wide)
  have "?A div unat d < 2 ^ 32" using A by (simp add: less_mult_imp_div_less)
  with divl_ok [OF pos(2), of a] obtain q where q: "divl a d0 = Inr q" "unat q = ?A div unat d"
    by (auto simp: a d0)
  have e: "?A div unat d + 2 ^ 32 * (unat n1 div unat d) = unat n div unat d"
    using digitwise_div [OF pos(1)] N by simp
  have lt: "unat n div unat d < 2 ^ 64"
    using unat64 [of n] by (intro order_le_less_trans [OF div_le_dividend]) simp
  have "unat (ucast q + push_bit 32 1 * ucast (n1 div d0) :: 64 word) = unat n div unat d"
    using e lt by (simp add: unat_word_ariths unat_wide unat_div d0 push_bit_eq_mult q(2))
  then have "ucast q + push_bit 32 1 * ucast (n1 div d0) = n div d"
    by (simp add: word_unat_eq_iff unat_div)
  then show ?thesis
    using q(1) pos(2) assms(1) by (simp add: udiv64_def n1_def [symmetric] n0_def [symmetric] d0_def [symmetric] a_def)
qed


text \<open>Large divisors: the divisor is scaled to fill 64 bits and its high half \<open>v\<close> divides half the dividend;
  the scaled-back quotient is the true one or one too large.\<close>

lemma estimate_error:
  fixes N D s :: nat
  assumes s: "s \<le> 31" and D: "2 ^ 63 \<le> D * 2 ^ s" and N: "N < 2 ^ 64"
  shows "(N div D + 2) * (D mod 2 ^ (32 - s)) \<le> D"
proof -
  let ?r = "D mod 2 ^ (32 - s)"
  have big: "2 ^ (63 - s) \<le> D"
  proof -
    have "2 ^ (63 - s) * 2 ^ s \<le> D * 2 ^ s" using D s by (simp flip: power_add)
    then show ?thesis by simp
  qed
  have pos: "0 < D" using big by (meson less_le_trans zero_less_numeral zero_less_power)
  have r: "?r < 2 ^ (32 - s)" by simp
  have Q: "N div D < 2 ^ (s + 1)"
  proof (rule less_mult_imp_div_less)
    have "(2 :: nat) ^ 64 = 2 ^ (s + 1) * 2 ^ (63 - s)" using s by (simp flip: power_add)
    also have "\<dots> \<le> 2 ^ (s + 1) * D" using big by simp
    finally show "N < 2 ^ (s + 1) * D" using N by linarith
  qed
  consider "s \<le> 29" | "s = 30" | "s = 31" using s by linarith
  then show ?thesis
  proof cases
    case 1
    have "(N div D + 2) * ?r \<le> 2 ^ (s + 2) * 2 ^ (32 - s)"
      using Q r by (intro mult_le_mono) (auto simp: Suc_leI)
    also have "\<dots> = 2 ^ 34" using 1 by (simp flip: power_add)
    also have "\<dots> \<le> 2 ^ (63 - s)" using 1 by (intro power_increasing) auto
    finally show ?thesis using big by linarith
  next
    case 2
    then have "(N div D + 2) * ?r \<le> (2 ^ 31 + 1) * 3" using Q r by (intro mult_le_mono) auto
    then show ?thesis using big 2 by simp
  next
    case 3
    show ?thesis
    proof (cases "?r = 0")
      case False
      then have r1: "?r = 1" using 3 by (simp add: mod2_eq_if split: if_splits)
      have "2 ^ 32 \<le> D" using big 3 by simp
      moreover have "D \<noteq> 2 ^ 32" using r1 3 by auto
      ultimately have D1: "2 ^ 32 + 1 \<le> D" by linarith
      have "N div D \<le> 2 ^ 32 - 1" using Q 3 by simp
      then show ?thesis using r1 D1 by simp
    qed simp
  qed
qed

lemma estimate_quotient:
  fixes N D s v q :: nat
  assumes s: "s \<le> 31" and D: "2 ^ 63 \<le> D * 2 ^ s" and N: "N < 2 ^ 64"
    and v: "v = D div 2 ^ (32 - s)" and q: "q = N div 2 div v div 2 ^ (31 - s)"
  shows "q = N div D \<or> q = N div D + 1"
proof -
  define W where "W = v * 2 ^ (32 - s)"
  have W: "W + D mod 2 ^ (32 - s) = D" by (simp only: W_def v div_mult_mod_eq)
  have "32 - s = Suc (31 - s)" using s by simp
  then have "(2 :: nat) ^ (32 - s) = 2 * 2 ^ (31 - s)" by (metis power_Suc)
  then have qW: "q = N div W" unfolding q W_def by (simp add: div_mult2_eq [symmetric] ac_simps)
  note err = estimate_error [OF s D N]
  have "0 < D" using D by (cases "D = 0") auto
  have "0 < W"
  proof (rule ccontr)
    assume "\<not> 0 < W"
    then have "D = D mod 2 ^ (32 - s)" using W by simp
    with err have "(N div D + 2) * D \<le> D" by simp
    then show False using \<open>0 < D\<close> by simp
  qed
  have "N div D \<le> q" unfolding qW using W \<open>0 < W\<close> by (intro div_le_mono2) auto
  moreover have "q < N div D + 2" unfolding qW
  proof (rule less_mult_imp_div_less)
    have "N < (N div D) * D + D" using \<open>0 < D\<close> by (metis add_less_cancel_left div_mult_mod_eq mod_less_divisor)
    also have "\<dots> = (N div D + 2) * D - D" by simp
    also have "\<dots> \<le> (N div D + 2) * D - (N div D + 2) * (D mod 2 ^ (32 - s))" using err by simp
    also have "\<dots> = (N div D + 2) * W" using W by (metis diff_add_inverse2 diff_mult_distrib2)
    finally show "N < (N div D + 2) * W" .
  qed
  ultimately show ?thesis by linarith
qed


lemma unat_drop: "unat (drop_bit k (n :: 64 word)) = unat n div 2 ^ k"
  by (simp only: unsigned_drop_bit_eq) (use unat64 [of n] in \<open>simp add: drop_bit_nat_def take_bit_nat_eq_self\<close>)

lemma unat_drop32: "unat (drop_bit k (n :: 32 word)) = unat n div 2 ^ k"
  by (simp only: unsigned_drop_bit_eq) (use unat32 [of n] in \<open>simp add: drop_bit_nat_def take_bit_nat_eq_self\<close>)

lemma scaled_divisor:
  fixes D s :: nat
  assumes z: "s \<le> 31" "2 ^ 31 \<le> D div 2 ^ 32 * 2 ^ s" "D div 2 ^ 32 * 2 ^ s < 2 ^ 32"
  shows "2 ^ 63 \<le> D * 2 ^ s" "D * 2 ^ s < 2 ^ 64" "D * 2 ^ s div 2 ^ 32 = D div 2 ^ (32 - s)"
    "2 ^ 31 \<le> D div 2 ^ (32 - s)"
proof -
  have p: "(2 :: nat) ^ 32 = 2 ^ (32 - s) * 2 ^ s" using z(1) by (simp flip: power_add)
  have "2 ^ 31 * 2 ^ 32 \<le> D div 2 ^ 32 * 2 ^ s * 2 ^ 32" by (rule mult_le_mono1 [OF z(2)])
  also have "\<dots> \<le> D * 2 ^ s" by (metis div_times_less_eq_dividend mult.assoc mult.commute mult_le_mono1)
  finally show lo: "2 ^ 63 \<le> D * 2 ^ s" by simp
  have "D div 2 ^ 32 * 2 ^ s < 2 ^ (32 - s) * 2 ^ s" using z(3) p by simp
  then have "D div 2 ^ 32 + 1 \<le> 2 ^ (32 - s)" by simp
  then have "(D div 2 ^ 32 + 1) * 2 ^ 32 * 2 ^ s \<le> 2 ^ (32 - s) * 2 ^ 32 * 2 ^ s" by simp
  moreover have "2 ^ (32 - s) * 2 ^ 32 * 2 ^ s = (2 :: nat) ^ 64" using z(1) by (simp flip: power_add)
  moreover have "D < (D div 2 ^ 32 + 1) * 2 ^ 32"
    by (metis add.commute dividend_less_times_div mult.commute plus_1_eq_Suc mult_Suc zero_less_numeral zero_less_power)
  then have "D * 2 ^ s < (D div 2 ^ 32 + 1) * 2 ^ 32 * 2 ^ s" by simp
  ultimately show "D * 2 ^ s < 2 ^ 64" by linarith
  show v: "D * 2 ^ s div 2 ^ 32 = D div 2 ^ (32 - s)" unfolding p by simp
  have "2 ^ 63 div 2 ^ 32 \<le> D * 2 ^ s div 2 ^ 32" using lo by (rule div_le_mono)
  then show "2 ^ 31 \<le> D div 2 ^ (32 - s)" unfolding v by simp
qed

lemma correct_estimate:
  fixes n d q :: "64 word"
  assumes "d \<noteq> 0" "d \<le> n" "q = n div d \<or> q = n div d + 1"
  shows "(if n - (q - 1) * d < d then q - 1 else q) = n div d"
proof -
  have e: "n - n div d * d = n mod d" by (metis add_diff_cancel_left' word_mod_div_equality)
  have lt: "n mod d < d" using assms(1) by (simp add: word_gt_0 word_mod_less_divisor)
  show ?thesis
  proof (cases "q = n div d + 1")
    case True
    then show ?thesis using e lt by simp
  next
    case False
    then have q: "q = n div d" using assms(3) by simp
    have D: "0 < unat d" using assms(1) by (simp add: unat_gt_0)
    have le: "unat d \<le> unat n" using assms(2) by (simp add: word_le_nat_alt)
    then have "1 \<le> unat n div unat d" using D by (simp add: Suc_leI div_greater_zero_iff)
    then have "1 * unat d \<le> unat n div unat d * unat d" by (rule mult_le_mono1)
    then have "unat n mod unat d + unat d \<le> unat n" using div_mult_mod_eq [of "unat n" "unat d"] by linarith
    then have "unat (n mod d + d) = unat n mod unat d + unat d"
      using unat64 [of n] by (simp add: unat_word_ariths unat_mod)
    then have "\<not> n mod d + d < d" by (simp add: word_less_nat_alt)
    moreover have "n - (q - 1) * d = n mod d + d" using e q by (simp add: left_diff_distrib)
    ultimately show ?thesis using q by simp
  qed
qed

lemma udiv64_large:
  assumes d: "drop_bit 32 d \<noteq> 0" and n: "d \<le> n"
  shows "udiv64 n d = Inr (n div d)"
proof -
  define N D where "N = unat n" and "D = unat d"
  define d1 :: "32 word" where "d1 = ucast (drop_bit 32 d)"
  define s where "s = nlz d1"
  define w :: "32 word" where "w = ucast (drop_bit 32 (push_bit s d))"
  have u1: "unat d1 = D div 2 ^ 32" unfolding d1_def D_def by (rule unat_high)
  have "D div 2 ^ 32 \<noteq> 0" using d unat_drop [of 32 d] by (metis D_def unsigned_eq_0_iff)
  then have "d1 \<noteq> 0" using u1 by auto
  note z = nlz_ok [OF this, folded s_def, unfolded u1]
  note sd = scaled_divisor [OF z]
  have "unat (push_bit s d) = D * 2 ^ s" using sd(2) unfolding D_def by (rule unat_push64)
  then have w: "unat w = D div 2 ^ (32 - s)" unfolding w_def unat_high using sd(3) by simp
  then have w0: "2 ^ 31 \<le> unat w" "w \<noteq> 0" using sd(4) by auto
  have N: "N < 2 ^ 64" unfolding N_def by (rule unat64)
  have h: "unat (drop_bit 1 n) = N div 2" unfolding N_def using unat_drop [of 1 n] by simp
  have "N div 2 div unat w < 2 ^ 32"
  proof (rule less_mult_imp_div_less)
    have "N div 2 < 2 ^ 32 * 2 ^ 31" using N by (simp add: less_mult_imp_div_less)
    also have "\<dots> \<le> 2 ^ 32 * unat w" using w0 by simp
    finally show "N div 2 < 2 ^ 32 * unat w" .
  qed
  with divl_ok [OF w0(2), of "drop_bit 1 n"] h obtain q32 where q32: "divl (drop_bit 1 n) w = Inr q32" "unat q32 = N div 2 div unat w"
    by auto
  define q :: "64 word" where "q = ucast (drop_bit (31 - s) q32)"
  have uq: "unat q = N div 2 div unat w div 2 ^ (31 - s)" by (simp only: q_def unat_wide unat_drop32 q32(2))
  from estimate_quotient [OF z(1) sd(1) N w uq] have "unat q = N div D \<or> unat q = N div D + 1" .
  moreover have "N div D + 1 < 2 ^ 64"
  proof -
    have "2 ^ 32 \<le> D" using \<open>D div 2 ^ 32 \<noteq> 0\<close> by (simp add: div_eq_0_iff not_less)
    then have "N div D \<le> N div 2 ^ 32" by (intro div_le_mono2) auto
    then show ?thesis using N by (simp add: less_mult_imp_div_less)
  qed
  ultimately have "q = n div d \<or> q = n div d + 1"
    by (auto simp: word_unat_eq_iff unat_word_ariths unat_div N_def D_def)
  moreover have "d \<noteq> 0" using d by auto
  ultimately have "(if n - (q - 1) * d < d then q - 1 else q) = n div d" using n by (intro correct_estimate)
  moreover have "\<not> n < d" using n by (simp add: not_less)
  then have "udiv64 n d = Inr (if n - (q - 1) * d < d then q - 1 else q)"
    using d q32(1) unfolding udiv64_def d1_def [symmetric] s_def [symmetric] w_def [symmetric] q_def
    by (simp add: Let_def s_def [symmetric] w_def [symmetric])
  ultimately show ?thesis by simp
qed


lemma udiv64_ok: "d \<noteq> 0 \<Longrightarrow> udiv64 n d = Inr (n div d)"
proof (cases "drop_bit 32 d = 0 \<or> d \<le> n")
  case False
  then have "n < d" by (simp add: not_le)
  then have "n div d = 0" by (simp add: word_unat_eq_iff unat_div word_less_nat_alt)
  then show ?thesis using False \<open>n < d\<close> by (simp add: udiv64_def)
qed (auto intro: udiv64_small udiv64_large)

lemma udiv64_zero: "udiv64 n 0 = Inl Divide_error"
  by (simp add: udiv64_def)

text \<open>C29. The 64-bit division routine is right: for every dividend and every divisor other than zero it
  returns the quotient, and the machine division inside it never traps; a zero divisor traps.\<close>

theorem udivdi3_divides:
  "udivdi3 n d = (if d = 0 then Inl Divide_error else Inr (n div d))"
  using udiv64_ok [of d n] by (simp add: udivdi3_def udiv64_zero)

text \<open>C37. The 64-bit remainder routine keeps only the low 32 bits of the remainder, because its helper
  \<^verbatim>\<open>umod64\<close> returns a \<^verbatim>\<open>uint32_t\<close>: it is wrong exactly for remainders of at least \<open>2 ^ 32\<close>, for
  example for \<open>2 ^ 33\<close> modulo \<open>2 ^ 40\<close>.\<close>

theorem umoddi3_truncates:
  "umoddi3 n d = (if d = 0 then Inl Divide_error else Inr (take_bit 32 (n mod d)))
   \<and> umoddi3 (2 ^ 33) (2 ^ 40) = Inr 0 \<and> (2 :: 64 word) ^ 33 mod 2 ^ 40 = 2 ^ 33"
proof -
  have "umoddi3 n d = (if d = 0 then Inl Divide_error else Inr (take_bit 32 (n mod d)))" for n d
  proof (cases "d = 0")
    case False
    have "n - d * (n div d) = n mod d" by (metis add_diff_cancel_left' mult.commute word_mod_div_equality)
    moreover have "ucast (ucast x :: 32 word) = take_bit 32 x" for x :: "64 word"
      by (simp add: bit_eq_iff bit_simps)
    ultimately show ?thesis using udiv64_ok [OF False, of n] False by (simp add: umoddi3_def umod64_def)
  qed (simp add: umoddi3_def umod64_def udiv64_zero)
  moreover have "(2 :: 64 word) ^ 33 mod 2 ^ 40 = 2 ^ 33" "take_bit 32 ((2 :: 64 word) ^ 33) = 0" "(2 :: 64 word) ^ 40 \<noteq> 0"
    by simp_all
  ultimately show ?thesis by simp
qed


subsection \<open>Signed division\<close>

definition int64 :: "int \<Rightarrow> bool" where
  "int64 n \<longleftrightarrow> - (2 ^ 63) \<le> n \<and> n < 2 ^ 63"

lemma unat_word_of_int: "0 \<le> k \<Longrightarrow> k < 2 ^ 64 \<Longrightarrow> unat (word_of_int k :: 64 word) = nat k"
  by (simp only: unsigned_of_int) (simp add: take_bit_int_eq_self)

lemma unat_abs: "int64 n \<Longrightarrow> unat (if n \<ge> 0 then word_of_int n else - word_of_int n :: 64 word) = nat \<bar>n\<bar>"
proof (cases "0 \<le> n")
  case True
  then show "int64 n \<Longrightarrow> ?thesis" using unat_word_of_int [of n] by (simp add: int64_def)
next
  case False
  have "- word_of_int n = (word_of_int (- n) :: 64 word)" by (simp only: wi_hom_neg)
  then show "int64 n \<Longrightarrow> ?thesis" using False unat_word_of_int [of "- n"] by (simp only: int64_def if_False) auto
qed

lemma sdiv64_ok:
  assumes r: "int64 n" "int64 d" and d: "d \<noteq> 0" and fits: "n \<noteq> - (2 ^ 63) \<or> \<bar>d\<bar> \<noteq> 1"
  shows "sdiv64 n d = Inr (n sdiv d)"
proof -
  define a b :: "64 word" where "a = (if n \<ge> 0 then word_of_int n else - word_of_int n)"
    and "b = (if d \<ge> 0 then word_of_int d else - word_of_int d)"
  have u: "unat a = nat \<bar>n\<bar>" "unat b = nat \<bar>d\<bar>" unfolding a_def b_def using r by (simp_all only: unat_abs)
  have "b \<noteq> 0" using u(2) d by auto
  then have q: "udiv64 a b = Inr (a div b)" by (rule udiv64_ok)
  have Q: "uint (a div b) = \<bar>n\<bar> div \<bar>d\<bar>"
  proof -
    have "uint (a div b) = int (unat (a div b))" by simp
    also have "\<dots> = int (nat \<bar>n\<bar> div nat \<bar>d\<bar>)" by (simp only: unat_div u)
    also have "\<dots> = \<bar>n\<bar> div \<bar>d\<bar>" by (simp add: zdiv_int)
    finally show ?thesis .
  qed
  have le: "\<bar>n\<bar> div \<bar>d\<bar> < 2 ^ 63"
  proof (cases "\<bar>d\<bar> = 1")
    case True
    then show ?thesis using fits r(1) by (auto simp: int64_def)
  next
    case False
    then have "\<bar>n\<bar> div \<bar>d\<bar> \<le> \<bar>n\<bar> div 2" using d by (intro zdiv_mono2) auto
    also have "\<dots> < 2 ^ 63" using r(1) unfolding int64_def by linarith
    finally show ?thesis .
  qed
  have ge: "0 \<le> \<bar>n\<bar> div \<bar>d\<bar>" using d by (simp add: pos_imp_zdiv_nonneg_iff)
  have s: "sint (a div b) = \<bar>n\<bar> div \<bar>d\<bar>"
    using le ge by (simp add: sint_uint Q signed_take_bit_int_eq_self)
  have "sdiv64 n d = (if (n < 0) = (d < 0) then Inr (\<bar>n\<bar> div \<bar>d\<bar>) else Inr (- (\<bar>n\<bar> div \<bar>d\<bar>)))"
    using q s le ge by (simp add: sdiv64_def a_def [symmetric] b_def [symmetric] Let_def c_int64_def)
  also have "\<dots> = Inr (n sdiv d)"
    using d by (cases n "0 :: int" rule: linorder_cases; cases d "0 :: int" rule: linorder_cases)
      (auto simp: signed_divide_int_def)
  finally show ?thesis .
qed

text \<open>C39. Signed 64-bit division truncates towards zero as C prescribes, for all operands whose quotient is
  in range. Dividing the smallest number by 1 is the one exception: the quotient is in range, but the
  routine negates the smallest number on the way, which overflows.\<close>

theorem divdi3_truncates:
  assumes "int64 n" "int64 d" "d \<noteq> 0" "n \<noteq> - (2 ^ 63) \<or> \<bar>d\<bar> \<noteq> 1"
  shows "divdi3 n d = Inr (n sdiv d) \<and> divdi3 (- (2 ^ 63)) 1 = Inl Signed_overflow"
proof -
  have "udiv64 (- word_of_int (- (2 ^ 63))) (word_of_int 1) = Inr (- word_of_int (- (2 ^ 63)) div word_of_int 1)"
    by (rule udiv64_ok) simp
  then have "sdiv64 (- (2 ^ 63)) 1 = Inl Signed_overflow"
    by (simp add: sdiv64_def c_int64_def)
  then show ?thesis using sdiv64_ok [OF assms] by (simp add: divdi3_def)
qed

theorem divdi3_truncates_witness:
  "divdi3 (- 9223372036854775807) 2 = Inr (- 4611686018427387903)"
  using divdi3_truncates [of "- 9223372036854775807" 2] by (simp add: int64_def signed_divide_int_def)

end
