(* ===== verification/Stdio.thy ===== *)
theory Stdio
  imports Stdlib
begin

unbundle bit_operations_syntax

text \<open>
  Formatted output, \<^verbatim>\<open>lib/stdio.c\<close>. The format is a C string in memory and the arguments are the 32-bit
  slots of the caller's stack, which \<^verbatim>\<open>va_arg\<close> takes off one by one (two for a 64-bit argument, low half
  first). A conversion produces a sequence of calls of the function \<open>output\<close>, whose state is passed along;
  \<^verbatim>\<open>vsnprintf\<close> instantiates it with a bounded buffer. The memory that holds the format and the string
  arguments is not the one written to, as the overlap of both is undefined.
\<close>

subsection \<open>Conversions and bases\<close>

datatype conv_type = T_CHAR | T_SHORT | T_INT | T_INTMAX | T_LONG | T_LONGLONG | T_PTRDIFFT | T_SIZET

record printf_conversion =
  MINUS :: bool
  PLUS :: bool
  SPACE :: bool
  POUND :: bool
  ZERO :: bool
  GROUP :: bool
  width :: int
  precision :: int
  conv_type :: conv_type

datatype integer_base = base_d | base_o | base_x | base_X

primrec base :: "integer_base \<Rightarrow> nat" where
  "base base_d = 10" | "base base_o = 8" | "base base_x = 16" | "base base_X = 16"

primrec base_digits :: "integer_base \<Rightarrow> string" where
  "base_digits base_d = ''0123456789''" | "base_digits base_o = ''01234567''"
| "base_digits base_x = ''0123456789abcdef''" | "base_digits base_X = ''0123456789ABCDEF''"

primrec base_prefix :: "integer_base \<Rightarrow> char option" where
  "base_prefix base_d = None" | "base_prefix base_o = None"
| "base_prefix base_x = Some (CHR ''x'')" | "base_prefix base_X = Some (CHR ''X'')"

primrec base_group :: "integer_base \<Rightarrow> nat" where
  "base_group base_d = 3" | "base_group base_o = 3" | "base_group base_x = 4" | "base_group base_X = 4"


subsection \<open>Arguments\<close>

type_synonym va_list = "32 word list"

definition va_arg32 :: "va_list \<Rightarrow> (32 word \<times> va_list) result" where
  "va_arg32 args = (case args of [] \<Rightarrow> Inl Out_of_bounds | a # as \<Rightarrow> Inr (a, as))"

definition va_arg64 :: "va_list \<Rightarrow> (64 word \<times> va_list) result" where
  "va_arg64 args = (case args of lo # hi # as \<Rightarrow> Inr (push_bit 32 (ucast hi) OR ucast lo, as) | _ \<Rightarrow> Inl Out_of_bounds)"

definition signed_arg :: "conv_type \<Rightarrow> va_list \<Rightarrow> (int \<times> va_list) result" where
  "signed_arg t args = (case t of
     T_CHAR \<Rightarrow> rbind (va_arg32 args) (\<lambda>(a, as). Inr (signed_take_bit 7 (sint a), as))
   | T_SHORT \<Rightarrow> rbind (va_arg32 args) (\<lambda>(a, as). Inr (signed_take_bit 15 (sint a), as))
   | T_INT \<Rightarrow> rbind (va_arg32 args) (\<lambda>(a, as). Inr (sint a, as))
   | T_INTMAX \<Rightarrow> rbind (va_arg64 args) (\<lambda>(a, as). Inr (sint a, as))
   | T_LONG \<Rightarrow> rbind (va_arg32 args) (\<lambda>(a, as). Inr (sint a, as))
   | T_LONGLONG \<Rightarrow> rbind (va_arg64 args) (\<lambda>(a, as). Inr (sint a, as))
   | T_PTRDIFFT \<Rightarrow> rbind (va_arg32 args) (\<lambda>(a, as). Inr (sint a, as))
   | T_SIZET \<Rightarrow> rbind (va_arg32 args) (\<lambda>(a, as).
       let value = uint a in Inr (if value > (2 ^ 32 - 1) div 2 then value - (2 ^ 32 - 1) - 1 else value, as)))"

definition unsigned_arg :: "conv_type \<Rightarrow> va_list \<Rightarrow> (nat \<times> va_list) result" where
  "unsigned_arg t args = (case t of
     T_CHAR \<Rightarrow> rbind (va_arg32 args) (\<lambda>(a, as). Inr (unat a mod 2 ^ 8, as))
   | T_SHORT \<Rightarrow> rbind (va_arg32 args) (\<lambda>(a, as). Inr (unat a mod 2 ^ 16, as))
   | T_INT \<Rightarrow> rbind (va_arg32 args) (\<lambda>(a, as). Inr (unat a, as))
   | T_INTMAX \<Rightarrow> rbind (va_arg64 args) (\<lambda>(a, as). Inr (unat a, as))
   | T_LONG \<Rightarrow> rbind (va_arg32 args) (\<lambda>(a, as). Inr (unat a, as))
   | T_LONGLONG \<Rightarrow> rbind (va_arg64 args) (\<lambda>(a, as). Inr (unat a, as))
   | T_PTRDIFFT \<Rightarrow> rbind (va_arg32 args) (\<lambda>(a, as). Inr (unat (scast a :: 64 word) mod 2 ^ 32, as))
   | T_SIZET \<Rightarrow> rbind (va_arg32 args) (\<lambda>(a, as). Inr (unat a, as)))"


subsection \<open>Parsing a conversion\<close>

definition no_flags :: printf_conversion where
  "no_flags = \<lparr>MINUS = False, PLUS = False, SPACE = False, POUND = False, ZERO = False, GROUP = False,
               width = 0, precision = - 1, conv_type = T_INT\<rparr>"

definition set_flag :: "char \<Rightarrow> printf_conversion \<Rightarrow> printf_conversion option" where
  "set_flag ch c =
     (if ch = CHR ''-'' then Some (c\<lparr>MINUS := True\<rparr>)
      else if ch = CHR ''+'' then Some (c\<lparr>PLUS := True\<rparr>)
      else if ch = CHR '' '' then Some (c\<lparr>SPACE := True\<rparr>)
      else if ch = CHR ''#'' then Some (c\<lparr>POUND := True\<rparr>)
      else if ch = CHR ''0'' then Some (c\<lparr>ZERO := True\<rparr>)
      else if ch = CHR 0x27 then Some (c\<lparr>GROUP := True\<rparr>)
      else None)"

partial_function (option) flags_loop :: "mem \<Rightarrow> nat \<Rightarrow> printf_conversion \<Rightarrow> (nat \<times> printf_conversion) option" where
  "flags_loop m format c = (case set_flag (m format) c of
     Some c' \<Rightarrow> flags_loop m (format + 1) c'
   | None \<Rightarrow> Some (format, c))"

definition exclude_flags :: "printf_conversion \<Rightarrow> printf_conversion" where
  "exclude_flags c =
     (let c = (if MINUS c then c\<lparr>ZERO := False\<rparr> else c) in if PLUS c then c\<lparr>SPACE := False\<rparr> else c)"

partial_function (option) number_loop :: "mem \<Rightarrow> nat \<Rightarrow> int \<Rightarrow> (nat \<times> int) result option" where
  "number_loop m format v =
     (if isdigit (schar (m format)) then
        obind (rbind (c_int (v * 10)) (\<lambda>x. rbind (c_int (x + schar (m format))) (\<lambda>y. c_int (y - schar (CHR ''0'')))))
          (\<lambda>v. number_loop m (format + 1) v)
      else Some (Inr (format, v)))"

definition parse_width :: "mem \<Rightarrow> nat \<Rightarrow> va_list \<Rightarrow> printf_conversion \<Rightarrow> (nat \<times> printf_conversion \<times> va_list) result" where
  "parse_width m format args c =
     rbind (if m format = CHR ''*'' then rbind (va_arg32 args) (\<lambda>(a, as). Inr (format + 1, sint a, as))
            else rbind (returns (number_loop m format 0)) (\<lambda>(f, v). Inr (f, v, args))) (\<lambda>(f, v, as).
     if v < 0 then rbind (c_int (- v)) (\<lambda>v. Inr (f, c\<lparr>width := v, MINUS := True\<rparr>, as))
     else Inr (f, c\<lparr>width := v\<rparr>, as))"

definition parse_precision :: "mem \<Rightarrow> nat \<Rightarrow> va_list \<Rightarrow> printf_conversion \<Rightarrow> (nat \<times> printf_conversion \<times> va_list) result" where
  "parse_precision m format args c =
     rbind (if m format = CHR ''.'' then
              (if m (format + 1) = CHR ''*'' then rbind (va_arg32 args) (\<lambda>(a, as). Inr (format + 2, sint a, as))
               else rbind (returns (number_loop m (format + 1) 0)) (\<lambda>(f, v). Inr (f, v, args)))
            else Inr (format, - 1, args)) (\<lambda>(f, v, as).
     let v = (if v < 0 then - 1 else v); c = c\<lparr>precision := v\<rparr> in
     Inr (f, if v \<ge> 0 then c\<lparr>ZERO := False\<rparr> else c, as))"

definition parse_type :: "mem \<Rightarrow> nat \<Rightarrow> nat \<times> conv_type" where
  "parse_type m format =
     (if m format = CHR ''h'' then (if m (format + 1) = CHR ''h'' then (format + 2, T_CHAR) else (format + 1, T_SHORT))
      else if m format = CHR ''j'' then (format + 1, T_INTMAX)
      else if m format = CHR ''l'' then (if m (format + 1) = CHR ''l'' then (format + 2, T_LONGLONG) else (format + 1, T_LONG))
      else if m format = CHR ''t'' then (format + 1, T_PTRDIFFT)
      else if m format = CHR ''z'' then (format + 1, T_SIZET)
      else (format, T_INT))"

definition parse_conversion :: "mem \<Rightarrow> nat \<Rightarrow> va_list \<Rightarrow> (nat \<times> printf_conversion \<times> va_list) result" where
  "parse_conversion m format args =
     rbind (of_loop (flags_loop m format no_flags)) (\<lambda>(f, c).
     rbind (parse_width m f args (exclude_flags c)) (\<lambda>(f, c, args).
     rbind (parse_precision m f args c) (\<lambda>(f, c, args).
     let (f, t) = parse_type m f in Inr (f, c\<lparr>conv_type := t\<rparr>, args))))"


subsection \<open>Integers and strings\<close>

text \<open>The digit buffer of \<^verbatim>\<open>format_integer\<close> has 64 bytes; it is filled from the last digit to the first.\<close>

definition put_digit :: "char \<Rightarrow> string \<Rightarrow> string result" where
  "put_digit ch buf = (if length buf < 64 then Inr (buf @ [ch]) else Inl Out_of_bounds)"

function digit_loop :: "integer_base \<Rightarrow> bool \<Rightarrow> nat \<Rightarrow> nat \<Rightarrow> string \<Rightarrow> string result" where
  "digit_loop b grp value digit_cnt buf =
     (if value > 0 then
        rbind (if grp \<and> digit_cnt > 0 \<and> digit_cnt mod base_group b = 0 then put_digit (CHR '','') buf else Inr buf) (\<lambda>buf.
        rbind (put_digit (base_digits b ! (value mod base b)) buf) (\<lambda>buf.
        digit_loop b grp (value div base b) (digit_cnt + 1) buf))
      else Inr buf)"
  by pat_completeness auto
termination
proof (relation "measure (\<lambda>(b, grp, value, digit_cnt, buf). value)", goal_cases)
  case (2 b grp v digit_cnt buf x xa)
  have "1 < base b" by (cases b) simp_all
  then show ?case using 2(1) by (simp add: div_less_dividend)
qed simp

declare digit_loop.simps [simp del]

definition zero_digits :: "int \<Rightarrow> string \<Rightarrow> string" where
  "zero_digits p buf = buf @ replicate (min (nat p) 63 - length buf) (CHR ''0'')"

definition output_dup :: "char \<Rightarrow> nat \<Rightarrow> (char \<Rightarrow> 's \<Rightarrow> 's result) \<Rightarrow> 's \<Rightarrow> 's result" where
  "output_dup ch cnt output s = rfold output (replicate cnt ch) s"

definition sign_char :: "bool \<Rightarrow> bool \<Rightarrow> printf_conversion \<Rightarrow> char option" where
  "sign_char is_signed negative c =
     (if is_signed then
        (if PLUS c then Some (if negative then CHR ''-'' else CHR ''+'')
         else if SPACE c then Some (if negative then CHR ''-'' else CHR '' '')
         else if negative then Some (CHR ''-'') else None)
      else None)"

definition format_integer :: "nat \<Rightarrow> bool \<Rightarrow> bool \<Rightarrow> integer_base \<Rightarrow> printf_conversion \<Rightarrow>
    (char \<Rightarrow> 's \<Rightarrow> 's result) \<Rightarrow> 's \<Rightarrow> 's result" where
  "format_integer value is_signed negative b c output s =
     (let sign = sign_char is_signed negative c;
          x = (if POUND c \<and> value > 0 then base_prefix b else None) in
      rbind (digit_loop b (GROUP c) value 0 []) (\<lambda>buf.
      let buf = zero_digits (if precision c < 0 then 1 else precision c) buf in
      rbind (if POUND c \<and> base b = 8 \<and> (buf = [] \<or> last buf \<noteq> CHR ''0'') then put_digit (CHR ''0'') buf else Inr buf) (\<lambda>buf.
      let pad_cnt = nat (width c - int (length buf) - (if x \<noteq> None then 2 else 0) - (if sign \<noteq> None then 1 else 0)) in
      rbind (if \<not> MINUS c \<and> \<not> ZERO c then output_dup (CHR '' '') pad_cnt output s else Inr s) (\<lambda>s.
      rbind (case sign of Some ch \<Rightarrow> output ch s | None \<Rightarrow> Inr s) (\<lambda>s.
      rbind (case x of Some ch \<Rightarrow> rbind (output (CHR ''0'') s) (output ch) | None \<Rightarrow> Inr s) (\<lambda>s.
      rbind (if ZERO c then output_dup (CHR ''0'') pad_cnt output s else Inr s) (\<lambda>s.
      rbind (rfold output (rev buf) s) (\<lambda>s.
      if MINUS c then output_dup (CHR '' '') pad_cnt output s else Inr s))))))))"

text \<open>\<open>str\<close> is the block of \<^verbatim>\<open>length\<close> characters at \<^verbatim>\<open>string\<close>.\<close>

definition format_string :: "string \<Rightarrow> printf_conversion \<Rightarrow> (char \<Rightarrow> 's \<Rightarrow> 's result) \<Rightarrow> 's \<Rightarrow> 's result" where
  "format_string str c output s =
     rbind (if width c > int (length str) \<and> \<not> MINUS c
            then output_dup (CHR '' '') (nat (width c - int (length str))) output s else Inr s) (\<lambda>s.
     rbind (rfold output str s) (\<lambda>s.
     if width c > int (length str) \<and> MINUS c
     then output_dup (CHR '' '') (nat (width c - int (length str))) output s else Inr s))"


subsection \<open>The format loop\<close>

text \<open>One conversion, by its letter. A letter that is not supported is reported in the output, through
  \<^verbatim>\<open>__printf\<close> with a \<^verbatim>\<open>%c\<close> conversion of its own.\<close>

definition convert :: "mem \<Rightarrow> char \<Rightarrow> printf_conversion \<Rightarrow> va_list \<Rightarrow> (char \<Rightarrow> 's \<Rightarrow> 's result) \<Rightarrow> 's \<Rightarrow> (va_list \<times> 's) result" where
  "convert m ch c args output s =
     (if ch \<in> {CHR ''d'', CHR ''i''} then
        rbind (signed_arg (conv_type c) args) (\<lambda>(value, args).
        rbind (if value < 0 then c_int64 (- value) else Inr value) (\<lambda>v.
        rbind (format_integer (nat v) True (value < 0) base_d c output s) (\<lambda>s. Inr (args, s))))
      else if ch \<in> {CHR ''o'', CHR ''u'', CHR ''x'', CHR ''X''} then
        rbind (unsigned_arg (conv_type c) args) (\<lambda>(value, args).
        let b = (if ch = CHR ''o'' then base_o else if ch = CHR ''u'' then base_d
                 else if ch = CHR ''x'' then base_x else base_X) in
        rbind (format_integer value False False b c output s) (\<lambda>s. Inr (args, s)))
      else if ch = CHR ''c'' then
        rbind (va_arg32 args) (\<lambda>(a, args).
        rbind (format_string [char_of (unat a)] c output s) (\<lambda>s. Inr (args, s)))
      else if ch = CHR ''s'' then
        rbind (va_arg32 args) (\<lambda>(a, args).
        let p = unat a; maxlen = nat (precision c mod 2 ^ 32);
            str = (if p = 0 then take maxlen ''(null)'' else map (\<lambda>i. m (p + i)) [0..<strnlen m p maxlen]) in
        rbind (format_string str c output s) (\<lambda>s. Inr (args, s)))
      else if ch = CHR ''p'' then
        rbind (va_arg32 args) (\<lambda>(a, args).
        rbind (format_integer (unat a) False False base_x
                 (c\<lparr>MINUS := False, PLUS := False, SPACE := False, POUND := True, ZERO := False, GROUP := False\<rparr>) output s)
          (\<lambda>s. Inr (args, s)))
      else if ch \<in> {CHR ''f'', CHR ''e'', CHR ''E'', CHR ''g'', CHR ''G'', CHR ''n''} then
        rbind (rfold output (''<<no %'' @ [ch] @ '' in kernel>>'') s) (\<lambda>s. Inr (args, s))
      else rbind (rfold output (''<<no %'' @ [ch] @ '' conversion>>'') s) (\<lambda>s. Inr (args, s)))"

partial_function (option) vprintf_loop :: "mem \<Rightarrow> (char \<Rightarrow> 's \<Rightarrow> 's result) \<Rightarrow> nat \<Rightarrow> va_list \<Rightarrow> 's \<Rightarrow> 's result option" where
  "vprintf_loop m output format args s =
     (if m format = NUL then Some (Inr s)
      else if m format \<noteq> CHR ''%'' then
        obind (output (m format) s) (\<lambda>s. vprintf_loop m output (format + 1) args s)
      else if m (format + 1) = CHR ''%'' then
        obind (output (CHR ''%'') s) (\<lambda>s. vprintf_loop m output (format + 2) args s)
      else obind (parse_conversion m (format + 1) args) (\<lambda>r. case r of (f, c, args) \<Rightarrow>
        obind (convert m (m f) c args output s) (\<lambda>r. case r of (args, s) \<Rightarrow>
        vprintf_loop m output (f + 1) args s)))"

definition vprintf_chars :: "mem \<Rightarrow> nat \<Rightarrow> va_list \<Rightarrow> (char \<Rightarrow> 's \<Rightarrow> 's result) \<Rightarrow> 's \<Rightarrow> 's result" where
  "vprintf_chars m format args output s = returns (vprintf_loop m output format args s)"


subsection \<open>Output to a buffer\<close>

record vsnprintf_aux =
  out :: mem
  pos :: nat
  out_len :: int
  max_length :: int

definition vsnprintf_helper :: "char \<Rightarrow> vsnprintf_aux \<Rightarrow> vsnprintf_aux result" where
  "vsnprintf_helper ch aux = rbind (c_int (out_len aux + 1)) (\<lambda>l.
     Inr (if out_len aux < max_length aux
          then aux\<lparr>out := (out aux)(pos aux := ch), pos := pos aux + 1, out_len := l\<rparr> else aux\<lparr>out_len := l\<rparr>))"

definition vsnprintf :: "mem \<Rightarrow> nat \<Rightarrow> nat \<Rightarrow> nat \<Rightarrow> va_list \<Rightarrow> (mem \<times> int) result" where
  "vsnprintf m buffer buf_size format args =
     rbind (vprintf_chars m format args vsnprintf_helper
       \<lparr>out = m, pos = buffer, out_len = 0,
        max_length = (if buf_size > 0 then sint (of_nat (buf_size - 1) :: 32 word) else 0)\<rparr>) (\<lambda>aux.
     Inr (if buf_size > 0 then (out aux)(pos aux := NUL) else out aux, out_len aux))"

definition snprintf :: "mem \<Rightarrow> nat \<Rightarrow> nat \<Rightarrow> nat \<Rightarrow> va_list \<Rightarrow> (mem \<times> int) result" where
  "snprintf m buffer buf_size format args = vsnprintf m buffer buf_size format args"


subsection \<open>Sizes\<close>

text \<open>The number and the unit that \<^verbatim>\<open>print_human_readable_size\<close> prints.\<close>

fun human_loop :: "64 word \<Rightarrow> string list \<Rightarrow> 64 word \<times> string" where
  "human_loop sz (f # g # fs) = (if sz \<ge> 1024 then human_loop (sz div 1024) (g # fs) else (sz, f))"
| "human_loop sz [f] = (sz, f)"
| "human_loop sz [] = (sz, [])"

definition print_human_readable_size :: "64 word \<Rightarrow> (char \<Rightarrow> 's \<Rightarrow> 's result) \<Rightarrow> 's \<Rightarrow> 's result" where
  "print_human_readable_size sz output s =
     (if sz = 1 then rfold output ''1 byte'' s
      else let (n, unit) = human_loop sz [''bytes'', ''kB'', ''MB'', ''GB'', ''TB''] in
        rbind (format_integer (unat n) False False base_d no_flags output s) (\<lambda>s.
        rbind (rfold output '' '' s) (\<lambda>s. format_string unit no_flags output s)))"

end
