(* ===== verification/Printf.thy ===== *)
theory Printf
  imports Stdio
begin

text \<open>
  What formatted output produces: the digit buffer of \<^verbatim>\<open>format_integer\<close> never overruns, decimal conversions
  print the decimal notation, a format renders piece by piece, and \<^verbatim>\<open>vsnprintf\<close> stays within its buffer.
\<close>

subsection \<open>Digits\<close>

lemma base_ge_8: "8 \<le> base b"
  by (cases b) simp_all

lemma put_digit_ok: "length buf < 64 \<Longrightarrow> put_digit ch buf = Inr (buf @ [ch])"
  by (simp add: put_digit_def)

lemma digit_loop_fits:
  "v < 8 ^ k \<Longrightarrow> length buf + 2 * k \<le> 64 \<Longrightarrow>
   \<exists>ds. digit_loop b grp v n buf = Inr (buf @ ds) \<and> length ds \<le> 2 * k"
proof (induction k arbitrary: v n buf)
  case 0
  then show ?case by (simp add: digit_loop.simps)
next
  case (Suc k)
  show ?case
  proof (cases "v > 0")
    case False
    then show ?thesis by (simp add: digit_loop.simps)
  next
    case True
    define buf1 where "buf1 = (if grp \<and> n > 0 \<and> n mod base_group b = 0 then buf @ [CHR '','' ] else buf)"
    define buf2 where "buf2 = buf1 @ [base_digits b ! (v mod base b)]"
    have l: "length buf1 \<le> length buf + 1" "length buf2 \<le> length buf + 2" by (simp_all add: buf1_def buf2_def)
    have "v div base b < 8 ^ k"
    proof (rule less_mult_imp_div_less)
      have "v < 8 ^ k * 8" using Suc.prems(1) by simp
      also have "\<dots> \<le> 8 ^ k * base b" using base_ge_8 by simp
      finally show "v < 8 ^ k * base b" .
    qed
    with Suc.IH [of "v div base b" buf2 "n + 1"] Suc.prems(2) l obtain ds where
      ds: "digit_loop b grp (v div base b) (n + 1) buf2 = Inr (buf2 @ ds)" "length ds \<le> 2 * k" by auto
    have "(if grp \<and> n > 0 \<and> n mod base_group b = 0 then put_digit (CHR '','') buf else Inr buf) = Inr buf1"
      using Suc.prems(2) by (simp add: buf1_def put_digit_ok)
    moreover have "put_digit (base_digits b ! (v mod base b)) buf1 = Inr buf2"
      using Suc.prems(2) l by (simp add: buf2_def put_digit_ok)
    ultimately have "digit_loop b grp v n buf = Inr (buf2 @ ds)"
      using True ds(1) by (simp add: digit_loop.simps [of b grp v])
    then show ?thesis using ds(2) by (auto simp: buf2_def buf1_def)
  qed
qed

text \<open>Every 64-bit value fits: at most 22 digits and 21 separators, in a buffer of 64 bytes.\<close>

lemma digit_loop_64: "v < 2 ^ 64 \<Longrightarrow> \<exists>ds. digit_loop b grp v 0 [] = Inr ds \<and> length ds \<le> 44"
  using digit_loop_fits [of v 22 "[]" b grp 0] by simp

lemma decimal_digit: "d < 10 \<Longrightarrow> ''0123456789'' ! d = char_of (48 + d)"
proof -
  have "list_all (\<lambda>d. ''0123456789'' ! d = char_of (48 + d)) [0..<10]" by code_simp
  then show "d < 10 \<Longrightarrow> ?thesis" by (simp add: list_all_iff)
qed

lemma decimal_digits:
  "v < 8 ^ k \<Longrightarrow> 0 < v \<Longrightarrow> length buf + 2 * k \<le> 64 \<Longrightarrow> digit_loop base_d False v n buf = Inr (buf @ rev (show_nat v))"
proof (induction k arbitrary: v n buf)
  case (Suc k)
  have dv: "v div 10 < 8 ^ k" using Suc.prems(1) by (simp add: less_mult_imp_div_less)
  have unfold: "digit_loop base_d False v n buf = digit_loop base_d False (v div 10) (n + 1) (buf @ [char_of (48 + v mod 10)])"
    using Suc.prems by (simp add: digit_loop.simps [of base_d False v] put_digit_ok decimal_digit)
  show ?case
  proof (cases "v < 10")
    case True
    then show ?thesis unfolding unfold by (simp add: digit_loop.simps show_nat.simps)
  next
    case False
    then have "0 < v div 10" by (simp add: div_greater_zero_iff)
    with Suc.IH [OF dv this, of "buf @ [char_of (48 + v mod 10)]" "n + 1"] Suc.prems(3) unfold False show ?thesis
      by (simp add: show_nat.simps [of v])
  qed
qed simp


subsection \<open>The text of a conversion\<close>

text \<open>A conversion is a sequence of output calls that does not depend on the output function.\<close>

definition integer_text :: "string \<Rightarrow> char option \<Rightarrow> char option \<Rightarrow> printf_conversion \<Rightarrow> string" where
  "integer_text buf sign x c =
     (let pad_cnt = nat (width c - int (length buf) - (if x \<noteq> None then 2 else 0) - (if sign \<noteq> None then 1 else 0)) in
      (if \<not> MINUS c \<and> \<not> ZERO c then replicate pad_cnt (CHR '' '') else [])
      @ (case sign of Some ch \<Rightarrow> [ch] | None \<Rightarrow> [])
      @ (case x of Some ch \<Rightarrow> [CHR ''0'', ch] | None \<Rightarrow> [])
      @ (if ZERO c then replicate pad_cnt (CHR ''0'') else [])
      @ rev buf @ (if MINUS c then replicate pad_cnt (CHR '' '') else []))"

definition final_digits :: "integer_base \<Rightarrow> printf_conversion \<Rightarrow> string \<Rightarrow> string" where
  "final_digits b c ds =
     (let buf = zero_digits (if precision c < 0 then 1 else precision c) ds in
      if POUND c \<and> base b = 8 \<and> (buf = [] \<or> last buf \<noteq> CHR ''0'') then buf @ [CHR ''0''] else buf)"

lemma rfold_append_fun: "rfold f (xs @ ys) = (\<lambda>s. rbind (rfold f xs s) (rfold f ys))"
  by (intro ext rfold_append)

lemma zero_digits_length: "length ds \<le> 63 \<Longrightarrow> length (zero_digits n ds) \<le> 63"
  by (simp add: zero_digits_def)

lemma format_integer_text:
  assumes "digit_loop b (GROUP c) v 0 [] = Inr ds" "length ds \<le> 44"
  shows "format_integer v is_signed negative b c output s =
    rfold output (integer_text (final_digits b c ds) (sign_char is_signed negative c)
      (if POUND c \<and> v > 0 then base_prefix b else None) c) s"
proof -
  let ?z = "zero_digits (if precision c < 0 then 1 else precision c) ds"
  have "length ?z \<le> 63" using assms(2) by (intro zero_digits_length) simp
  then have f: "(if POUND c \<and> base b = 8 \<and> (?z = [] \<or> last ?z \<noteq> CHR ''0'') then put_digit (CHR ''0'') ?z else Inr ?z) =
      Inr (final_digits b c ds)"
    by (auto simp: final_digits_def put_digit_ok Let_def)
  have stages:
    "(if P then output_dup ch n output s else Inr s) = rfold output (if P then replicate n ch else []) s"
    "(case sg of Some ch \<Rightarrow> output ch s | None \<Rightarrow> Inr s) = rfold output (case sg of Some ch \<Rightarrow> [ch] | None \<Rightarrow> []) s"
    "(case sg of Some ch' \<Rightarrow> rbind (output (CHR ''0'') s) (output ch') | None \<Rightarrow> Inr s) =
       rfold output (case sg of Some ch' \<Rightarrow> [CHR ''0'', ch'] | None \<Rightarrow> []) s" for P ch n s sg
    by (auto simp: output_dup_def rbind_def split: option.split sum.split)
  show ?thesis
    unfolding format_integer_def Let_def assms(1) rbind_Inr f integer_text_def stages rfold_append_fun ..
qed

lemma integer_text_width: "width c \<le> int (length (integer_text buf sign x c))"
  by (auto simp: integer_text_def Let_def split: option.splits)


definition string_text :: "string \<Rightarrow> printf_conversion \<Rightarrow> string" where
  "string_text str c =
     (let pad = (if width c > int (length str) then replicate (nat (width c - int (length str))) (CHR '' '') else []) in
      (if \<not> MINUS c then pad else []) @ str @ (if MINUS c then pad else []))"

lemma format_string_text: "format_string str c output s = rfold output (string_text str c) s"
  by (auto simp: format_string_def string_text_def output_dup_def rfold_append Let_def rbind_def split: sum.split)

text \<open>Plain decimal conversions print decimal notation.\<close>

lemma show_nat_nonempty: "show_nat v \<noteq> []"
  by (simp add: show_nat.simps [of v])

lemma plain_decimal:
  assumes "v < 2 ^ 64"
  shows "format_integer v sg neg base_d no_flags output s =
    rfold output ((if sg \<and> neg then ''-'' else []) @ show_nat v) s"
proof -
  have v: "v < 8 ^ 22" using assms by simp
  have d: "\<exists>ds. digit_loop base_d False v 0 [] = Inr ds \<and> length ds \<le> 44 \<and> final_digits base_d no_flags ds = rev (show_nat v)"
  proof (cases "v = 0")
    case True
    have "show_nat 0 = ''0''" by code_simp
    then show ?thesis using True by (auto simp: digit_loop.simps final_digits_def zero_digits_def no_flags_def Let_def)
  next
    case False
    then have r: "digit_loop base_d False v 0 [] = Inr (rev (show_nat v))" using decimal_digits [OF v, of "[]" 0] by simp
    moreover have "length (show_nat v) \<le> 44" using digit_loop_64 [OF assms, of base_d False] r by auto
    moreover have "1 \<le> length (show_nat v)" using show_nat_nonempty [of v] by (cases "show_nat v") simp_all
    then have "final_digits base_d no_flags (rev (show_nat v)) = rev (show_nat v)"
      by (simp add: final_digits_def zero_digits_def no_flags_def Let_def)
    ultimately show ?thesis by simp
  qed
  then obtain ds where ds: "digit_loop base_d False v 0 [] = Inr ds" "length ds \<le> 44"
    "final_digits base_d no_flags ds = rev (show_nat v)" by blast
  have g: "GROUP no_flags = False" by (simp add: no_flags_def)
  have "integer_text (rev (show_nat v)) (sign_char sg neg no_flags) None no_flags = (if sg \<and> neg then ''-'' else []) @ show_nat v"
    by (auto simp: integer_text_def sign_char_def no_flags_def Let_def)
  then show ?thesis
    using format_integer_text [of base_d no_flags v ds sg neg "output" s] ds g by (simp add: no_flags_def)
qed


subsection \<open>Rendering a format\<close>

text \<open>A format is a sequence of pieces: literal characters, \<^verbatim>\<open>%%\<close>, and the plain conversions the kernel's own
  messages use, each with the argument slots it takes.\<close>

datatype piece = Lit char | Percent | Dec "32 word" | Uns "32 word" | Chr "32 word" | Str "32 word" string

primrec fmt :: "piece \<Rightarrow> string" where
  "fmt (Lit ch) = [ch]" | "fmt Percent = ''%%''" | "fmt (Dec a) = ''%d''" | "fmt (Uns a) = ''%u''"
| "fmt (Chr a) = ''%c''" | "fmt (Str a str) = ''%s''"

primrec slots :: "piece \<Rightarrow> va_list" where
  "slots (Lit ch) = []" | "slots Percent = []" | "slots (Dec a) = [a]" | "slots (Uns a) = [a]"
| "slots (Chr a) = [a]" | "slots (Str a str) = [a]"

primrec render :: "piece \<Rightarrow> string" where
  "render (Lit ch) = [ch]" | "render Percent = ''%''" | "render (Dec a) = show_int (sint a)"
| "render (Uns a) = show_nat (unat a)" | "render (Chr a) = [char_of (unat a)]" | "render (Str a str) = str"

primrec piece_ok :: "mem \<Rightarrow> piece \<Rightarrow> bool" where
  "piece_ok m (Lit ch) \<longleftrightarrow> ch \<noteq> NUL \<and> ch \<noteq> CHR ''%''" | "piece_ok m Percent \<longleftrightarrow> True" | "piece_ok m (Dec a) \<longleftrightarrow> True"
| "piece_ok m (Uns a) \<longleftrightarrow> True" | "piece_ok m (Chr a) \<longleftrightarrow> True"
| "piece_ok m (Str a str) \<longleftrightarrow> a \<noteq> 0 \<and> cstr m (unat a) str \<and> length str < 2 ^ 32 - 1"

lemma not_digit_simps: "\<not> isdigit (schar (CHR ''d''))" "\<not> isdigit (schar (CHR ''u''))" "\<not> isdigit (schar (CHR ''c''))"
  "\<not> isdigit (schar (CHR ''s''))"
  by code_simp+

lemma parse_plain:
  assumes "m f \<in> {CHR ''d'', CHR ''u'', CHR ''c'', CHR ''s''}"
  shows "parse_conversion m f args = Inr (f, no_flags, args)"
proof -
  have "\<not> isdigit (schar (m f))" using assms not_digit_simps by auto
  then have n: "number_loop m f 0 = Some (Inr (f, 0))" by (simp add: number_loop.simps)
  have "set_flag (m f) no_flags = None" using assms by (auto simp: set_flag_def)
  then have "flags_loop m f no_flags = Some (f, no_flags)" by (simp add: flags_loop.simps)
  then show ?thesis
    using assms n
    by (auto simp: parse_conversion_def parse_width_def parse_precision_def parse_type_def exclude_flags_def no_flags_def Let_def)
qed

lemma convert_d: "convert m (CHR ''d'') no_flags (a # args) output s = rbind (rfold output (show_int (sint a)) s) (\<lambda>s. Inr (args, s))"
proof -
  have b: "- (2 ^ 31) \<le> sint a" "sint a < 2 ^ 31" using sint_greater_eq [of a] sint_less [of a] by simp_all
  have "show_int (sint a) = (if sint a < 0 then ''-'' else []) @ show_nat (nat \<bar>sint a\<bar>)" by (simp add: show_int_def)
  moreover have "format_integer (nat \<bar>sint a\<bar>) True (sint a < 0) base_d no_flags output s =
      rfold output ((if sint a < 0 then ''-'' else []) @ show_nat (nat \<bar>sint a\<bar>)) s"
    using b plain_decimal [of "nat \<bar>sint a\<bar>" True "sint a < 0" "output" s] by simp
  ultimately show ?thesis
    using b by (auto simp: convert_def signed_arg_def va_arg32_def no_flags_def c_int64_def)
qed

lemma convert_u: "convert m (CHR ''u'') no_flags (a # args) output s = rbind (rfold output (show_nat (unat a)) s) (\<lambda>s. Inr (args, s))"
proof -
  have "unat a < 2 ^ 64" using unsigned_less [where ?'a = nat, of a] by simp
  from plain_decimal [OF this, of False False "output" s] show ?thesis
    by (simp add: convert_def unsigned_arg_def va_arg32_def no_flags_def)
qed

lemma convert_c: "convert m (CHR ''c'') no_flags (a # args) output s = rbind (rfold output [char_of (unat a)] s) (\<lambda>s. Inr (args, s))"
  by (simp add: convert_def va_arg32_def format_string_text string_text_def no_flags_def Let_def)

lemma convert_s:
  assumes "a \<noteq> 0" "cstr m (unat a) str" "length str < 2 ^ 32 - 1"
  shows "convert m (CHR ''s'') no_flags (a # args) output s = rbind (rfold output str s) (\<lambda>s. Inr (args, s))"
proof -
  have "strnlen m (unat a) (2 ^ 32 - 1) = length str"
    using strnlen_loop_cstr [OF assms(2), of 0 "2 ^ 32 - 1"] assms(3) by (simp add: strnlen_def)
  moreover have "map (\<lambda>i. m (unat a + i)) [0..<length str] = str"
    using assms(2) by (intro nth_equalityI) (auto simp: cstr_iff)
  moreover have "unat a \<noteq> 0" using assms(1) by (simp add: unsigned_eq_0_iff)
  ultimately show ?thesis
    by (simp add: convert_def va_arg32_def format_string_text string_text_def no_flags_def Let_def)
qed

lemma convert_piece:
  assumes "piece_ok m q" "fmt q = [CHR ''%'', ch]" "ch \<noteq> CHR ''%''"
  shows "ch \<in> {CHR ''d'', CHR ''u'', CHR ''c'', CHR ''s''} \<and>
    convert m ch no_flags (slots q @ args) output s = rbind (rfold output (render q) s) (\<lambda>s. Inr (args, s))"
  using assms by (cases q) (auto simp: convert_d convert_u convert_c convert_s)

lemma obind_rfold: "obind (rfold output xs s) (\<lambda>s. Some (rfold output ys s)) = Some (rfold output (xs @ ys) s)"
  by (simp add: rfold_append obind_def rbind_def split: sum.split)

lemma obind_pair: "obind (rbind r (\<lambda>s. Inr (a, s))) (\<lambda>r. case r of (x, y) \<Rightarrow> F x y) = obind r (F a)"
  by (cases r) simp_all

lemma vprintf_loop_renders:
  assumes "list_all (piece_ok m) ps" "cstr m f (concat (map fmt ps))" "args = concat (map slots ps) @ rest"
  shows "vprintf_loop m output f args s = Some (rfold output (concat (map render ps)) s)"
  using assms
proof (induction ps arbitrary: f args s)
  case Nil
  then show ?case by (simp add: vprintf_loop.simps)
next
  case (Cons q ps)
  let ?out = "rfold output (concat (map render ps))"
  have ok: "piece_ok m q" using Cons.prems(1) by simp
  have IH: "vprintf_loop m output (f + length (fmt q)) (concat (map slots ps) @ rest) = (\<lambda>s. Some (?out s))"
    using Cons.prems by (intro ext Cons.IH) (auto simp: cstr_append)
  have at: "\<forall>k<length (fmt q). m (f + k) = fmt q ! k" using Cons.prems(2) by (simp add: cstr_append)
  have single: "rfold output [ch] s = output ch s" for ch s by (cases "output ch s") simp_all
  consider ch where "q = Lit ch" | "q = Percent" | ch where "fmt q = [CHR ''%'', ch]" "ch \<noteq> CHR ''%''" by (cases q) auto
  then show ?case
  proof cases
    case 1
    then have "m f = ch" "ch \<noteq> NUL" "ch \<noteq> CHR ''%''" using at ok by auto
    then have "vprintf_loop m output f args s = obind (rfold output [ch] s) (\<lambda>s. Some (?out s))"
      using 1 IH Cons.prems(3) unfolding single by (subst vprintf_loop.simps) simp
    then show ?thesis using 1 by (simp add: obind_rfold del: rfold.simps)
  next
    case 2
    then have "m f = CHR ''%''" "m (f + 1) = CHR ''%''" using at by (auto simp: All_less_Suc2 numeral_2_eq_2)
    then have "vprintf_loop m output f args s = obind (rfold output ''%'' s) (\<lambda>s. Some (?out s))"
      using 2 IH Cons.prems(3) unfolding single by (subst vprintf_loop.simps) (simp add: numeral_2_eq_2)
    then show ?thesis using 2 by (simp add: obind_rfold del: rfold.simps)
  next
    case 3
    note cp = convert_piece [OF ok 3, of "concat (map slots ps) @ rest" "output" s]
    have mf: "m f = CHR ''%''" "m (f + 1) = ch" using at 3 by (auto simp: All_less_Suc2 numeral_2_eq_2)
    have pc: "parse_conversion m (f + 1) args = Inr (f + 1, no_flags, args)" using mf cp by (intro parse_plain) simp
    have "vprintf_loop m output f args s = obind (convert m ch no_flags args output s)
        (\<lambda>r. case r of (args, s) \<Rightarrow> vprintf_loop m output (f + 2) args s)"
      using mf pc 3(2) by (subst vprintf_loop.simps) simp
    also have "\<dots> = obind (rfold output (render q) s) (\<lambda>s. Some (?out s))"
      using cp IH 3(1) Cons.prems(3) by (simp add: obind_pair numeral_2_eq_2)
    finally have "vprintf_loop m output f args s = obind (rfold output (render q) s) (\<lambda>s. Some (?out s))" .
    then show ?thesis by (simp add: obind_rfold del: rfold.simps)
  qed
qed


subsection \<open>Bounded buffers\<close>

lemma helper_fold:
  assumes "out_len aux = int n" "max_length aux = int k" "pos aux = b + min n k" "n + length cs < 2 ^ 31"
  shows "\<exists>aux'. rfold vsnprintf_helper cs aux = Inr aux' \<and> out_len aux' = int (n + length cs)
    \<and> pos aux' = b + min (n + length cs) k
    \<and> (\<forall>x. out aux' x = (if b + n \<le> x \<and> x < b + min (n + length cs) k then cs ! (x - (b + n)) else out aux x))"
  using assms
proof (induction cs arbitrary: aux n)
  case Nil
  then show ?case by auto
next
  case (Cons ch cs)
  define aux1 where "aux1 = (if n < k then aux\<lparr>out := (out aux)(b + n := ch), pos := b + n + 1, out_len := int n + 1\<rparr>
    else aux\<lparr>out_len := int n + 1\<rparr>)"
  have h: "vsnprintf_helper ch aux = Inr aux1"
    using Cons.prems by (auto simp: vsnprintf_helper_def c_int_def aux1_def)
  have "\<exists>aux'. rfold vsnprintf_helper cs aux1 = Inr aux' \<and> out_len aux' = int (Suc n + length cs)
      \<and> pos aux' = b + min (Suc n + length cs) k
      \<and> (\<forall>x. out aux' x = (if b + Suc n \<le> x \<and> x < b + min (Suc n + length cs) k then cs ! (x - (b + Suc n)) else out aux1 x))"
    using Cons.prems by (intro Cons.IH) (auto simp: aux1_def)
  then obtain aux' where aux': "rfold vsnprintf_helper cs aux1 = Inr aux'" "out_len aux' = int (Suc n + length cs)"
    "pos aux' = b + min (Suc n + length cs) k"
    "\<And>x. out aux' x = (if b + Suc n \<le> x \<and> x < b + min (Suc n + length cs) k then cs ! (x - (b + Suc n)) else out aux1 x)"
    by blast
  have "out aux' x = (if b + n \<le> x \<and> x < b + min (n + length (ch # cs)) k then (ch # cs) ! (x - (b + n)) else out aux x)" for x
  proof (cases "x \<le> b + n")
    case True
    then show ?thesis using aux'(4) [of x] by (auto simp: aux1_def)
  next
    case False
    then have "x - (b + n) = Suc (x - (b + Suc n))" by simp
    then show ?thesis using aux'(4) [of x] False by (auto simp: aux1_def)
  qed
  then show ?case using h aux'(1-3) by auto
qed

lemma sint_of_small:
  assumes "n < 2 ^ 31" shows "sint (of_nat n :: 32 word) = int n"
proof -
  have "uint (of_nat n :: 32 word) = int n" using assms by (simp add: unsigned_of_nat take_bit_nat_eq_self)
  then show ?thesis using assms by (simp add: sint_uint signed_take_bit_int_eq_self)
qed

lemma vsnprintf_writes:
  assumes r: "\<And>s. vprintf_chars m f args vsnprintf_helper s = rfold vsnprintf_helper cs s"
    and cs: "length cs < 2 ^ 31" "NUL \<notin> set cs" and sz: "0 < sz" "sz \<le> 2 ^ 31"
  shows "\<exists>m'. vsnprintf m buffer sz f args = Inr (m', int (length cs)) \<and> cstr m' buffer (take (sz - 1) cs)
    \<and> (\<forall>x. x < buffer \<or> buffer + sz \<le> x \<longrightarrow> m' x = m x)"
proof -
  have "sint (of_nat (sz - 1) :: 32 word) = int (sz - 1)" using sz by (intro sint_of_small) simp
  moreover define aux0 where "aux0 = \<lparr>out = m, pos = buffer, out_len = 0, max_length = int (sz - 1)\<rparr>"
  ultimately have v: "vsnprintf m buffer sz f args = rbind (rfold vsnprintf_helper cs aux0)
      (\<lambda>aux. Inr ((out aux)(pos aux := NUL), out_len aux))"
    using r sz by (simp add: vsnprintf_def)
  have "\<exists>aux'. rfold vsnprintf_helper cs aux0 = Inr aux' \<and> out_len aux' = int (0 + length cs)
      \<and> pos aux' = buffer + min (0 + length cs) (sz - 1)
      \<and> (\<forall>x. out aux' x = (if buffer + 0 \<le> x \<and> x < buffer + min (0 + length cs) (sz - 1) then cs ! (x - (buffer + 0)) else out aux0 x))"
    using cs(1) by (intro helper_fold) (auto simp: aux0_def)
  then obtain aux' where a: "rfold vsnprintf_helper cs aux0 = Inr aux'" "out_len aux' = int (length cs)"
    "pos aux' = buffer + min (length cs) (sz - 1)"
    "\<And>x. out aux' x = (if buffer \<le> x \<and> x < buffer + min (length cs) (sz - 1) then cs ! (x - buffer) else m x)"
    by (auto simp: aux0_def)
  define m' where "m' = (out aux')(pos aux' := NUL)"
  have "cstr m' buffer (take (sz - 1) cs)"
    using cs(2) by (auto simp: cstr_iff m'_def a(3,4) dest: in_set_takeD)
  moreover have "m' x = m x" if "x < buffer \<or> buffer + sz \<le> x" for x
    using that sz by (auto simp: m'_def a(3,4))
  moreover have "vsnprintf m buffer sz f args = Inr (m', int (length cs))" using v a(1,2) by (simp add: m'_def)
  ultimately show ?thesis by blast
qed


subsection \<open>The properties\<close>



text \<open>A number printed with \<^verbatim>\<open>%d\<close> has at most eleven characters.\<close>

lemma length_show_nat: "v < 10 ^ k \<Longrightarrow> 0 < k \<Longrightarrow> length (show_nat v) \<le> k"
proof (induction k arbitrary: v)
  case (Suc k)
  show ?case
  proof (cases "v < 10")
    case True
    then show ?thesis by (simp add: show_nat.simps)
  next
    case False
    then have "k \<noteq> 0" using Suc.prems(1) by (cases k) auto
    moreover have "v div 10 < 10 ^ k" using Suc.prems(1) by (simp add: less_mult_imp_div_less)
    ultimately show ?thesis using Suc.IH [of "v div 10"] False by (simp add: show_nat.simps [of v])
  qed
qed simp

lemma show_int_chars: "NUL \<notin> set (show_int i)"
  using show_nat_digits [of "nat \<bar>i\<bar>"] digit_not_NUL by (auto simp: show_int_def list_all_iff split: if_splits)

lemma length_show_int:
  assumes "- (2 ^ 31) \<le> i" "i < 2 ^ 31" shows "length (show_int i) \<le> 11"
proof -
  have "length (show_nat (nat \<bar>i\<bar>)) \<le> 10" using assms by (intro length_show_nat) simp_all
  then show ?thesis by (auto simp: show_int_def)
qed





text \<open>C38. A format that ends in a lone \<^verbatim>\<open>%\<close> is read past its end: the terminating null byte is taken for a
  conversion letter and reported, and the loop goes on with the byte behind it.\<close>

theorem trailing_percent_overruns:
  assumes "m f = CHR ''%''" "m (f + 1) = NUL"
  shows "vprintf_loop m output f args s =
    obind (rfold output (''<<no %'' @ [NUL] @ '' conversion>>'') s) (\<lambda>s. vprintf_loop m output (f + 2) args s)"
proof -
  have "\<not> isdigit (schar NUL)" by code_simp
  then have n: "number_loop m (f + 1) 0 = Some (Inr (f + 1, 0))" using assms(2) by (simp add: number_loop.simps)
  have "flags_loop m (f + 1) no_flags = Some (f + 1, no_flags)" using assms(2) by (simp add: flags_loop.simps set_flag_def)
  then have "parse_conversion m (f + 1) args = Inr (f + 1, no_flags, args)"
    using n assms(2) by (simp add: parse_conversion_def parse_width_def parse_precision_def parse_type_def exclude_flags_def no_flags_def Let_def)
  moreover have "convert m NUL no_flags args output s = rbind (rfold output (''<<no %'' @ [NUL] @ '' conversion>>'') s) (\<lambda>s. Inr (args, s))"
    by (simp add: convert_def del: rfold.simps)
  ultimately have "vprintf_loop m output f args s = obind (rbind (rfold output (''<<no %'' @ [NUL] @ '' conversion>>'') s) (\<lambda>s. Inr (args, s)))
      (\<lambda>r. case r of (args, s) \<Rightarrow> vprintf_loop m output (f + 1 + 1) args s)"
    using assms by (subst vprintf_loop.simps) (simp del: rfold.simps)
  then show ?thesis unfolding obind_pair by (simp add: numeral_2_eq_2)
qed


theorem trailing_percent_overruns_witness:
  "vprintf_loop (put_string 30 ''%'' (put_string 32 ''X'' (\<lambda>_. NUL))) (\<lambda>ch s. Inr (s @ [ch])) 30 [] [] =
     Some (Inr (''<<no %'' @ [NUL] @ '' conversion>>X''))"
proof -
  let ?m = "put_string 30 ''%'' (put_string 32 ''X'' (\<lambda>_. NUL))"
  have "?m 30 = CHR ''%''" "?m (30 + 1) = NUL" "?m 32 = CHR ''X''" "?m 33 = NUL" by (simp_all add: put_string_def)
  then show ?thesis
    using trailing_percent_overruns [of ?m 30 "\<lambda>ch s. Inr (s @ [ch])" "[]" "[]"]
    by (simp add: vprintf_loop.simps [of ?m _ 32] vprintf_loop.simps [of ?m _ 33])
qed

subsection \<open>Well-formed conversions\<close>

lemma number_loop_bounds:
  assumes "number_loop m f v = Some (Inr (f', v'))" "0 \<le> v" "v < 2 ^ 31" shows "0 \<le> v' \<and> v' < 2 ^ 31"
proof -
  have "0 \<le> v \<longrightarrow> v < 2 ^ 31 \<longrightarrow> (\<forall>f' v'. r = Inr (f', v') \<longrightarrow> 0 \<le> v' \<and> v' < 2 ^ 31)" if "number_loop m f v = Some r" for r
  proof (rule number_loop.raw_induct [OF _ that, where P = "\<lambda>m f v r. 0 \<le> v \<longrightarrow> v < 2 ^ 31 \<longrightarrow> (\<forall>f' v'. r = Inr (f', v') \<longrightarrow> 0 \<le> v' \<and> v' < 2 ^ 31)"], goal_cases)
    case (1 nl m f v r)
    show ?case
    proof (cases "isdigit (schar (m f))")
      case True
      then have d: "48 \<le> schar (m f)" "schar (CHR ''0'') = 48" by (simp_all add: isdigit_def schar_def)
      let ?y = "v * 10 + schar (m f) - 48"
      show ?thesis
      proof (cases "- (2 ^ 31) \<le> v * 10 \<and> v * 10 < 2 ^ 31 \<and> v * 10 + schar (m f) < 2 ^ 31 \<and> 0 \<le> v")
        case small: True
        then have "nl m (f + 1) ?y = Some r" "0 \<le> ?y" "?y < 2 ^ 31" using 1(2) True d by (simp_all add: c_int_def)
        then show ?thesis using 1(1) by blast
      next
        case False
        then have "v < 0 \<or> r = Inl Signed_overflow" using 1(2) True d by (cases "0 \<le> v"; cases "v * 10 < 2 ^ 31") (auto simp: c_int_def)
        then show ?thesis by auto
      qed
    next
      case False
      then show ?thesis using 1 by auto
    qed
  qed
  then show ?thesis using assms by blast
qed

lemma parse_width_wf:
  assumes "parse_width m f args c = Inr (f', c', args')"
  shows "0 \<le> width c' \<and> width c' < 2 ^ 31 \<and> PLUS c' = PLUS c \<and> SPACE c' = SPACE c \<and> ZERO c' = ZERO c
    \<and> (MINUS c' \<longrightarrow> MINUS c \<or> (\<exists>a as. args = a # as \<and> sint a < 0))"
proof -
  consider (star) a as where "m f = CHR ''*''" "args = a # as" | (digits) g v where "m f \<noteq> CHR ''*''" "number_loop m f 0 = Some (Inr (g, v))"
    using assms by (auto simp: parse_width_def va_arg32_def returns_def rbind_def split: if_splits list.splits option.splits sum.splits)
  then show ?thesis
  proof cases
    case star
    then show ?thesis using assms sint_less [of a] 
      by (auto simp: parse_width_def va_arg32_def c_int_def split: if_splits)
  next
    case digits
    then show ?thesis using assms number_loop_bounds [OF digits(2)] by (auto simp: parse_width_def)
  qed
qed

lemma parse_precision_wf:
  assumes "parse_precision m f args c = Inr (f', c', args')"
  shows "- 1 \<le> precision c' \<and> precision c' < 2 ^ 31 \<and> width c' = width c \<and> PLUS c' = PLUS c \<and> SPACE c' = SPACE c
    \<and> MINUS c' = MINUS c \<and> (ZERO c' \<longrightarrow> ZERO c \<and> precision c' = - 1)"
  using assms number_loop_bounds [of m "f + 1" 0] sint_less [of "hd args"]
  by (auto simp: parse_precision_def va_arg32_def returns_def rbind_def Let_def split: if_splits list.splits option.splits sum.splits)

text \<open>C40. What a conversion specification is parsed to is well formed: the width is not negative, the precision is
  not negative or the value -1 that stands for none, and the flags that the standard declares incompatible
  are never set together: plus with space, and zero with a precision. The flags minus and zero exclude
  each other too, but for one case that the code misses: a negative width argument sets minus after zero has been examined.\<close>

theorem parse_conversion_wf:
  assumes "parse_conversion m f args = Inr (f', c, args')"
  shows "0 \<le> width c \<and> width c < 2 ^ 31 \<and> - 1 \<le> precision c \<and> precision c < 2 ^ 31
    \<and> \<not> (PLUS c \<and> SPACE c) \<and> (ZERO c \<longrightarrow> precision c = - 1)
    \<and> (MINUS c \<and> ZERO c \<longrightarrow> (\<exists>a as. args = a # as \<and> sint a < 0))"
proof -
  obtain g c0 g1 c1 as1 g2 c2 where w: "parse_width m g args (exclude_flags c0) = Inr (g1, c1, as1)"
    and p: "parse_precision m g1 as1 c1 = Inr (g2, c2, args')" and c: "c = c2\<lparr>conv_type := snd (parse_type m g2)\<rparr>"
    using assms by (auto simp: parse_conversion_def rbind_eq_Inr Let_def case_prod_beta)
  have "\<not> (PLUS (exclude_flags c0) \<and> SPACE (exclude_flags c0))" "\<not> (MINUS (exclude_flags c0) \<and> ZERO (exclude_flags c0))"
    by (simp_all add: exclude_flags_def Let_def)
  then show ?thesis using parse_width_wf [OF w] parse_precision_wf [OF p] by (simp add: c) blast
qed

theorem parse_conversion_wf_witness:
  "\<exists>c. parse_conversion (put_string 16 ''0*d'' (\<lambda>_. NUL)) 16 [- 5] = Inr (18, c, []) \<and> MINUS c \<and> ZERO c \<and> 0 \<le> width c"
proof -
  let ?m = "put_string 16 ''0*d'' (\<lambda>_. NUL)"
  let ?c = "no_flags\<lparr>ZERO := True, width := 5, MINUS := True\<rparr>"
  have "flags_loop ?m 17 c = Some (17, c)" for c by (subst flags_loop.simps) (simp add: put_string_def set_flag_def)
  then have "flags_loop ?m 16 no_flags = Some (17, no_flags\<lparr>ZERO := True\<rparr>)"
    by (subst flags_loop.simps) (simp add: put_string_def set_flag_def)
  then have p: "parse_conversion ?m 16 [- 5] = Inr (18, ?c, [])"
    by (simp add: parse_conversion_def exclude_flags_def parse_width_def va_arg32_def parse_precision_def parse_type_def
        put_string_def no_flags_def c_int_def Let_def)
  from parse_conversion_wf [OF p] p show ?thesis by (intro exI [of _ ?c]) simp
qed

end
