(* ===== verification/Hash.thy ===== *)
theory Hash
  imports C_String
begin

unbundle bit_operations_syntax

text \<open>
  Hash tables, \<^verbatim>\<open>lib/kernel/hash.c\<close>. An element is the address of its \<^verbatim>\<open>struct hash_elem\<close>; the hash and the
  comparison function of the table are fields of its record, with the auxiliary pointer already
  applied. A bucket is the sequence of elements of its list: the links of the lists are the business of
  \<^verbatim>\<open>list.c\<close>, whose operations are shown elsewhere to be the operations on sequences used here. Whether
  \<^verbatim>\<open>malloc\<close> finds room for a new array of buckets is an argument of the operations that call it.
\<close>

subsection \<open>The table\<close>

record hash =
  elem_cnt :: nat
  bucket_cnt :: nat
  buckets :: "nat list list"
  hash_func :: "nat \<Rightarrow> 32 word"
  less_func :: "nat \<Rightarrow> nat \<Rightarrow> bool"

definition find_bucket :: "hash \<Rightarrow> nat \<Rightarrow> nat" where
  "find_bucket h e = unat (hash_func h e AND (of_nat (bucket_cnt h) - 1))"

definition equal_elem :: "hash \<Rightarrow> nat \<Rightarrow> nat \<Rightarrow> bool" where
  "equal_elem h hi e \<longleftrightarrow> \<not> less_func h hi e \<and> \<not> less_func h e hi"

definition find_elem :: "hash \<Rightarrow> nat \<Rightarrow> nat \<Rightarrow> nat option" where
  "find_elem h bucket e = find (\<lambda>hi. equal_elem h hi e) (buckets h ! bucket)"

definition insert_elem :: "hash \<Rightarrow> nat \<Rightarrow> nat \<Rightarrow> hash" where
  "insert_elem h bucket e =
     h\<lparr>elem_cnt := size_t (elem_cnt h + 1), buckets := (buckets h)[bucket := e # buckets h ! bucket]\<rparr>"

definition remove_elem :: "hash \<Rightarrow> nat \<Rightarrow> hash" where
  "remove_elem h e = h\<lparr>elem_cnt := size_t (elem_cnt h + (2 ^ 32 - 1)), buckets := map (remove1 e) (buckets h)\<rparr>"


subsection \<open>Resizing\<close>

definition turn_off_least_1bit :: "32 word \<Rightarrow> 32 word" where
  "turn_off_least_1bit x = x AND (x - 1)"

definition is_power_of_2 :: "32 word \<Rightarrow> bool" where
  "is_power_of_2 x \<longleftrightarrow> x \<noteq> 0 \<and> turn_off_least_1bit x = 0"

definition BEST_ELEMS_PER_BUCKET :: nat where
  "BEST_ELEMS_PER_BUCKET = 2"

partial_function (option) power_loop :: "32 word \<Rightarrow> 32 word option" where
  "power_loop n = (if is_power_of_2 n then Some n else power_loop (turn_off_least_1bit n))"

definition best_bucket_cnt :: "nat \<Rightarrow> nat result" where
  "best_bucket_cnt n =
     (let cnt = n div BEST_ELEMS_PER_BUCKET; cnt = (if cnt < 4 then 4 else cnt) in
      rbind (of_loop (power_loop (of_nat cnt))) (\<lambda>w. Inr (unat w)))"

definition move_elem :: "nat \<Rightarrow> hash \<Rightarrow> hash" where
  "move_elem e h = (let new_bucket = find_bucket h e in
     h\<lparr>buckets := (buckets h)[new_bucket := e # buckets h ! new_bucket]\<rparr>)"

definition rehash :: "bool \<Rightarrow> hash \<Rightarrow> hash result" where
  "rehash room h = rbind (best_bucket_cnt (elem_cnt h)) (\<lambda>new_bucket_cnt.
     if new_bucket_cnt = bucket_cnt h \<or> \<not> room then Inr h
     else Inr (fold move_elem (concat (buckets h))
                 (h\<lparr>buckets := replicate new_bucket_cnt [], bucket_cnt := new_bucket_cnt\<rparr>)))"


subsection \<open>Operations\<close>

definition hash_clear :: "hash \<Rightarrow> (nat \<Rightarrow> 's \<Rightarrow> 's) option \<Rightarrow> 's \<Rightarrow> hash \<times> 's" where
  "hash_clear h destructor s =
     (h\<lparr>elem_cnt := 0, buckets := replicate (bucket_cnt h) []\<rparr>,
      case destructor of None \<Rightarrow> s | Some d \<Rightarrow> fold d (concat (buckets h)) s)"

definition hash_init :: "bool \<Rightarrow> (nat \<Rightarrow> 32 word) \<Rightarrow> (nat \<Rightarrow> nat \<Rightarrow> bool) \<Rightarrow> hash option" where
  "hash_init room hf lt =
     (if room then
        Some (fst (hash_clear \<lparr>elem_cnt = 0, bucket_cnt = 4, buckets = [], hash_func = hf, less_func = lt\<rparr> None ()))
      else None)"

definition hash_destroy :: "hash \<Rightarrow> (nat \<Rightarrow> 's \<Rightarrow> 's) option \<Rightarrow> 's \<Rightarrow> 's" where
  "hash_destroy h destructor s = (case destructor of None \<Rightarrow> s | Some d \<Rightarrow> snd (hash_clear h destructor s))"

definition hash_find :: "hash \<Rightarrow> nat \<Rightarrow> nat option" where
  "hash_find h e = find_elem h (find_bucket h e) e"

definition hash_insert :: "bool \<Rightarrow> hash \<Rightarrow> nat \<Rightarrow> (nat option \<times> hash) result" where
  "hash_insert room h new =
     (let bucket = find_bucket h new; old = find_elem h bucket new;
          h = (if old = None then insert_elem h bucket new else h) in
      rbind (rehash room h) (\<lambda>h. Inr (old, h)))"

definition hash_replace :: "bool \<Rightarrow> hash \<Rightarrow> nat \<Rightarrow> (nat option \<times> hash) result" where
  "hash_replace room h new =
     (let bucket = find_bucket h new; old = find_elem h bucket new;
          h = (case old of Some o' \<Rightarrow> remove_elem h o' | None \<Rightarrow> h);
          h = insert_elem h bucket new in
      rbind (rehash room h) (\<lambda>h. Inr (old, h)))"

definition hash_delete :: "bool \<Rightarrow> hash \<Rightarrow> nat \<Rightarrow> (nat option \<times> hash) result" where
  "hash_delete room h e =
     (case find_elem h (find_bucket h e) e of
        Some found \<Rightarrow> rbind (rehash room (remove_elem h found)) (\<lambda>h. Inr (Some found, h))
      | None \<Rightarrow> Inr (None, h))"

definition hash_apply :: "hash \<Rightarrow> (nat \<Rightarrow> 's \<Rightarrow> 's) \<Rightarrow> 's \<Rightarrow> 's" where
  "hash_apply h action s = fold action (concat (buckets h)) s"

definition hash_size :: "hash \<Rightarrow> nat" where
  "hash_size h = elem_cnt h"

definition hash_empty :: "hash \<Rightarrow> bool" where
  "hash_empty h \<longleftrightarrow> elem_cnt h = 0"


subsection \<open>Iteration\<close>

text \<open>An iterator stands at the head of its bucket's list, at an element, or at the end of the table, where
  \<^verbatim>\<open>hash_cur\<close> is a null pointer.\<close>

datatype place = At_head | At_elem nat | At_end

record hash_iterator =
  it_bucket :: nat
  it_elem :: place

fun elem_after :: "nat \<Rightarrow> nat list \<Rightarrow> nat option" where
  "elem_after e [] = None"
| "elem_after e [x] = None"
| "elem_after e (x # y # zs) = (if x = e then Some y else elem_after e (y # zs))"

definition list_next_of :: "nat list \<Rightarrow> place \<Rightarrow> nat option" where
  "list_next_of xs pl = (case pl of
     At_head \<Rightarrow> (case xs of [] \<Rightarrow> None | x # _ \<Rightarrow> Some x)
   | At_elem e \<Rightarrow> elem_after e xs
   | At_end \<Rightarrow> None)"

definition hash_first :: "hash \<Rightarrow> hash_iterator" where
  "hash_first h = \<lparr>it_bucket = 0, it_elem = At_head\<rparr>"

function skip_buckets :: "hash \<Rightarrow> nat \<Rightarrow> nat option \<Rightarrow> hash_iterator" where
  "skip_buckets h b x = (case x of
     Some e \<Rightarrow> \<lparr>it_bucket = b, it_elem = At_elem e\<rparr>
   | None \<Rightarrow>
      if b + 1 \<ge> bucket_cnt h then \<lparr>it_bucket = b + 1, it_elem = At_end\<rparr>
      else skip_buckets h (b + 1) (list_next_of (buckets h ! (b + 1)) At_head))"
  by pat_completeness auto
termination
  by (relation "measure (\<lambda>(h, b, x). bucket_cnt h - b)") auto

declare skip_buckets.simps [simp del]

definition hash_next :: "hash \<Rightarrow> hash_iterator \<Rightarrow> hash_iterator" where
  "hash_next h i = skip_buckets h (it_bucket i) (list_next_of (buckets h ! it_bucket i) (it_elem i))"

definition hash_cur :: "hash_iterator \<Rightarrow> nat option" where
  "hash_cur i = (case it_elem i of At_elem e \<Rightarrow> Some e | _ \<Rightarrow> None)"


subsection \<open>Hash functions\<close>

definition FNV_32_PRIME :: "32 word" where "FNV_32_PRIME = 16777619"
definition FNV_32_BASIS :: "32 word" where "FNV_32_BASIS = 2166136261"

definition fnv_step :: "char \<Rightarrow> 32 word \<Rightarrow> 32 word" where
  "fnv_step c hv = (hv * FNV_32_PRIME) XOR of_nat (uchar c)"

definition hash_bytes :: "mem \<Rightarrow> nat \<Rightarrow> nat \<Rightarrow> 32 word result" where
  "hash_bytes m buf sz = c_assert (buf \<noteq> 0) (Inr (fold fnv_step (map (\<lambda>i. m (buf + i)) [0..<sz]) FNV_32_BASIS))"

partial_function (option) hash_string_loop :: "mem \<Rightarrow> nat \<Rightarrow> 32 word \<Rightarrow> 32 word option" where
  "hash_string_loop m s hv = (if m s \<noteq> NUL then hash_string_loop m (s + 1) (fnv_step (m s) hv) else Some hv)"

definition hash_string :: "mem \<Rightarrow> nat \<Rightarrow> 32 word result" where
  "hash_string m s = c_assert (s \<noteq> 0) (of_loop (hash_string_loop m s FNV_32_BASIS))"

definition hash_int :: "32 word \<Rightarrow> 32 word" where
  "hash_int i = fold fnv_step (map (\<lambda>k. char_of (unat (drop_bit (8 * k) i))) [0..<4]) FNV_32_BASIS"


subsection \<open>The number of buckets\<close>

lemma bit_top:
  assumes "2 ^ k \<le> n" "n < 2 ^ (k + 1)" shows "bit (n :: nat) k"
proof -
  have "n div 2 ^ k = 1" using assms by (simp add: div_nat_eqI)
  then show ?thesis by (simp add: bit_iff_odd)
qed

lemma bit_le: "bit (n :: nat) k \<Longrightarrow> 2 ^ k \<le> n"
  by (rule ccontr) (simp add: bit_iff_odd not_le)

lemma unat_pow: "k < 32 \<Longrightarrow> unat (2 ^ k :: 32 word) = 2 ^ k"
proof -
  assume "k < 32"
  then have "(2 :: nat) ^ k < 2 ^ 32" by (intro power_strict_increasing) simp_all
  then have "unat (of_nat (2 ^ k) :: 32 word) = 2 ^ k" by (simp add: unat_of_nat take_bit_nat_eq_self del: of_nat_power)
  then show ?thesis by simp
qed

lemma power_loop_ok:
  "2 ^ k \<le> unat n \<Longrightarrow> unat n < 2 ^ (k + 1) \<Longrightarrow> power_loop n = Some (2 ^ k)"
proof (induction "unat n" arbitrary: n rule: less_induct)
  case less
  have n32: "unat n < 2 ^ 32" using unsigned_less [where ?'a = nat, of n] by simp
  have "(2 :: nat) ^ k < 2 ^ 32" using less.prems(1) n32 by linarith
  then have k: "k < 32" by (rule power_less_imp_less_exp [rotated]) simp
  have n0: "n \<noteq> 0" using less.prems(1) by auto
  have pred: "unat (n - 1) = unat n - 1" using n0 by (simp add: unat_minus_one)
  show ?case
  proof (cases "unat n = 2 ^ k")
    case True
    then have n: "n = 2 ^ k" using k by (simp add: word_unat_eq_iff unat_pow)
    have "n AND (n - 1) = 0"
      unfolding n mask_eq_exp_minus_1 [symmetric] by (rule bit_word_eqI) (auto simp: bit_and_iff bit_mask_iff bit_exp_iff)
    then show ?thesis using n0 n by (simp add: power_loop.simps is_power_of_2_def turn_off_least_1bit_def)
  next
    case False
    then have lt: "2 ^ k < unat n" using less.prems(1) by simp
    define n' where "n' = turn_off_least_1bit n"
    have "bit (unat n) k" using less.prems by (rule bit_top)
    moreover have "bit (unat n - 1) k" using lt less.prems(2) by (intro bit_top) auto
    ultimately have b: "bit (unat n') k"
      by (simp add: n'_def turn_off_least_1bit_def unsigned_and_eq bit_and_iff pred)
    have le: "unat n' \<le> unat n - 1"
      using word_and_le1 [of n "n - 1"] pred by (simp add: n'_def turn_off_least_1bit_def word_le_nat_alt)
    have "n' \<noteq> 0" using b by auto
    then have "power_loop n = power_loop n'" by (subst power_loop.simps) (simp add: is_power_of_2_def n'_def)
    moreover have "power_loop n' = Some (2 ^ k)"
      using le lt bit_le [OF b] less.prems(2) by (intro less.hyps) auto
    ultimately show ?thesis by simp
  qed
qed

lemma best_bucket_cnt_ok:
  assumes "n < 2 ^ 32"
  shows "\<exists>k. best_bucket_cnt n = Inr (2 ^ k) \<and> 2 \<le> k \<and> k \<le> 31"
proof -
  define c where "c = (if n div 2 < 4 then 4 else n div 2)"
  have c: "4 \<le> c" "c < 2 ^ 31" using assms by (auto simp: c_def)
  obtain k where k: "2 ^ k \<le> c" "c < 2 ^ (k + 1)" using ex_power_ivl1 [of 2 c] c by auto
  have "(2 :: nat) ^ 2 < 2 ^ (k + 1)" using c(1) k(2) by simp
  then have "2 < k + 1" by (rule power_less_imp_less_exp [rotated]) simp
  moreover have "(2 :: nat) ^ k < 2 ^ 31" using c(2) k(1) by linarith
  then have k31: "k < 31" by (rule power_less_imp_less_exp [rotated]) simp
  moreover have "unat (of_nat c :: 32 word) = c" using c(2) by (simp add: unat_of_nat take_bit_nat_eq_self)
  then have "power_loop (of_nat c) = Some (2 ^ k)" using k by (intro power_loop_ok) simp_all
  moreover have "unat (2 ^ k :: 32 word) = 2 ^ k" using k31 by (simp add: unat_pow)
  ultimately show ?thesis
    by (intro exI [of _ k]) (simp add: best_bucket_cnt_def BEST_ELEMS_PER_BUCKET_def Let_def c_def [symmetric])
qed


subsection \<open>Well-formed tables\<close>

definition elems :: "hash \<Rightarrow> nat list" where
  "elems h = concat (buckets h)"

text \<open>What \<^verbatim>\<open>hash.h\<close> asks of the functions of a table: equality by the comparison function is an equivalence,
  and equal elements have equal hash values.\<close>

definition hash_law :: "hash \<Rightarrow> bool" where
  "hash_law h \<longleftrightarrow> (\<forall>a. equal_elem h a a) \<and> (\<forall>a b c. equal_elem h a b \<and> equal_elem h b c \<longrightarrow> equal_elem h a c)
     \<and> (\<forall>a b. equal_elem h a b \<longrightarrow> hash_func h a = hash_func h b)"

definition same_funcs :: "hash \<Rightarrow> hash \<Rightarrow> bool" where
  "same_funcs h h' \<longleftrightarrow> hash_func h' = hash_func h \<and> less_func h' = less_func h"

definition shape_ok :: "hash \<Rightarrow> bool" where
  "shape_ok h \<longleftrightarrow> (\<exists>k. bucket_cnt h = 2 ^ k \<and> 2 \<le> k \<and> k \<le> 31) \<and> length (buckets h) = bucket_cnt h
     \<and> (\<forall>i<bucket_cnt h. \<forall>e \<in> set (buckets h ! i). find_bucket h e = i)"

definition keys_ok :: "hash \<Rightarrow> bool" where
  "keys_ok h \<longleftrightarrow> distinct (elems h) \<and> set (elems h) \<subseteq> {1..<2 ^ 32}
     \<and> (\<forall>a \<in> set (elems h). \<forall>b \<in> set (elems h). equal_elem h a b \<longrightarrow> a = b)"

definition hash_ok :: "hash \<Rightarrow> bool" where
  "hash_ok h \<longleftrightarrow> hash_law h \<and> shape_ok h \<and> keys_ok h \<and> elem_cnt h = length (elems h)"

lemma same_funcs_equal: "same_funcs h h' \<Longrightarrow> equal_elem h' = equal_elem h"
  by (intro ext) (simp add: same_funcs_def equal_elem_def)

lemma same_funcs_law: "same_funcs h h' \<Longrightarrow> hash_law h' = hash_law h"
  by (simp add: hash_law_def same_funcs_equal) (simp add: same_funcs_def)

lemma find_bucket_less:
  assumes "bucket_cnt h = 2 ^ k" "k \<le> 31" shows "find_bucket h e < bucket_cnt h"
proof -
  have "(of_nat (2 ^ k) :: 32 word) - 1 = mask k" by (simp add: mask_eq_exp_minus_1)
  then have "find_bucket h e = unat (take_bit k (hash_func h e))"
    using assms(1) by (simp add: find_bucket_def take_bit_eq_mask)
  also have "\<dots> < 2 ^ k" using assms(2) by (simp add: unsigned_take_bit_eq)
  finally show ?thesis using assms(1) by simp
qed

lemma shape_find_bucket: "shape_ok h \<Longrightarrow> find_bucket h e < length (buckets h)"
  using find_bucket_less by (auto simp: shape_ok_def)

lemma in_elems: "x \<in> set (elems h) \<longleftrightarrow> (\<exists>i<length (buckets h). x \<in> set (buckets h ! i))"
  unfolding elems_def set_concat by (metis UN_iff in_set_conv_nth)

lemma elem_in_bucket:
  "shape_ok h \<Longrightarrow> x \<in> set (elems h) \<Longrightarrow> x \<in> set (buckets h ! find_bucket h x)"
  by (auto simp: in_elems shape_ok_def)

text \<open>Finding: exactly the elements equal to the key are found.\<close>

lemma find_elem_ok:
  assumes ok: "hash_ok h"
  shows "hash_find h e = Some x \<longleftrightarrow> x \<in> set (elems h) \<and> equal_elem h x e"
proof
  assume "hash_find h e = Some x"
  then have "x \<in> set (buckets h ! find_bucket h e)" "equal_elem h x e"
    by (auto simp: hash_find_def find_elem_def find_Some_iff in_set_conv_nth)
  then show "x \<in> set (elems h) \<and> equal_elem h x e"
    using shape_find_bucket [of h e] ok by (auto simp: in_elems hash_ok_def)
next
  assume x: "x \<in> set (elems h) \<and> equal_elem h x e"
  then have "hash_func h x = hash_func h e" using ok unfolding hash_ok_def hash_law_def by blast
  then have "find_bucket h x = find_bucket h e" by (simp add: find_bucket_def)
  then have b: "x \<in> set (buckets h ! find_bucket h e)" using elem_in_bucket [of h x] x ok by (simp add: hash_ok_def)
  then have "hash_find h e \<noteq> None" using x unfolding hash_find_def find_elem_def find_None_iff by blast
  then obtain y where y: "hash_find h e = Some y" by auto
  then have "y \<in> set (buckets h ! find_bucket h e)" "equal_elem h y e"
    by (auto simp: hash_find_def find_elem_def find_Some_iff in_set_conv_nth)
  moreover have "y \<in> set (elems h)"
    using calculation(1) shape_find_bucket [of h e] ok by (auto simp: in_elems hash_ok_def)
  moreover have "equal_elem h e x" using x by (simp add: equal_elem_def)
  ultimately have "equal_elem h y x" using ok unfolding hash_ok_def hash_law_def by blast
  then have "y = x" using ok x \<open>y \<in> set (elems h)\<close> by (simp add: hash_ok_def keys_ok_def)
  then show "hash_find h e = Some x" using y by simp
qed

lemma find_elem_None:
  "hash_ok h \<Longrightarrow> hash_find h e = None \<longleftrightarrow> (\<forall>x \<in> set (elems h). \<not> equal_elem h x e)"
  using find_elem_ok by (metis not_None_eq)


subsection \<open>Updates\<close>

lemma mset_update_bucket:
  "i < length bs \<Longrightarrow> mset (concat (bs[i := e # bs ! i])) = add_mset e (mset (concat bs))"
proof (induction bs arbitrary: i)
  case (Cons b bs)
  then show ?case by (cases i) auto
qed simp

lemma move_elem_ok:
  fixes es :: "nat list"
  assumes "length (buckets h) = bucket_cnt h" "bucket_cnt h = 2 ^ k" "k \<le> 31"
    and "\<forall>i<bucket_cnt h. \<forall>e \<in> set (buckets h ! i). find_bucket h e = i"
  shows "let h' = fold move_elem es h in length (buckets h') = bucket_cnt h' \<and> bucket_cnt h' = bucket_cnt h \<and> same_funcs h h' \<and> elem_cnt h' = elem_cnt h
    \<and> (\<forall>i<bucket_cnt h'. \<forall>e \<in> set (buckets h' ! i). find_bucket h' e = i) \<and> mset (elems h') = mset es + mset (elems h)"
  using assms unfolding Let_def
proof (induction es arbitrary: h)
  case Nil
  then show ?case by (simp add: same_funcs_def)
next
  case (Cons e es)
  let ?h = "move_elem e h"
  have l: "find_bucket h e < length (buckets h)" using find_bucket_less [of h k e] Cons.prems(1-3) by simp
  have fb: "find_bucket ?h x = find_bucket h x" for x by (simp add: move_elem_def find_bucket_def Let_def)
  have "\<forall>i<bucket_cnt ?h. \<forall>x \<in> set (buckets ?h ! i). find_bucket ?h x = i"
    unfolding fb using Cons.prems l by (auto simp: move_elem_def Let_def nth_list_update)
  moreover have "mset (elems ?h) = add_mset e (mset (elems h))"
    using mset_update_bucket [OF l] by (simp add: elems_def move_elem_def Let_def)
  moreover have "length (buckets ?h) = bucket_cnt ?h" "bucket_cnt ?h = bucket_cnt h" "same_funcs h ?h" "elem_cnt ?h = elem_cnt h"
    using Cons.prems by (simp_all add: move_elem_def Let_def same_funcs_def)
  ultimately show ?case using Cons.IH [of ?h] Cons.prems by (auto simp: same_funcs_def)
qed

lemma rehash_ok:
  assumes "shape_ok h" "elem_cnt h < 2 ^ 32"
  shows "\<exists>h'. rehash room h = Inr h' \<and> shape_ok h' \<and> same_funcs h h' \<and> elem_cnt h' = elem_cnt h \<and> mset (elems h') = mset (elems h)"
proof -
  obtain k where k: "best_bucket_cnt (elem_cnt h) = Inr (2 ^ k)" "2 \<le> k" "k \<le> 31" using best_bucket_cnt_ok [OF assms(2)] by blast
  show ?thesis
  proof (cases "2 ^ k = bucket_cnt h \<or> \<not> room")
    case True
    then show ?thesis using k assms(1) by (auto simp: rehash_def same_funcs_def)
  next
    case False
    define h0 where "h0 = h\<lparr>buckets := replicate (2 ^ k) [], bucket_cnt := 2 ^ k\<rparr>"
    have r: "rehash room h = Inr (fold move_elem (concat (buckets h)) h0)" using False k(1) by (simp add: rehash_def h0_def)
    have "elems h0 = []" by (simp add: elems_def h0_def)
    moreover have "\<forall>i<bucket_cnt h0. \<forall>e \<in> set (buckets h0 ! i). find_bucket h0 e = i" "length (buckets h0) = bucket_cnt h0"
      "bucket_cnt h0 = 2 ^ k" "same_funcs h h0" "elem_cnt h0 = elem_cnt h" by (simp_all add: h0_def same_funcs_def)
    ultimately show ?thesis
      using move_elem_ok [of h0 k "concat (buckets h)"] k(2,3) r
      unfolding Let_def elems_def [symmetric] shape_ok_def same_funcs_def by simp
  qed
qed

lemma keys_ok_mset: "same_funcs h h' \<Longrightarrow> mset (elems h') = mset (elems h) \<Longrightarrow> keys_ok h' = keys_ok h"
  using mset_eq_setD [of "elems h'" "elems h"] mset_eq_imp_distinct_iff [of "elems h'" "elems h"]
  by (simp add: keys_ok_def same_funcs_equal)

lemma keys_ok_length: "keys_ok h \<Longrightarrow> length (elems h) < 2 ^ 32"
proof -
  assume k: "keys_ok h"
  then have "length (elems h) = card (set (elems h))" by (simp add: keys_ok_def distinct_card)
  also have "\<dots> \<le> card {1..<2 ^ 32 :: nat}" using k by (intro card_mono) (auto simp: keys_ok_def)
  finally show ?thesis by simp
qed

text \<open>A resize changes nothing that can be observed.\<close>

lemma rehash_keeps:
  assumes "hash_ok h"
  shows "\<exists>h'. rehash room h = Inr h' \<and> hash_ok h' \<and> same_funcs h h' \<and> mset (elems h') = mset (elems h)"
proof -
  have h: "hash_law h" "shape_ok h" "keys_ok h" "elem_cnt h = length (elems h)" using assms by (simp_all add: hash_ok_def)
  from rehash_ok [of h room] h(2,4) keys_ok_length [OF h(3)] obtain h' where h': "rehash room h = Inr h'" "shape_ok h'"
    "same_funcs h h'" "elem_cnt h' = elem_cnt h" "mset (elems h') = mset (elems h)" by auto
  have "hash_ok h'"
    unfolding hash_ok_def
    using h h' same_funcs_law [OF h'(3)] keys_ok_mset [OF h'(3,5)] mset_eq_length [OF h'(5)] by simp
  with h' show ?thesis by blast
qed

lemma insert_elem_ok:
  assumes ok: "hash_ok h" and e: "0 < e" "e < 2 ^ 32" and new: "\<forall>x \<in> set (elems h). \<not> equal_elem h x e"
  defines "h' \<equiv> insert_elem h (find_bucket h e) e"
  shows "hash_ok h' \<and> same_funcs h h' \<and> mset (elems h') = add_mset e (mset (elems h))"
proof -
  have h: "hash_law h" "shape_ok h" "keys_ok h" "elem_cnt h = length (elems h)" using ok by (simp_all add: hash_ok_def)
  have l: "find_bucket h e < length (buckets h)" using shape_find_bucket [OF h(2)] .
  have sf: "same_funcs h h'" by (simp add: same_funcs_def h'_def insert_elem_def)
  have fb: "find_bucket h' x = find_bucket h x" for x by (simp add: h'_def insert_elem_def find_bucket_def)
  have m: "mset (elems h') = add_mset e (mset (elems h))"
    using mset_update_bucket [OF l] by (simp add: elems_def h'_def insert_elem_def)
  have st: "set (elems h') = insert e (set (elems h))" using m by (metis set_mset_add_mset_insert set_mset_mset)
  have "equal_elem h e e" using h(1) by (simp add: hash_law_def)
  then have "e \<notin> set (elems h)" using new by blast
  then have "distinct (elems h')" using m h(3) by (metis distinct.simps(2) keys_ok_def mset.simps(2) mset_eq_imp_distinct_iff)
  moreover have "equal_elem h a b = equal_elem h b a" for a b by (auto simp: equal_elem_def)
  ultimately have k: "keys_ok h'"
    using h(3) new e unfolding keys_ok_def same_funcs_equal [OF sf] st by (auto simp: Suc_le_eq)
  have "length (elems h') = Suc (length (elems h))" using arg_cong [OF m, of size] by simp
  moreover have "length (elems h') < 2 ^ 32" using keys_ok_length [OF k] .
  ultimately have "elem_cnt h' = length (elems h')" using h(4) by (simp add: h'_def insert_elem_def size_t_def)
  moreover have "shape_ok h'"
    unfolding shape_ok_def fb using h(2) l by (auto simp: h'_def insert_elem_def shape_ok_def nth_list_update)
  ultimately show ?thesis using k m sf same_funcs_law [OF sf] h(1) by (simp add: hash_ok_def)
qed

lemma mset_remove_all:
  "distinct (concat bs) \<Longrightarrow> mset (concat (map (remove1 e) bs)) = mset (concat bs) - {#e#}"
proof (induction bs)
  case (Cons b bs)
  show ?case
  proof (cases "e \<in> set b")
    case True
    then have "e \<notin> set (concat bs)" using Cons.prems by auto
    then have "map (remove1 e) bs = bs" by (auto intro!: map_idI remove1_idem)
    then show ?thesis using True by simp
  next
    case False
    then have "mset (concat (map (remove1 e) (b # bs))) = mset b + (mset (concat bs) - {#e#})"
      using Cons by (simp add: remove1_idem)
    also have "\<dots> = mset b + mset (concat bs) - {#e#}"
      using False by (cases "e \<in># mset (concat bs)") (simp_all only: diff_union_single_conv, simp add: diff_single_trivial)
    finally show ?thesis by simp
  qed
qed simp

lemma remove_elem_ok:
  assumes ok: "hash_ok h" and x: "x \<in> set (elems h)"
  defines "h' \<equiv> remove_elem h x"
  shows "hash_ok h' \<and> same_funcs h h' \<and> mset (elems h') = mset (elems h) - {#x#}"
proof -
  have h: "hash_law h" "shape_ok h" "keys_ok h" "elem_cnt h = length (elems h)" using ok by (simp_all add: hash_ok_def)
  have sf: "same_funcs h h'" by (simp add: same_funcs_def h'_def remove_elem_def)
  have fb: "find_bucket h' x = find_bucket h x" for x by (simp add: h'_def remove_elem_def find_bucket_def)
  have m: "mset (elems h') = mset (elems h) - {#x#}"
    using mset_remove_all [of "buckets h" x] h(3) by (simp add: keys_ok_def elems_def h'_def remove_elem_def)
  then have m1: "mset (elems h') = mset (remove1 x (elems h))" by simp
  have st: "set (elems h') = set (elems h) - {x}"
    using mset_eq_setD [OF m1] h(3) by (simp add: keys_ok_def)
  have "distinct (elems h')" using mset_eq_imp_distinct_iff [OF m1] h(3) by (simp add: keys_ok_def)
  then have k: "keys_ok h'" using h(3) unfolding keys_ok_def same_funcs_equal [OF sf] st by auto
  have "length (elems h) > 0" using x by auto
  moreover have "length (elems h') = length (elems h) - 1" using mset_eq_length [OF m1] x by (simp add: length_remove1)
  moreover have "length (elems h) < 2 ^ 32" using keys_ok_length [OF h(3)] .
  moreover have "size_t (n + (2 ^ 32 - 1)) = n - 1" if "0 < n" "n < 2 ^ 32" for n :: nat
    using that mod_add_self2 [of "n - 1" "2 ^ 32"] by (simp add: size_t_def add.commute)
  ultimately have "elem_cnt h' = length (elems h')" using h(4) by (simp add: h'_def remove_elem_def)
  moreover have "shape_ok h'"
    unfolding shape_ok_def fb using h(2) by (auto simp: h'_def remove_elem_def shape_ok_def dest: notin_set_remove1)
  ultimately show ?thesis using k m sf same_funcs_law [OF sf] h(1) by (simp add: hash_ok_def)
qed


subsection \<open>The dictionary a table implements\<close>

locale dictionary =
  fixes invar :: "'s \<Rightarrow> bool"
    and content :: "'s \<Rightarrow> nat set"
    and eq :: "'s \<Rightarrow> nat \<Rightarrow> nat \<Rightarrow> bool"
    and lookup :: "'s \<Rightarrow> nat \<Rightarrow> nat option"
    and ins :: "'s \<Rightarrow> nat \<Rightarrow> (nat option \<times> 's) result"
    and del :: "'s \<Rightarrow> nat \<Rightarrow> (nat option \<times> 's) result"
  assumes lookup_iff: "invar s \<Longrightarrow> lookup s e = Some x \<longleftrightarrow> x \<in> content s \<and> eq s x e"
    and eq_refl: "invar s \<Longrightarrow> eq s e e"
    and eq_sym: "eq s a b \<Longrightarrow> eq s b a"
    and eq_trans: "invar s \<Longrightarrow> eq s a b \<Longrightarrow> eq s b c \<Longrightarrow> eq s a c"
    and ins_content: "invar s \<Longrightarrow> 0 < e \<Longrightarrow> e < 2 ^ 32 \<Longrightarrow> \<exists>s'. ins s e = Inr (lookup s e, s') \<and> invar s' \<and> eq s' = eq s
      \<and> content s' = (if lookup s e = None then insert e (content s) else content s)"
    and del_content: "invar s \<Longrightarrow> \<exists>s'. del s e = Inr (lookup s e, s') \<and> invar s' \<and> eq s' = eq s
      \<and> content s' = content s - {x. eq s x e}"
begin

lemma lookup_cong: "invar s \<Longrightarrow> invar s' \<Longrightarrow> eq s' = eq s \<Longrightarrow>
    (\<And>x. eq s x e \<Longrightarrow> x \<in> content s' \<longleftrightarrow> x \<in> content s) \<Longrightarrow> lookup s' e = lookup s e"
  by (rule option.expand, metis lookup_iff not_None_eq, metis lookup_iff option.collapse option.distinct(1) option.sel)

lemma found_after_insert:
  assumes "invar s" "0 < e" "e < 2 ^ 32"
  shows "\<exists>s' x. ins s e = Inr (lookup s e, s') \<and> invar s' \<and> eq s' = eq s \<and> lookup s' e = Some x \<and> eq s x e
    \<and> (\<forall>d. \<not> eq s e d \<longrightarrow> lookup s' d = lookup s d)"
proof -
  from ins_content [OF assms] obtain s' where s': "ins s e = Inr (lookup s e, s')" "invar s'" "eq s' = eq s"
    "content s' = (if lookup s e = None then insert e (content s) else content s)" by blast
  have "\<exists>x. lookup s' e = Some x \<and> eq s x e"
  proof (cases "lookup s e")
    case None
    then have "lookup s' e = Some e" using s' eq_refl [OF assms(1)] by (simp add: lookup_iff)
    then show ?thesis using eq_refl [OF assms(1)] by blast
  next
    case (Some x)
    then have "lookup s' e = Some x" "eq s x e" using s' assms(1) by (simp_all add: lookup_iff)
    then show ?thesis by blast
  qed
  moreover have "lookup s' d = lookup s d" if "\<not> eq s e d" for d
    using that s'(4) by (intro lookup_cong [OF assms(1) s'(2,3)]) auto
  ultimately show ?thesis using s'(1-3) by blast
qed

lemma gone_after_delete:
  assumes "invar s"
  shows "\<exists>s'. del s e = Inr (lookup s e, s') \<and> invar s' \<and> eq s' = eq s \<and> lookup s' e = None
    \<and> (\<forall>d. \<not> eq s e d \<longrightarrow> lookup s' d = lookup s d)"
proof -
  from del_content [OF assms, of e] obtain s' where s': "del s e = Inr (lookup s e, s')" "invar s'" "eq s' = eq s"
    "content s' = content s - {x. eq s x e}" by blast
  have "lookup s' e = None" using s' lookup_iff [OF s'(2), of e] by (cases "lookup s' e") auto
  moreover have "lookup s' d = lookup s d" if "\<not> eq s e d" for d
  proof (rule lookup_cong [OF assms s'(2,3)])
    fix x assume x: "eq s x d"
    have "\<not> eq s x e" using eq_trans [OF assms eq_sym x, of e] that by blast
    then show "x \<in> content s' \<longleftrightarrow> x \<in> content s" using s'(4) by simp
  qed
  ultimately show ?thesis using s'(1-3) by blast
qed

end

lemma set_of_mset: "mset xs = M \<Longrightarrow> set xs = set_mset M"
  by auto

lemma hash_insert_content:
  assumes ok: "hash_ok h" and e: "0 < e" "e < 2 ^ 32"
  shows "\<exists>h'. hash_insert room h e = Inr (hash_find h e, h') \<and> hash_ok h' \<and> equal_elem h' = equal_elem h
    \<and> set (elems h') = (if hash_find h e = None then insert e (set (elems h)) else set (elems h))"
proof -
  define h1 where "h1 = (if hash_find h e = None then insert_elem h (find_bucket h e) e else h)"
  have i: "hash_insert room h e = rbind (rehash room h1) (\<lambda>h'. Inr (hash_find h e, h'))"
    by (simp add: hash_insert_def hash_find_def h1_def Let_def)
  have h1: "hash_ok h1 \<and> same_funcs h h1 \<and>
      set (elems h1) = (if hash_find h e = None then insert e (set (elems h)) else set (elems h))"
  proof (cases "hash_find h e = None")
    case True
    then have "\<forall>x \<in> set (elems h). \<not> equal_elem h x e" using find_elem_None [OF ok] by blast
    from insert_elem_ok [OF ok e this] True show ?thesis by (auto simp: h1_def dest: set_of_mset)
  next
    case False
    then show ?thesis using ok by (auto simp: h1_def same_funcs_def)
  qed
  with rehash_keeps [of h1 room] obtain h' where h': "rehash room h1 = Inr h'" "hash_ok h'" "same_funcs h1 h'"
    "mset (elems h') = mset (elems h1)" by blast
  then show ?thesis
    using i h1 same_funcs_equal [of h h1] same_funcs_equal [OF h'(3)] mset_eq_setD [OF h'(4)] by auto
qed

lemma hash_delete_content:
  assumes ok: "hash_ok h"
  shows "\<exists>h'. hash_delete room h e = Inr (hash_find h e, h') \<and> hash_ok h' \<and> equal_elem h' = equal_elem h
    \<and> set (elems h') = set (elems h) - {x. equal_elem h x e}"
proof (cases "hash_find h e")
  case None
  then have "hash_delete room h e = Inr (None, h)" by (simp add: hash_delete_def hash_find_def)
  then show ?thesis using None ok find_elem_None [OF ok, of e] by auto
next
  case (Some x)
  then have x: "x \<in> set (elems h)" "equal_elem h x e" using find_elem_ok [OF ok] by blast+
  have only: "y = x" if "y \<in> set (elems h)" "equal_elem h y e" for y
    using that find_elem_ok [OF ok, of e y] Some by simp
  let ?h1 = "remove_elem h x"
  have h1: "hash_ok ?h1" "same_funcs h ?h1" "mset (elems ?h1) = mset (elems h) - {#x#}"
    using remove_elem_ok [OF ok x(1)] by blast+
  from rehash_keeps [OF h1(1), of room] obtain h' where h': "rehash room ?h1 = Inr h'" "hash_ok h'" "same_funcs ?h1 h'"
    "mset (elems h') = mset (elems ?h1)" by blast
  have "mset (elems h') = mset (remove1 x (elems h))" using h'(4) h1(3) by simp
  then have "set (elems h') = set (elems h) - {x}"
    using ok by (metis hash_ok_def keys_ok_def mset_eq_setD set_remove1_eq)
  also have "\<dots> = set (elems h) - {y. equal_elem h y e}" using x only by blast
  finally have "set (elems h') = set (elems h) - {y. equal_elem h y e}" .
  moreover have "hash_delete room h e = Inr (Some x, h')" using Some h'(1) by (simp add: hash_delete_def hash_find_def)
  moreover have "equal_elem h' = equal_elem h" using same_funcs_equal [OF h1(2)] same_funcs_equal [OF h'(3)] by simp
  ultimately show ?thesis using h'(2) Some by auto
qed

interpretation ht: dictionary hash_ok "\<lambda>h. set (elems h)" equal_elem hash_find "hash_insert room" "hash_delete room" for room
proof unfold_locales
  fix h e x assume "hash_ok h"
  then show "(hash_find h e = Some x) = (x \<in> set (elems h) \<and> equal_elem h x e)" by (rule find_elem_ok)
next
  fix h e assume "hash_ok h"
  then show "equal_elem h e e" by (simp add: hash_ok_def hash_law_def)
next
  fix h a b assume "equal_elem h a b"
  then show "equal_elem h b a" by (simp add: equal_elem_def)
next
  fix h a b c assume "hash_ok h" "equal_elem h a b" "equal_elem h b c"
  then show "equal_elem h a c" unfolding hash_ok_def hash_law_def by blast
qed (rule hash_insert_content hash_delete_content; assumption)+

text \<open>Replacing is deleting and inserting.\<close>

lemma hash_replace_content:
  assumes ok: "hash_ok h" and e: "0 < e" "e < 2 ^ 32"
  shows "\<exists>h'. hash_replace room h e = Inr (hash_find h e, h') \<and> hash_ok h' \<and> equal_elem h' = equal_elem h
    \<and> set (elems h') = insert e (set (elems h) - {x. equal_elem h x e})"
proof -
  define h1 where "h1 = (case hash_find h e of Some o' \<Rightarrow> remove_elem h o' | None \<Rightarrow> h)"
  have h1: "hash_ok h1 \<and> same_funcs h h1 \<and> set (elems h1) = set (elems h) - {x. equal_elem h x e}"
  proof (cases "hash_find h e")
    case None
    then show ?thesis using ok find_elem_None [OF ok, of e] by (auto simp: h1_def same_funcs_def)
  next
    case (Some x)
    then have x: "x \<in> set (elems h)" "equal_elem h x e" using find_elem_ok [OF ok] by blast+
    have only: "y = x" if "y \<in> set (elems h)" "equal_elem h y e" for y
      using that find_elem_ok [OF ok, of e y] Some by simp
    have r: "hash_ok h1" "same_funcs h h1" "mset (elems h1) = mset (remove1 x (elems h))"
      using remove_elem_ok [OF ok x(1)] Some by (simp_all add: h1_def)
    have "set (elems h1) = set (elems h) - {x}"
      using ok mset_eq_setD [OF r(3)] by (simp add: hash_ok_def keys_ok_def)
    also have "\<dots> = set (elems h) - {y. equal_elem h y e}" using x only by blast
    finally show ?thesis using r by blast
  qed
  have "bucket_cnt h1 = bucket_cnt h" by (simp add: h1_def remove_elem_def split: option.split)
  then have fb: "find_bucket h1 e = find_bucket h e" using h1 by (simp add: find_bucket_def same_funcs_def)
  have "\<forall>x \<in> set (elems h1). \<not> equal_elem h1 x e" using h1 same_funcs_equal [of h h1] by auto
  with insert_elem_ok [of h1 e] h1 e have h2: "hash_ok (insert_elem h1 (find_bucket h e) e)"
    "same_funcs h1 (insert_elem h1 (find_bucket h e) e)"
    "mset (elems (insert_elem h1 (find_bucket h e) e)) = add_mset e (mset (elems h1))" by (auto simp: fb)
  from rehash_keeps [OF h2(1), of room] obtain h' where h': "rehash room (insert_elem h1 (find_bucket h e) e) = Inr h'" "hash_ok h'"
    "same_funcs (insert_elem h1 (find_bucket h e) e) h'" "mset (elems h') = add_mset e (mset (elems h1))" using h2(3) by auto
  have "hash_replace room h e = Inr (hash_find h e, h')"
    using h'(1) by (simp add: hash_replace_def hash_find_def [symmetric] h1_def Let_def)
  moreover have "equal_elem h' = equal_elem h"
    using h1 same_funcs_equal [of h h1] same_funcs_equal [OF h2(2)] same_funcs_equal [OF h'(3)] by simp
  moreover have "set (elems h') = insert e (set (elems h1))" using set_of_mset [OF h'(4)] by simp
  ultimately show ?thesis using h1 h'(2) by auto
qed


subsection \<open>Iteration visits every element once\<close>

definition after_list :: "nat \<Rightarrow> nat list \<Rightarrow> nat list" where
  "after_list e xs = tl (dropWhile (\<lambda>x. x \<noteq> e) xs)"

definition rest_of :: "hash \<Rightarrow> hash_iterator \<Rightarrow> nat list" where
  "rest_of h i = (case it_elem i of
     At_head \<Rightarrow> buckets h ! it_bucket i
   | At_elem e \<Rightarrow> after_list e (buckets h ! it_bucket i)
   | At_end \<Rightarrow> []) @ concat (drop (it_bucket i + 1) (buckets h))"

definition iterator_ok :: "hash \<Rightarrow> hash_iterator \<Rightarrow> bool" where
  "iterator_ok h i \<longleftrightarrow> it_bucket i < length (buckets h) \<and> it_elem i \<noteq> At_end
     \<and> (\<forall>e. it_elem i = At_elem e \<longrightarrow> e \<in> set (buckets h ! it_bucket i))"

lemma elem_after_list: "e \<in> set xs \<Longrightarrow> elem_after e xs = (case after_list e xs of [] \<Rightarrow> None | y # _ \<Rightarrow> Some y)"
  by (induction e xs rule: elem_after.induct) (auto simp: after_list_def)

lemma after_list_next: "distinct xs \<Longrightarrow> after_list e xs = y # ys \<Longrightarrow> y \<in> set xs \<and> after_list y xs = ys"
  by (induction xs) (auto simp: after_list_def split: if_splits)

lemma skip_buckets_None:
  assumes "length (buckets h) = bucket_cnt h"
  shows "b < bucket_cnt h \<Longrightarrow> (case concat (drop (b + 1) (buckets h)) of
      [] \<Rightarrow> it_elem (skip_buckets h b None) = At_end
    | y # ys \<Rightarrow> hash_cur (skip_buckets h b None) = Some y \<and> iterator_ok h (skip_buckets h b None)
        \<and> rest_of h (skip_buckets h b None) = ys)"
proof (induction "bucket_cnt h - b" arbitrary: b)
  case (Suc n)
  show ?case
  proof (cases "b + 1 \<ge> bucket_cnt h")
    case True
    then show ?thesis using assms by (simp add: skip_buckets.simps [of h b])
  next
    case False
    then have d: "drop (b + 1) (buckets h) = buckets h ! (b + 1) # drop (b + 2) (buckets h)"
      using assms by (simp add: Cons_nth_drop_Suc)
    show ?thesis
    proof (cases "buckets h ! (b + 1)")
      case Nil
      then have "skip_buckets h b None = skip_buckets h (b + 1) None"
        using False by (simp add: skip_buckets.simps [of h b] list_next_of_def)
      moreover have "n = bucket_cnt h - (b + 1)" "b + 1 < bucket_cnt h" using Suc.hyps(2) False by simp_all
      note Suc.hyps(1) [OF this]
      moreover have "concat (drop (b + 1) (buckets h)) = concat (drop (b + 1 + 1) (buckets h))" using d Nil by simp
      ultimately show ?thesis by (simp only:)
    next
      case (Cons y ys)
      then have "skip_buckets h b None = \<lparr>it_bucket = b + 1, it_elem = At_elem y\<rparr>"
        using False by (simp add: skip_buckets.simps [of h b] skip_buckets.simps [of h "Suc b"] list_next_of_def)
      then show ?thesis using False d Cons assms by (simp add: hash_cur_def iterator_ok_def rest_of_def after_list_def)
    qed
  qed
qed simp

lemma hash_next_ok:
  assumes ok: "hash_ok h" and i: "iterator_ok h i"
  shows "case rest_of h i of
      [] \<Rightarrow> hash_cur (hash_next h i) = None
    | y # ys \<Rightarrow> hash_cur (hash_next h i) = Some y \<and> iterator_ok h (hash_next h i) \<and> rest_of h (hash_next h i) = ys"
proof -
  let ?xs = "buckets h ! it_bucket i"
  define zs where "zs = (case it_elem i of At_head \<Rightarrow> ?xs | At_elem e \<Rightarrow> after_list e ?xs | At_end \<Rightarrow> [])"
  have len: "length (buckets h) = bucket_cnt h" using ok by (simp add: hash_ok_def shape_ok_def)
  have b: "it_bucket i < bucket_cnt h" using i len by (simp add: iterator_ok_def)
  have "distinct (concat (buckets h))" using ok by (simp add: hash_ok_def keys_ok_def elems_def)
  then have dist: "distinct ?xs" using b len by (auto simp: distinct_concat_iff)
  have nx: "list_next_of ?xs (it_elem i) = (case zs of [] \<Rightarrow> None | y # _ \<Rightarrow> Some y)"
    using i by (cases "it_elem i") (auto simp: list_next_of_def zs_def iterator_ok_def elem_after_list split: list.splits)
  have rest: "rest_of h i = zs @ concat (drop (it_bucket i + 1) (buckets h))" by (simp add: rest_of_def zs_def)
  show ?thesis
  proof (cases zs)
    case Nil
    then have n: "hash_next h i = skip_buckets h (it_bucket i) None" using nx by (simp add: hash_next_def)
    have r: "concat (drop (it_bucket i + 1) (buckets h)) = rest_of h i" using rest Nil by simp
    show ?thesis
      using skip_buckets_None [OF len b] unfolding r n by (cases "rest_of h i") (simp_all add: hash_cur_def)
  next
    case (Cons y ys)
    then have n: "hash_next h i = \<lparr>it_bucket = it_bucket i, it_elem = At_elem y\<rparr>"
      using nx by (simp add: hash_next_def skip_buckets.simps)
    have "y \<in> set ?xs \<and> after_list y ?xs = ys"
    proof (cases "it_elem i")
      case At_head
      then show ?thesis using Cons by (simp add: zs_def after_list_def)
    next
      case (At_elem e)
      then show ?thesis using Cons after_list_next [OF dist, of e y ys] by (simp add: zs_def)
    next
      case At_end
      then show ?thesis using i by (simp add: iterator_ok_def)
    qed
    then show ?thesis using n rest Cons i by (simp add: hash_cur_def iterator_ok_def rest_of_def)
  qed
qed

primrec visits :: "nat \<Rightarrow> hash \<Rightarrow> hash_iterator \<Rightarrow> nat option list" where
  "visits 0 h i = []"
| "visits (Suc n) h i = hash_cur (hash_next h i) # visits n h (hash_next h i)"

lemma visits_rest:
  "hash_ok h \<Longrightarrow> iterator_ok h i \<Longrightarrow> rest_of h i = xs \<Longrightarrow> visits (length xs + 1) h i = map Some xs @ [None]"
proof (induction xs arbitrary: i)
  case Nil
  then show ?case using hash_next_ok [of h i] by simp
next
  case (Cons x xs)
  then show ?case using hash_next_ok [of h i] by auto
qed


subsection \<open>Strings and their hash values\<close>

lemma hash_string_loop_ok: "cstr m s str \<Longrightarrow> hash_string_loop m s hv = Some (fold fnv_step str hv)"
proof (induction str arbitrary: s hv)
  case Nil
  then show ?case by (simp add: hash_string_loop.simps)
next
  case (Cons c str)
  then show ?case by (subst hash_string_loop.simps) simp
qed

lemma hash_string_bytes: "cstr m s str \<Longrightarrow> s \<noteq> 0 \<Longrightarrow> hash_string m s = hash_bytes m s (length str)"
  using bytes_cstr [of m s str 0 "length str"]
  by (simp add: hash_string_def hash_bytes_def hash_string_loop_ok bytes_def)


subsection \<open>The properties\<close>

lemma hash_init_ok:
  assumes "hash_law \<lparr>elem_cnt = 0, bucket_cnt = 4, buckets = replicate 4 [], hash_func = hf, less_func = lt\<rparr>"
  shows "\<exists>h. hash_init True hf lt = Some h \<and> hash_ok h \<and> elems h = []"
proof -
  have "(4 :: nat) = 2 ^ 2" by simp
  then show ?thesis
    using assms by (auto simp: hash_init_def hash_clear_def hash_ok_def shape_ok_def keys_ok_def elems_def nth_Cons' intro!: exI [of _ 2])
qed

text \<open>C30. A hash table is a dictionary keyed by its comparison function, whatever its hash function does beyond
  giving equal elements equal values, and whether or not a resize happens or finds memory: insertion returns
  the equal element already there, if any, and afterwards an equal element is found; deletion returns the
  element it removed and afterwards none is found; neither affects any other key, and both keep the table
  well formed.\<close>

theorem hash_table_is_dictionary:
  assumes "hash_ok h" "0 < e" "e < 2 ^ 32"
  shows "(\<exists>h' x. hash_insert room h e = Inr (hash_find h e, h') \<and> hash_ok h' \<and> hash_find h' e = Some x \<and> equal_elem h x e
      \<and> (\<forall>d. \<not> equal_elem h e d \<longrightarrow> hash_find h' d = hash_find h d))
    \<and> (\<exists>h'. hash_delete room h e = Inr (hash_find h e, h') \<and> hash_ok h' \<and> hash_find h' e = None
      \<and> (\<forall>d. \<not> equal_elem h e d \<longrightarrow> hash_find h' d = hash_find h d))"
  using ht.found_after_insert [OF assms, of room] ht.gone_after_delete [OF assms(1), of room e] by blast

definition sample_table :: hash where
  "sample_table = \<lparr>elem_cnt = 0, bucket_cnt = 4, buckets = replicate 4 [], hash_func = of_nat, less_func = (<)\<rparr>"

lemma sample_table_ok: "hash_ok sample_table"
proof -
  have "hash_law sample_table" by (auto simp: hash_law_def sample_table_def equal_elem_def)
  then have "\<exists>h. hash_init True of_nat (<) = Some h \<and> hash_ok h \<and> elems h = []"
    by (intro hash_init_ok) (simp add: sample_table_def)
  then show ?thesis by (simp add: hash_init_def hash_clear_def sample_table_def)
qed

theorem hash_table_is_dictionary_witness:
  "\<exists>h' x. hash_insert True sample_table 7 = Inr (hash_find sample_table 7, h') \<and> hash_find h' 7 = Some x \<and> equal_elem sample_table x 7"
  using hash_table_is_dictionary [OF sample_table_ok, of 7 True] by auto

text \<open>C35. Iterating with \<^verbatim>\<open>hash_first\<close> and \<^verbatim>\<open>hash_next\<close> visits every element of the table exactly once and
  then reports the end.\<close>

theorem hash_iteration_visits_all:
  assumes "hash_ok h"
  shows "visits (hash_size h + 1) h (hash_first h) = map Some (elems h) @ [None] \<and> distinct (elems h)"
proof -
  have "(4 :: nat) \<le> 2 ^ k" if "2 \<le> k" for k :: nat using power_increasing [OF that, of "2 :: nat"] by simp
  then have "0 < length (buckets h)" using assms by (fastforce simp: hash_ok_def shape_ok_def)
  then have "iterator_ok h (hash_first h)" "rest_of h (hash_first h) = elems h"
    by (auto simp: iterator_ok_def hash_first_def rest_of_def elems_def) (cases "buckets h"; simp)
  with visits_rest [OF assms] show ?thesis using assms by (simp add: hash_ok_def keys_ok_def hash_size_def)
qed

theorem hash_iteration_visits_all_witness:
  "visits (hash_size sample_table + 1) sample_table (hash_first sample_table) = map Some (elems sample_table) @ [None]"
  using hash_iteration_visits_all [OF sample_table_ok] by simp

end
