(* ===== verification/Allocator.thy ===== *)
theory Allocator
  imports C_String
begin

text \<open>
  The contract of an allocator. A client asks for blocks, gives back blocks it holds and writes to
  memory; \<open>serve\<close> runs a sequence of such requests and keeps the list of the blocks the client holds, each
  with its address and length. The interface \<open>allocator\<close> states what one request does to the
  allocator's invariant; that no two blocks a client holds ever overlap, and that no request fails
  except as declared, is proved here once for all sequences of requests. The page allocator and
  \<^verbatim>\<open>malloc\<close> provide the interface.
\<close>

datatype 'r request = Get 'r | Release nat | Store mem

text \<open>Two blocks that have no byte in common.\<close>

definition apart :: "nat \<times> nat \<Rightarrow> nat \<times> nat \<Rightarrow> bool" where
  "apart b c \<longleftrightarrow> fst b + snd b \<le> fst c \<or> fst c + snd c \<le> fst b"

text \<open>A block is added when an allocation does not return null. \<open>Release i\<close> gives back the \<open>i\<close>-th block.\<close>

fun serve :: "('r \<Rightarrow> 's \<Rightarrow> (nat \<times> 's) result) \<Rightarrow> (nat \<times> nat \<Rightarrow> 's \<Rightarrow> 's result) \<Rightarrow> (mem \<Rightarrow> 's \<Rightarrow> 's) \<Rightarrow> ('r \<Rightarrow> nat) \<Rightarrow>
    'r request list \<Rightarrow> 's \<Rightarrow> (nat \<times> nat) list \<Rightarrow> ('s \<times> (nat \<times> nat) list) result" where
  "serve alloc release store len [] s B = Inr (s, B)"
| "serve alloc release store len (Get r # rs) s B = rbind (alloc r s) (\<lambda>(p, s).
     serve alloc release store len rs s (if p = 0 then B else (p, len r) # B))"
| "serve alloc release store len (Release i # rs) s B =
     (if i < length B then rbind (release (B ! i) s) (\<lambda>s. serve alloc release store len rs s (remove1 (B ! i) B))
      else serve alloc release store len rs s B)"
| "serve alloc release store len (Store m # rs) s B = serve alloc release store len rs (store m s) B"

definition asks :: "('r \<Rightarrow> bool) \<Rightarrow> 'r request \<Rightarrow> bool" where
  "asks P q = (case q of Get r \<Rightarrow> P r | _ \<Rightarrow> True)"

locale allocator =
  fixes inv :: "'s \<Rightarrow> (nat \<times> nat) list \<Rightarrow> bool"
    and alloc :: "'r \<Rightarrow> 's \<Rightarrow> (nat \<times> 's) result"
    and release :: "nat \<times> nat \<Rightarrow> 's \<Rightarrow> 's result"
    and store :: "mem \<Rightarrow> 's \<Rightarrow> 's"
    and len :: "'r \<Rightarrow> nat"
    and valid :: "'r \<Rightarrow> bool"
    and fails :: "'r \<Rightarrow> c_error \<Rightarrow> bool"
  assumes alloc_law: "inv s B \<Longrightarrow> valid r \<Longrightarrow>
      (\<exists>e. alloc r s = Inl e \<and> fails r e) \<or> (\<exists>s'. alloc r s = Inr (0, s') \<and> inv s' B)
      \<or> (\<exists>p s'. p \<noteq> 0 \<and> alloc r s = Inr (p, s') \<and> inv s' ((p, len r) # B))"
    and release_law: "inv s B \<Longrightarrow> b \<in> set B \<Longrightarrow> \<exists>s'. release b s = Inr s' \<and> inv s' (remove1 b B)"
    and store_law: "inv s B \<Longrightarrow> inv (store m s) B"
    and apart_law: "inv s B \<Longrightarrow> sorted_wrt apart B"
begin

lemma serve_inv:
  assumes "inv s B" "list_all (asks valid) rs"
  shows "(\<exists>e r. serve alloc release store len rs s B = Inl e \<and> Get r \<in> set rs \<and> fails r e)
    \<or> (\<exists>s' B'. serve alloc release store len rs s B = Inr (s', B') \<and> inv s' B')"
  using assms
proof (induction rs arbitrary: s B)
  case (Cons q rs)
  note IH = Cons.IH [OF _ conjunct2 [OF iffD1 [OF list.pred_inject(2) Cons.prems(2)]]]
  show ?case
  proof (cases q)
    case (Get r)
    with Cons.prems have "valid r" by (simp add: asks_def)
    from alloc_law [OF Cons.prems(1) this] consider e where "alloc r s = Inl e" "fails r e"
      | s' where "alloc r s = Inr (0, s')" "inv s' B" | p s' where "p \<noteq> 0" "alloc r s = Inr (p, s')" "inv s' ((p, len r) # B)" by blast
    then show ?thesis
    proof cases
      case 1 then show ?thesis using Get by auto
    next
      case 2 then show ?thesis using IH [OF 2(2)] Get by auto
    next
      case 3 then show ?thesis using IH [OF 3(3)] Get by auto
    qed
  next
    case (Release i)
    show ?thesis
    proof (cases "i < length B")
      case True
      then obtain s' where s': "release (B ! i) s = Inr s'" "inv s' (remove1 (B ! i) B)"
        using release_law [OF Cons.prems(1)] nth_mem by blast
      then show ?thesis using IH [OF s'(2)] Release True by auto
    next
      case False then show ?thesis using IH [OF Cons.prems(1)] Release by auto
    qed
  next
    case (Store m)
    then show ?thesis using IH [OF store_law [OF Cons.prems(1)]] by auto
  qed
qed simp

text \<open>In every run from a good state: the run fails only as declared, blocks never overlap, and every block
  can be given back.\<close>

lemma serve_safe:
  assumes "inv s B" "list_all (asks valid) rs"
  shows "case serve alloc release store len rs s B of
      Inl e \<Rightarrow> \<exists>r. Get r \<in> set rs \<and> fails r e
    | Inr (s', B') \<Rightarrow> sorted_wrt apart B' \<and> (\<forall>b \<in> set B'. \<exists>s''. release b s' = Inr s'')"
  using serve_inv [OF assms] apart_law release_law by fastforce

end

end
