(* ===== verification/Palloc.thy ===== *)
theory Palloc
  imports Allocator Bitmap Vaddr
begin

text \<open>
  The page allocator, \<^verbatim>\<open>threads/palloc.c\<close>: two pools of pages, each with a bitmap of the pages in use at its
  base. The state holds both pools and memory, which is read for what the bitmaps' buffers contain at
  start-up and written when pages are cleared; the bitmap itself is a value of its own from then on.
  The lock of a pool is held over the search and the marking of the bits, which are one step here.
\<close>

subsection \<open>Pools\<close>

definition PAL_ASSERT :: nat where "PAL_ASSERT = 1"
definition PAL_ZERO :: nat where "PAL_ZERO = 2"
definition PAL_USER :: nat where "PAL_USER = 4"

record pool =
  used_map :: bitmap
  pool_base :: nat

record page_allocator =
  kernel_pool :: pool
  user_pool :: pool
  memory :: mem

text \<open>The array element at an address, least significant byte first.\<close>

definition word_at :: "mem \<Rightarrow> nat \<Rightarrow> 32 word" where
  "word_at m a = of_nat (of_char (m a) + 2 ^ 8 * of_char (m (a + 1)) + 2 ^ 16 * of_char (m (a + 2)) + 2 ^ 24 * of_char (m (a + 3)))"

text \<open>The bitmap's structure takes the first 8 bytes of its buffer and its elements the rest.\<close>

definition init_pool :: "nat \<Rightarrow> nat \<Rightarrow> mem \<Rightarrow> pool result" where
  "init_pool base page_cnt m =
     (let bm_pages = DIV_ROUND_UP (bitmap_buf_size page_cnt) PGSIZE in
      if bm_pages > page_cnt then Inl Panic
      else
        let page_cnt = page_cnt - bm_pages;
            block_size = size_t (bm_pages * PGSIZE);
            block = map (\<lambda>i. word_at m (base + 8 + 4 * i)) [0..<(block_size - 8) div 4]
        in rbind (bitmap_create_in_buf page_cnt block block_size) (\<lambda>b.
             Inr \<lparr>used_map = b, pool_base = size_t (base + block_size)\<rparr>))"

definition page_from_pool :: "pool \<Rightarrow> nat \<Rightarrow> bool" where
  "page_from_pool pool page =
     (let page_no = pg_no page; start_page = pg_no (pool_base pool);
          end_page = size_t (start_page + bitmap_size (used_map pool))
      in page_no \<ge> start_page \<and> page_no < end_page)"

text \<open>A pointer difference that does not fit is undefined; the quotient is converted to \<^verbatim>\<open>size_t\<close>.\<close>

definition palloc_init :: "nat \<Rightarrow> nat \<Rightarrow> mem \<Rightarrow> page_allocator result" where
  "palloc_init init_ram_pages user_page_limit m =
     rbind (ptov (1024 * 1024)) (\<lambda>free_start.
     rbind (ptov (size_t (init_ram_pages * PGSIZE))) (\<lambda>free_end.
     rbind (c_int (int free_end - int free_start)) (\<lambda>d.
     let free_pages = nat ((d sdiv int PGSIZE) mod 2 ^ 32);
         user_pages = free_pages div 2;
         user_pages = (if user_pages > user_page_limit then user_page_limit else user_pages);
         kernel_pages = free_pages - user_pages
     in rbind (init_pool free_start kernel_pages m) (\<lambda>kp.
        rbind (init_pool (size_t (free_start + kernel_pages * PGSIZE)) user_pages m) (\<lambda>up.
        Inr \<lparr>kernel_pool = kp, user_pool = up, memory = m\<rparr>)))))"


subsection \<open>Obtaining and freeing pages\<close>

definition pool_of :: "nat \<Rightarrow> page_allocator \<Rightarrow> pool" where
  "pool_of flags s = (if flags AND PAL_USER \<noteq> 0 then user_pool s else kernel_pool s)"

definition set_pool :: "nat \<Rightarrow> pool \<Rightarrow> page_allocator \<Rightarrow> page_allocator" where
  "set_pool flags p s = (if flags AND PAL_USER \<noteq> 0 then s\<lparr>user_pool := p\<rparr> else s\<lparr>kernel_pool := p\<rparr>)"

definition palloc_get_multiple :: "nat \<Rightarrow> nat \<Rightarrow> page_allocator \<Rightarrow> (nat \<times> page_allocator) result" where
  "palloc_get_multiple flags page_cnt s =
     (let pool = pool_of flags s in
      if page_cnt = 0 then Inr (0, s)
      else rbind (bitmap_scan_and_flip (used_map pool) 0 page_cnt False) (\<lambda>(page_idx, b).
        let s = set_pool flags (pool\<lparr>used_map := b\<rparr>) s;
            pages = (if page_idx \<noteq> BITMAP_ERROR then size_t (pool_base pool + size_t (PGSIZE * page_idx)) else 0)
        in if pages \<noteq> 0 then
             if flags AND PAL_ZERO \<noteq> 0 then
               rbind (memset (memory s) pages 0 (size_t (PGSIZE * page_cnt))) (\<lambda>(m, _). Inr (pages, s\<lparr>memory := m\<rparr>))
             else Inr (pages, s)
           else if flags AND PAL_ASSERT \<noteq> 0 then Inl Panic
           else Inr (pages, s)))"

definition palloc_get_page :: "nat \<Rightarrow> page_allocator \<Rightarrow> (nat \<times> page_allocator) result" where
  "palloc_get_page flags s = palloc_get_multiple flags 1 s"

definition free_in_pool :: "pool \<Rightarrow> nat \<Rightarrow> nat \<Rightarrow> pool result" where
  "free_in_pool pool pages page_cnt =
     (let page_idx = pg_no pages - pg_no (pool_base pool) in
      rbind (bitmap_all (used_map pool) page_idx page_cnt) (\<lambda>a. c_assert a
        (rbind (bitmap_set_multiple (used_map pool) page_idx page_cnt False) (\<lambda>b. Inr (pool\<lparr>used_map := b\<rparr>)))))"

definition palloc_free_multiple :: "nat \<Rightarrow> nat \<Rightarrow> page_allocator \<Rightarrow> page_allocator result" where
  "palloc_free_multiple pages page_cnt s = c_assert (pg_ofs pages = 0)
     (if pages = 0 \<or> page_cnt = 0 then Inr s
      else
        rbind (if page_from_pool (kernel_pool s) pages then Inr False
               else if page_from_pool (user_pool s) pages then Inr True
               else Inl Panic) (\<lambda>user.
        rbind (memset (memory s) pages 0xcc (size_t (PGSIZE * page_cnt))) (\<lambda>(m, _).
        let s = s\<lparr>memory := m\<rparr> in
        if user then rbind (free_in_pool (user_pool s) pages page_cnt) (\<lambda>p. Inr (s\<lparr>user_pool := p\<rparr>))
        else rbind (free_in_pool (kernel_pool s) pages page_cnt) (\<lambda>p. Inr (s\<lparr>kernel_pool := p\<rparr>)))))"

definition palloc_free_page :: "nat \<Rightarrow> page_allocator \<Rightarrow> page_allocator result" where
  "palloc_free_page page s = palloc_free_multiple page 1 s"


subsection \<open>Pages in use\<close>

definition pool_ok :: "pool \<Rightarrow> bool" where
  "pool_ok p \<longleftrightarrow> bitmap_ok (used_map p) \<and> pool_base p mod PGSIZE = 0 \<and> 0 < pool_base p
     \<and> pool_base p + PGSIZE * bit_cnt (used_map p) < 2 ^ 32"

definition first_page :: "pool \<Rightarrow> nat" where
  "first_page p = pool_base p div PGSIZE"

definition used_pages :: "pool \<Rightarrow> nat set" where
  "used_pages p = {j. first_page p \<le> j \<and> j < first_page p + bit_cnt (used_map p) \<and> bits_of (used_map p) ! (j - first_page p)}"

lemma pool_okD:
  assumes "pool_ok p"
  shows "bitmap_ok (used_map p)" "pool_base p = PGSIZE * first_page p" "0 < first_page p"
    "first_page p + bit_cnt (used_map p) < 2 ^ 20" "bit_cnt (used_map p) < BITMAP_ERROR"
proof -
  note ok = assms [unfolded pool_ok_def]
  show b: "pool_base p = PGSIZE * first_page p" using ok by (auto simp: first_page_def)
  then show "0 < first_page p" using ok by (auto intro: gr0I)
  have "PGSIZE * (first_page p + bit_cnt (used_map p)) < 2 ^ 32" using ok b by (simp add: distrib_left)
  then show l: "first_page p + bit_cnt (used_map p) < 2 ^ 20" by (simp add: PGSIZE_def)
  then show "bit_cnt (used_map p) < BITMAP_ERROR" by (simp add: BITMAP_ERROR_def)
  show "bitmap_ok (used_map p)" using ok by blast
qed

lemma pool_ok_upd:
  "pool_ok p \<Longrightarrow> bitmap_ok b \<Longrightarrow> bit_cnt b = bit_cnt (used_map p) \<Longrightarrow> pool_ok (p\<lparr>used_map := b\<rparr>)"
  by (simp add: pool_ok_def)

text \<open>Setting a range of the bitmap of a pool.\<close>

lemma used_pages_set:
  assumes "bits_of b = take i (bits_of (used_map p)) @ replicate n v @ drop (i + n) (bits_of (used_map p))"
    "bit_cnt b = bit_cnt (used_map p)" "i + n \<le> bit_cnt b"
  shows "used_pages (p\<lparr>used_map := b\<rparr>) =
    (if v then used_pages p \<union> {first_page p + i..<first_page p + i + n} else used_pages p - {first_page p + i..<first_page p + i + n})"
proof -
  have "bits_of b ! j = (if i \<le> j \<and> j < i + n then v else bits_of (used_map p) ! j)" if "j < bit_cnt b" for j
    using that assms(2,3) unfolding assms(1) by (auto simp: nth_append)
  moreover have "first_page (p\<lparr>used_map := b\<rparr>) = first_page p" by (simp add: first_page_def)
  ultimately have "first_page p + k \<in> used_pages (p\<lparr>used_map := b\<rparr>) \<longleftrightarrow>
      k < bit_cnt b \<and> (if i \<le> k \<and> k < i + n then v else first_page p + k \<in> used_pages p)" for k
    using assms(2) by (auto simp: used_pages_def simp del: nth_bits_of)
  note shifted = this
  show ?thesis
  proof (rule set_eqI)
    fix x
    show "x \<in> used_pages (p\<lparr>used_map := b\<rparr>) \<longleftrightarrow> x \<in> (if v then used_pages p \<union> {first_page p + i..<first_page p + i + n}
      else used_pages p - {first_page p + i..<first_page p + i + n})"
    proof (cases "first_page p \<le> x")
      case True
      then obtain k where k: "x = first_page p + k" using le_Suc_ex by blast
      have "first_page p + k \<in> used_pages p \<Longrightarrow> k < bit_cnt b" using assms(2) by (simp add: used_pages_def)
      then show ?thesis using shifted [of k] assms(3) by (auto simp: k)
    next
      case False
      then show ?thesis by (auto simp: used_pages_def first_page_def)
    qed
  qed
qed

lemma pool_take:
  assumes p: "pool_ok p"
  shows "(\<exists>i b. bitmap_scan_and_flip (used_map p) 0 n False = Inr (i, b) \<and> i \<noteq> BITMAP_ERROR \<and> i + n \<le> bit_cnt (used_map p)
      \<and> pool_ok (p\<lparr>used_map := b\<rparr>) \<and> used_pages p \<inter> {first_page p + i..<first_page p + i + n} = {}
      \<and> used_pages (p\<lparr>used_map := b\<rparr>) = used_pages p \<union> {first_page p + i..<first_page p + i + n})
    \<or> bitmap_scan_and_flip (used_map p) 0 n False = Inr (BITMAP_ERROR, used_map p)
      \<and> \<not> (\<exists>i. run_at (used_map p) n False i)"
proof (cases "\<exists>i. run_at (used_map p) n False i")
  case True
  define i where "i = (LEAST i. run_at (used_map p) n False i)"
  have r: "run_at (used_map p) n False i" using True unfolding i_def by (rule LeastI_ex)
  then have i: "i + n \<le> bit_cnt (used_map p)" "\<And>j. j < n \<Longrightarrow> \<not> bits_of (used_map p) ! (i + j)" by (auto simp: run_at_def)
  from True bitmap_scan_and_flip_ok [OF pool_okD(1) [OF p] _ pool_okD(5) [OF p], of 0 n False] obtain b where
    b: "bitmap_scan_and_flip (used_map p) 0 n False = Inr (i, b)" "bitmap_ok b" "bit_cnt b = bit_cnt (used_map p)"
      "bits_of b = take i (bits_of (used_map p)) @ replicate n True @ drop (i + n) (bits_of (used_map p))"
    by (auto simp: i_def)
  have "\<not> bits_of (used_map p) ! (j - first_page p)" if "first_page p + i \<le> j" "j < first_page p + i + n" for j
    using i(2) [of "j - first_page p - i"] that by simp
  then have "used_pages p \<inter> {first_page p + i..<first_page p + i + n} = {}" by (auto simp: used_pages_def)
  moreover have "i \<noteq> BITMAP_ERROR" using i(1) pool_okD(5) [OF p] by simp
  ultimately show ?thesis
    using b i(1) used_pages_set [OF b(4,3)] pool_ok_upd [OF p b(2,3)] by (intro disjI1 exI [of _ i] exI [of _ b]) simp
next
  case False
  then show ?thesis using bitmap_scan_and_flip_ok [OF pool_okD(1) [OF p] _ pool_okD(5) [OF p], of 0 n False] by simp
qed

lemma pool_give:
  assumes p: "pool_ok p" and n: "0 < n" and sub: "{j..<j + n} \<subseteq> used_pages p"
  shows "\<exists>b. free_in_pool p (PGSIZE * j) n = Inr (p\<lparr>used_map := b\<rparr>) \<and> pool_ok (p\<lparr>used_map := b\<rparr>)
    \<and> bit_cnt b = bit_cnt (used_map p) \<and> used_pages (p\<lparr>used_map := b\<rparr>) = used_pages p - {j..<j + n}"
proof -
  have "j \<in> used_pages p" "j + n - 1 \<in> used_pages p" using sub n by auto
  then have j: "first_page p \<le> j" "j + n \<le> first_page p + bit_cnt (used_map p)" using n by (auto simp: used_pages_def)
  define i where "i = j - first_page p"
  have i: "i + n \<le> bit_cnt (used_map p)" "j = first_page p + i" using j by (simp_all add: i_def)
  have idx: "pg_no (PGSIZE * j) - pg_no (pool_base p) = i"
    by (simp add: pg_no_div first_page_def [symmetric] i_def) (simp add: PGSIZE_def)
  have "bits_of (used_map p) ! (i + k)" if "k < n" for k
  proof -
    have "j + k \<in> used_pages p" using sub that by auto
    then show ?thesis using i by (auto simp: used_pages_def)
  qed
  then have a: "bitmap_all (used_map p) i n = Inr True"
    using i bitmap_contains_ok [OF pool_okD(1) [OF p] i(1), of False] by (simp add: bitmap_all_def)
  obtain b where b: "bitmap_set_multiple (used_map p) i n False = Inr b" "bitmap_ok b" "bit_cnt b = bit_cnt (used_map p)"
    "bits_of b = take i (bits_of (used_map p)) @ replicate n False @ drop (i + n) (bits_of (used_map p))"
    using bitmap_set_multiple_ok [OF pool_okD(1) [OF p] i(1), of False] by blast
  have "free_in_pool p (PGSIZE * j) n = Inr (p\<lparr>used_map := b\<rparr>)"
    unfolding free_in_pool_def idx Let_def using a b(1) by simp
  moreover have "used_pages (p\<lparr>used_map := b\<rparr>) = used_pages p - {j..<j + n}"
    using used_pages_set [OF b(4,3)] i b(3) by simp
  ultimately show ?thesis using pool_ok_upd [OF p b(2,3)] b(3) by blast
qed


subsection \<open>Blocks of pages\<close>

definition block_pages :: "nat \<times> nat \<Rightarrow> nat set" where
  "block_pages b = {fst b div PGSIZE..<fst b div PGSIZE + snd b div PGSIZE}"

definition page_block :: "nat \<times> nat \<Rightarrow> bool" where
  "page_block b \<longleftrightarrow> (\<exists>j n. b = (PGSIZE * j, PGSIZE * n) \<and> 0 < j \<and> 0 < n)"

text \<open>The pages marked as used are those of the blocks handed out, each block within one pool.\<close>

definition palloc_inv :: "page_allocator \<Rightarrow> (nat \<times> nat) list \<Rightarrow> bool" where
  "palloc_inv s B \<longleftrightarrow> pool_ok (kernel_pool s) \<and> pool_ok (user_pool s)
     \<and> first_page (kernel_pool s) + bit_cnt (used_map (kernel_pool s)) \<le> first_page (user_pool s)
     \<and> (\<forall>b \<in> set B. page_block b \<and> (block_pages b \<subseteq> used_pages (kernel_pool s) \<or> block_pages b \<subseteq> used_pages (user_pool s)))
     \<and> sorted_wrt (\<lambda>b c. block_pages b \<inter> block_pages c = {}) B
     \<and> used_pages (kernel_pool s) \<union> used_pages (user_pool s) = (\<Union>b \<in> set B. block_pages b)"

lemma PGSIZE_pos [simp]: "0 < PGSIZE" "PGSIZE \<noteq> 0"
  by (simp_all add: PGSIZE_def)

lemma block_pages_block [simp]: "block_pages (PGSIZE * j, PGSIZE * n) = {j..<j + n}"
  by (simp add: block_pages_def)

lemma palloc_inv_memory: "palloc_inv (s\<lparr>memory := m\<rparr>) B = palloc_inv s B"
  by (simp add: palloc_inv_def)

lemma used_pages_range: "used_pages p \<subseteq> {first_page p..<first_page p + bit_cnt (used_map p)}"
  by (auto simp: used_pages_def)

lemma pools_apart: "palloc_inv s B \<Longrightarrow> used_pages (kernel_pool s) \<inter> used_pages (user_pool s) = {}"
  by (auto simp: palloc_inv_def used_pages_def)

lemma page_blocks_apart:
  assumes "page_block b" "page_block c" "block_pages b \<inter> block_pages c = {}" shows "apart b c"
proof -
  obtain j n where b: "b = (PGSIZE * j, PGSIZE * n)" "0 < n" using assms(1) by (auto simp: page_block_def)
  obtain k m where c: "c = (PGSIZE * k, PGSIZE * m)" "0 < m" using assms(2) by (auto simp: page_block_def)
  have "j \<notin> {k..<k + m}" "k \<notin> {j..<j + n}" using assms(3) b c by auto
  then have "j + n \<le> k \<or> k + m \<le> j" by auto
  then show ?thesis using b c by (auto simp: apart_def distrib_left [symmetric])
qed

lemma palloc_inv_apart: "palloc_inv s B \<Longrightarrow> sorted_wrt apart B"
  by (auto simp: palloc_inv_def intro: sorted_wrt_mono_rel [rotated] page_blocks_apart)

text \<open>Adding the pages of a block to one of the pools.\<close>

lemma palloc_inv_add:
  assumes inv: "palloc_inv s B" and p: "pool_ok (pool_of flags s)" "pool_ok (pool_of flags s\<lparr>used_map := b\<rparr>)"
    and cnt: "bit_cnt b = bit_cnt (used_map (pool_of flags s))" and n: "0 < n" "0 < j"
    and range: "first_page (pool_of flags s) \<le> j" "j + n \<le> first_page (pool_of flags s) + bit_cnt b"
    and new: "used_pages (pool_of flags s) \<inter> {j..<j + n} = {}"
    and used: "used_pages (pool_of flags s\<lparr>used_map := b\<rparr>) = used_pages (pool_of flags s) \<union> {j..<j + n}"
  shows "palloc_inv (set_pool flags (pool_of flags s\<lparr>used_map := b\<rparr>) s) ((PGSIZE * j, PGSIZE * n) # B)"
proof -
  let ?R = "{j..<j + n}" and ?k = "kernel_pool s" and ?u = "user_pool s"
  have b: "page_block (PGSIZE * j, PGSIZE * n)" using n by (auto simp: page_block_def)
  have R: "?R \<subseteq> {first_page (pool_of flags s)..<first_page (pool_of flags s) + bit_cnt (used_map (pool_of flags s))}"
    using range cnt by auto
  have sep: "{first_page ?k..<first_page ?k + bit_cnt (used_map ?k)} \<inter> {first_page ?u..<first_page ?u + bit_cnt (used_map ?u)} = {}"
    using inv by (auto simp: palloc_inv_def)
  show ?thesis
  proof (cases "flags AND PAL_USER = 0")
    case True
    then have e: "pool_of flags s = ?k" "\<And>q. set_pool flags q s = s\<lparr>kernel_pool := q\<rparr>" by (simp_all add: pool_of_def set_pool_def)
    have "?R \<inter> used_pages ?u = {}" using R [unfolded e(1)] sep used_pages_range [of ?u] by blast
    then have "?R \<inter> block_pages c = {}" if "c \<in> set B" for c using that inv new [unfolded e(1)] unfolding palloc_inv_def by blast
    then show ?thesis using inv p(2) used cnt b unfolding e palloc_inv_def by (simp add: first_page_def) blast
  next
    case False
    then have e: "pool_of flags s = ?u" "\<And>q. set_pool flags q s = s\<lparr>user_pool := q\<rparr>" by (simp_all add: pool_of_def set_pool_def)
    have "?R \<inter> used_pages ?k = {}" using R [unfolded e(1)] sep used_pages_range [of ?k] by blast
    then have "?R \<inter> block_pages c = {}" if "c \<in> set B" for c using that inv new [unfolded e(1)] unfolding palloc_inv_def by blast
    then show ?thesis using inv p(2) used cnt b unfolding e palloc_inv_def by (simp add: first_page_def) blast
  qed
qed

lemma memory_set_pool [simp]: "memory (set_pool flags p s) = memory s"
  by (simp add: set_pool_def)

lemma memset_eq: "p \<noteq> 0 \<Longrightarrow> memset m p v n = Inr (\<lambda>x. if p \<le> x \<and> x < p + n then to_char v else m x, p)"
  by (simp add: memset_def fun_eq_iff memset_loop_mem)

lemma memset_zero: "p \<noteq> 0 \<Longrightarrow> memset m p 0 n = Inr (\<lambda>x. if p \<le> x \<and> x < p + n then NUL else m x, p)"
  by (simp add: memset_eq to_char_def char_of_def cong: if_cong)

lemma palloc_get_law:
  assumes inv: "palloc_inv s B"
  shows "(palloc_get_multiple flags n s = Inl Panic \<and> flags AND PAL_ASSERT \<noteq> 0)
    \<or> (palloc_get_multiple flags n s = Inr (0, s))
    \<or> (\<exists>j s'. 0 < j \<and> 0 < n \<and> j + n \<le> 2 ^ 20 \<and> palloc_get_multiple flags n s = Inr (PGSIZE * j, s') \<and> palloc_inv s' ((PGSIZE * j, PGSIZE * n) # B)
        \<and> memory s' = (\<lambda>x. if flags AND PAL_ZERO \<noteq> 0 \<and> PGSIZE * j \<le> x \<and> x < PGSIZE * (j + n) then NUL else memory s x))"
proof (cases "n = 0")
  case True
  then show ?thesis by (simp add: palloc_get_multiple_def Let_def)
next
  case False
  let ?p = "pool_of flags s"
  have p: "pool_ok ?p" using inv by (simp add: palloc_inv_def pool_of_def)
  have same: "set_pool flags (?p\<lparr>used_map := used_map ?p\<rparr>) s = s" by (simp add: set_pool_def pool_of_def)
  from pool_take [OF p, of n] show ?thesis
  proof (elim disjE exE conjE)
    fix i b
    assume b: "bitmap_scan_and_flip (used_map ?p) 0 n False = Inr (i, b)" "i \<noteq> BITMAP_ERROR" "i + n \<le> bit_cnt (used_map ?p)"
      "pool_ok (?p\<lparr>used_map := b\<rparr>)" "used_pages ?p \<inter> {first_page ?p + i..<first_page ?p + i + n} = {}"
      "used_pages (?p\<lparr>used_map := b\<rparr>) = used_pages ?p \<union> {first_page ?p + i..<first_page ?p + i + n}"
    let ?j = "first_page ?p + i"
    have cnt: "bit_cnt b = bit_cnt (used_map ?p)"
      using bitmap_scan_and_flip_ok [OF pool_okD(1) [OF p] _ pool_okD(5) [OF p], of 0 n False] b(1,2) by (auto split: if_splits)
    have bnd: "?j + n < 2 ^ 20" "0 < ?j" using pool_okD(3,4) [OF p] b(3) by simp_all
    then have "PGSIZE * i < 2 ^ 32" "PGSIZE * n < 2 ^ 32" "PGSIZE * ?j < 2 ^ 32" by (simp_all add: PGSIZE_def)
    then have a: "size_t (pool_base ?p + size_t (PGSIZE * i)) = PGSIZE * ?j" "size_t (PGSIZE * n) = PGSIZE * n"
      using pool_okD(2) [OF p] by (simp_all add: distrib_left)
    have "palloc_inv (set_pool flags (?p\<lparr>used_map := b\<rparr>) s) ((PGSIZE * ?j, PGSIZE * n) # B)"
      using b cnt bnd False by (intro palloc_inv_add [OF inv p]) simp_all
    then show ?thesis
      using b(1,2) a bnd False
      by (intro disjI2 exI [of _ ?j] exI [of _ "(set_pool flags (?p\<lparr>used_map := b\<rparr>) s)\<lparr>memory := \<lambda>x. if flags AND PAL_ZERO \<noteq> 0 \<and> PGSIZE * ?j \<le> x \<and> x < PGSIZE * (?j + n) then NUL else memory s x\<rparr>"])
        (simp add: palloc_get_multiple_def Let_def memset_zero palloc_inv_memory distrib_left)
  next
    assume "bitmap_scan_and_flip (used_map ?p) 0 n False = Inr (BITMAP_ERROR, used_map ?p)"
    then show ?thesis using same False by (auto simp: palloc_get_multiple_def Let_def)
  qed
qed

text \<open>Freeing a block: it is found in its pool, its bits are all set, and they are cleared.\<close>

lemma page_from_pool_iff:
  assumes "pool_ok p"
  shows "page_from_pool p (PGSIZE * j) \<longleftrightarrow> first_page p \<le> j \<and> j < first_page p + bit_cnt (used_map p)"
  using pool_okD(4) [OF assms]
  by (simp add: page_from_pool_def pg_no_div first_page_def [symmetric] bitmap_size_def Let_def)

lemma sorted_wrt_remove1: "sorted_wrt R xs \<Longrightarrow> sorted_wrt R (remove1 x xs)"
  by (induction xs) (auto dest: in_set_remove1 [THEN iffD1, rotated] notin_set_remove1 intro: set_remove1_subset [THEN subsetD])

lemma block_pages_remove1:
  assumes "sorted_wrt (\<lambda>b c. block_pages b \<inter> block_pages c = {}) B" "\<forall>b \<in> set B. block_pages b \<noteq> {}" "b \<in> set B"
  shows "(\<Union>c \<in> set (remove1 b B). block_pages c) = (\<Union>c \<in> set B. block_pages c) - block_pages b"
    and "c \<in> set (remove1 b B) \<Longrightarrow> block_pages c \<inter> block_pages b = {}"
proof -
  have d: "\<forall>c \<in> set (remove1 b B). block_pages c \<inter> block_pages b = {}"
    using assms by (induction B) (auto split: if_splits dest: notin_set_remove1)
  have e: "set B = insert b (set (remove1 b B))" using assms(3) by (induction B) auto
  show "(\<Union>c \<in> set (remove1 b B). block_pages c) = (\<Union>c \<in> set B. block_pages c) - block_pages b"
    unfolding e using d by blast
  show "c \<in> set (remove1 b B) \<Longrightarrow> block_pages c \<inter> block_pages b = {}" using d by blast
qed

lemma palloc_inv_remove:
  assumes inv: "palloc_inv s B" and b: "b \<in> set B" and p: "pool_ok k" "pool_ok u"
    and same: "pool_base k = pool_base (kernel_pool s)" "pool_base u = pool_base (user_pool s)"
      "bit_cnt (used_map k) = bit_cnt (used_map (kernel_pool s))" "bit_cnt (used_map u) = bit_cnt (used_map (user_pool s))"
    and used: "used_pages k = used_pages (kernel_pool s) - block_pages b" "used_pages u = used_pages (user_pool s) - block_pages b"
  shows "palloc_inv (s\<lparr>kernel_pool := k, user_pool := u, memory := m\<rparr>) (remove1 b B)"
proof -
  note i = inv [unfolded palloc_inv_def]
  have ne: "\<forall>b \<in> set B. block_pages b \<noteq> {}" using i by (auto simp: page_block_def)
  have srt: "sorted_wrt (\<lambda>b c. block_pages b \<inter> block_pages c = {}) B" using i by blast
  note r = block_pages_remove1 [OF srt ne b]
  have sub: "c \<in> set (remove1 b B) \<Longrightarrow> c \<in> set B" for c using set_remove1_subset by fast
  show ?thesis
    unfolding palloc_inv_def
  proof (intro conjI ballI)
    fix c assume c: "c \<in> set (remove1 b B)"
    show "page_block c" using i sub [OF c] by blast
    have "block_pages c \<subseteq> used_pages (kernel_pool s) \<or> block_pages c \<subseteq> used_pages (user_pool s)" using i sub [OF c] by blast
    then show "block_pages c \<subseteq> used_pages (kernel_pool (s\<lparr>kernel_pool := k, user_pool := u, memory := m\<rparr>))
        \<or> block_pages c \<subseteq> used_pages (user_pool (s\<lparr>kernel_pool := k, user_pool := u, memory := m\<rparr>))"
      using r(2) [OF c] used by auto
  next
    show "sorted_wrt (\<lambda>b c. block_pages b \<inter> block_pages c = {}) (remove1 b B)" using srt by (rule sorted_wrt_remove1)
    show "used_pages (kernel_pool (s\<lparr>kernel_pool := k, user_pool := u, memory := m\<rparr>)) \<union> used_pages (user_pool (s\<lparr>kernel_pool := k, user_pool := u, memory := m\<rparr>))
        = (\<Union>b \<in> set (remove1 b B). block_pages b)"
      using r(1) i used by auto
  qed (use i p same in \<open>simp_all add: first_page_def\<close>)
qed

lemma palloc_free_law:
  assumes inv: "palloc_inv s B" and b: "(PGSIZE * j, PGSIZE * n) \<in> set B"
  shows "\<exists>s'. palloc_free_multiple (PGSIZE * j) n s = Inr s' \<and> palloc_inv s' (remove1 (PGSIZE * j, PGSIZE * n) B)
    \<and> memory s' = (\<lambda>x. if PGSIZE * j \<le> x \<and> x < PGSIZE * (j + n) then to_char 0xcc else memory s x)"
proof -
  let ?b = "(PGSIZE * j, PGSIZE * n)" and ?k = "kernel_pool s" and ?u = "user_pool s"
  let ?m = "\<lambda>x. if PGSIZE * j \<le> x \<and> x < PGSIZE * (j + n) then to_char 0xcc else memory s x"
  note i = inv [unfolded palloc_inv_def]
  have k: "pool_ok ?k" and u: "pool_ok ?u" using i by simp_all
  have jn: "0 < j" "0 < n" using i b by (auto simp: page_block_def)
  have "pg_ofs (PGSIZE * j) = 0" by (simp add: pg_ofs_mod)
  moreover have "j + n \<le> 2 ^ 20"
  proof -
    have "j + n - 1 \<in> used_pages ?k \<union> used_pages ?u" using i b jn by fastforce
    then show ?thesis using used_pages_range [of ?k] used_pages_range [of ?u] pool_okD(4) [OF k] pool_okD(4) [OF u] by fastforce
  qed
  then have "PGSIZE * n < 2 ^ 32" using jn by (simp add: PGSIZE_def)
  then have ms: "memset (memory s) (PGSIZE * j) 0xcc (size_t (PGSIZE * n)) = Inr (?m, PGSIZE * j)"
    using jn by (simp add: memset_eq distrib_left)
  consider (kernel) "{j..<j + n} \<subseteq> used_pages ?k" | (user) "{j..<j + n} \<subseteq> used_pages ?u" using i b by fastforce
  then show ?thesis
  proof cases
    case kernel
    then obtain p where p: "free_in_pool ?k (PGSIZE * j) n = Inr (?k\<lparr>used_map := p\<rparr>)" "pool_ok (?k\<lparr>used_map := p\<rparr>)"
      "bit_cnt p = bit_cnt (used_map ?k)" "used_pages (?k\<lparr>used_map := p\<rparr>) = used_pages ?k - {j..<j + n}"
      using pool_give [OF k jn(2)] by blast
    let ?s = "s\<lparr>kernel_pool := ?k\<lparr>used_map := p\<rparr>, user_pool := ?u, memory := ?m\<rparr>"
    have "j \<in> used_pages ?k" using kernel jn by auto
    then have "page_from_pool ?k (PGSIZE * j)" using page_from_pool_iff [OF k] by (simp add: used_pages_def)
    with p(1) ms jn calculation have "palloc_free_multiple (PGSIZE * j) n s = Inr ?s" by (simp add: palloc_free_multiple_def)
    moreover have "palloc_inv ?s (remove1 ?b B)"
      using p kernel pools_apart [OF inv] by (intro palloc_inv_remove [OF inv b]) (auto simp: u)
    ultimately show ?thesis by (intro exI [of _ ?s]) simp
  next
    case user
    then obtain p where p: "free_in_pool ?u (PGSIZE * j) n = Inr (?u\<lparr>used_map := p\<rparr>)" "pool_ok (?u\<lparr>used_map := p\<rparr>)"
      "bit_cnt p = bit_cnt (used_map ?u)" "used_pages (?u\<lparr>used_map := p\<rparr>) = used_pages ?u - {j..<j + n}"
      using pool_give [OF u jn(2)] by blast
    let ?s = "s\<lparr>kernel_pool := ?k, user_pool := ?u\<lparr>used_map := p\<rparr>, memory := ?m\<rparr>"
    have "j \<in> used_pages ?u" using user jn by auto
    then have "page_from_pool ?u (PGSIZE * j)" "\<not> page_from_pool ?k (PGSIZE * j)"
      using page_from_pool_iff [OF u] page_from_pool_iff [OF k] i by (auto simp: used_pages_def)
    with p(1) ms jn calculation have "palloc_free_multiple (PGSIZE * j) n s = Inr ?s" by (simp add: palloc_free_multiple_def)
    moreover have "palloc_inv ?s (remove1 ?b B)"
      using p user pools_apart [OF inv] by (intro palloc_inv_remove [OF inv b]) (auto simp: k)
    ultimately show ?thesis by (intro exI [of _ ?s]) simp
  qed
qed


subsection \<open>Start-up\<close>

lemma buf_size_eq: "n < 2 ^ 20 \<Longrightarrow> elem_cnt n = (n + 31) div 32 \<and> bitmap_buf_size n = 8 + 4 * ((n + 31) div 32)"
  by (simp add: bitmap_buf_size_def byte_cnt_def elem_cnt_def DIV_ROUND_UP_def ELEM_BITS_def)

lemma bm_pages_bounds:
  assumes n: "0 < n" "n < 2 ^ 20"
  defines "bm \<equiv> DIV_ROUND_UP (bitmap_buf_size n) PGSIZE"
  shows "bm \<le> n" "0 < bm" "bitmap_buf_size (n - bm) \<le> bm * PGSIZE" "elem_cnt (n - bm) \<le> (bm * PGSIZE - 8) div 4"
    "32768 * bm \<le> n + 32855"
proof -
  define q where "q = (n + 31) div 32"
  let ?b = "8 + 4 * q"
  have b: "bitmap_buf_size n = ?b" using buf_size_eq [OF n(2)] by (simp add: q_def)
  have "32 * q \<le> n + 31" by (simp add: q_def)
  then have b2: "8 * ?b \<le> n + 95" by simp
  have bm: "bm = (?b + 4095) div 4096" using b b2 n by (simp add: bm_def DIV_ROUND_UP_def PGSIZE_def)
  then have bm2: "?b \<le> bm * 4096" "bm * 4096 \<le> ?b + 4095" by linarith+
  then show "0 < bm" by linarith
  show "32768 * bm \<le> n + 32855" using bm2(2) b2 by simp
  then show "bm \<le> n" using n(1) by simp
  have "elem_cnt (n - bm) = (n - bm + 31) div 32 \<and> bitmap_buf_size (n - bm) = 8 + 4 * ((n - bm + 31) div 32)"
    using n by (intro buf_size_eq) simp
  moreover have "(n - bm + 31) div 32 \<le> q" unfolding q_def by (intro div_le_mono) simp
  ultimately show "bitmap_buf_size (n - bm) \<le> bm * PGSIZE" "elem_cnt (n - bm) \<le> (bm * PGSIZE - 8) div 4"
    using bm2 by (auto simp: PGSIZE_def)
qed

lemma init_pool_ok:
  assumes n: "0 < n" "0 < f" "f + n < 2 ^ 20"
  shows "\<exists>p. init_pool (PGSIZE * f) n m = Inr p \<and> pool_ok p \<and> f \<le> first_page p
    \<and> first_page p + bit_cnt (used_map p) = f + n \<and> used_pages p = {} \<and> 32768 * n \<le> 32768 * bit_cnt (used_map p) + n + 32855"
proof -
  define bm where "bm = DIV_ROUND_UP (bitmap_buf_size n) PGSIZE"
  have "n < 2 ^ 20" using n by simp
  note bb = bm_pages_bounds [OF n(1) this, folded bm_def]
  have small: "size_t (bm * PGSIZE) = bm * PGSIZE" "size_t (PGSIZE * f + bm * PGSIZE) = PGSIZE * (f + bm)"
    using bb(1) n by (simp_all add: PGSIZE_def)
  let ?es = "map (\<lambda>i. word_at m (PGSIZE * f + 8 + 4 * i)) [0..<(bm * PGSIZE - 8) div 4]"
  have le: "n - bm \<le> 2 ^ 32 - 32" using n by simp
  obtain b where b: "bitmap_create_in_buf (n - bm) ?es (bm * PGSIZE) = Inr b" "bitmap_ok b" "bits_of b = replicate (n - bm) False"
    using bitmap_create_ok(2) [OF le, of ?es "bm * PGSIZE"] bb by auto
  let ?p = "\<lparr>used_map = b, pool_base = PGSIZE * (f + bm)\<rparr>"
  have cnt: "bit_cnt b = n - bm" using b(3) by (metis length_bits_of length_replicate)
  have "init_pool (PGSIZE * f) n m = Inr ?p"
    using b(1) bb(1) small by (simp add: init_pool_def bm_def [symmetric] Let_def)
  moreover have "first_page ?p = f + bm" by (simp add: first_page_def)
  moreover have "pool_ok ?p"
    using b(2) n bb(1) cnt by (simp add: pool_ok_def) (simp add: PGSIZE_def)
  moreover have "used_pages ?p = {}"
    using b(3) cnt by (auto simp: used_pages_def simp del: nth_bits_of)
  ultimately show ?thesis using cnt bb(1,5) by (intro exI [of _ ?p]) simp
qed

lemma palloc_init_ok:
  assumes P: "258 \<le> P" "P < 2 ^ 18" and limit: "0 < limit"
  shows "\<exists>s. palloc_init P limit m = Inr s \<and> palloc_inv s [] \<and> memory s = m
    \<and> P - 256 \<le> 2 * (bit_cnt (used_map (kernel_pool s)) + 10)"
proof -
  let ?f = "0xc0100 :: nat"
  define n where "n = P - 256"
  define u where "u = (if n div 2 > limit then limit else n div 2)"
  have n: "P = 256 + n" "2 \<le> n" "n < 2 ^ 18 - 256" using P by (simp_all add: n_def)
  then have u: "0 < u" "u \<le> n div 2" using limit by (auto simp: u_def)
  then have k: "0 < n - u" "n - u + u = n" using n by linarith+
  have start: "ptov (1024 * 1024) = Inr (PGSIZE * ?f)" by (simp add: ptov_def PHYS_BASE_def PGSIZE_def)
  have "ptov (size_t ((256 + n) * PGSIZE)) = Inr (PGSIZE * (?f + n))" using n(3) by (simp add: ptov_def PHYS_BASE_def PGSIZE_def)
  moreover have "c_int (int (PGSIZE * (?f + n)) - int (PGSIZE * ?f)) = Inr (int (PGSIZE * n))"
    using n(3) by (simp add: c_int_def PGSIZE_def)
  moreover have "nat ((int (PGSIZE * n) sdiv int PGSIZE) mod 2 ^ 32) = n"
    using n(3) by (simp add: sdiv_nonneg) 
  moreover have "size_t (PGSIZE * ?f + (n - u) * PGSIZE) = PGSIZE * (?f + (n - u))"
    using n(3) by (simp add: PGSIZE_def)
  moreover obtain kp where kp: "init_pool (PGSIZE * ?f) (n - u) m = Inr kp" "pool_ok kp"
    "first_page kp + bit_cnt (used_map kp) = ?f + (n - u)" "used_pages kp = {}"
    "32768 * (n - u) \<le> 32768 * bit_cnt (used_map kp) + (n - u) + 32855"
    using init_pool_ok [OF k(1), of ?f m] n(3) less_imp_diff_less [of n _ u] by auto
  moreover obtain up where up: "init_pool (PGSIZE * (?f + (n - u))) u m = Inr up" "pool_ok up"
    "?f + (n - u) \<le> first_page up" "used_pages up = {}"
    using init_pool_ok [OF u(1), of "?f + (n - u)" m] n k by auto
  ultimately have "palloc_init P limit m = Inr \<lparr>kernel_pool = kp, user_pool = up, memory = m\<rparr>"
    unfolding palloc_init_def start n(1) by (simp only: rbind_Inr Let_def u_def [symmetric])
  moreover have "palloc_inv \<lparr>kernel_pool = kp, user_pool = up, memory = m\<rparr> []"
    using kp up by (simp add: palloc_inv_def)
  moreover have "n - u < 2 ^ 18" using n(3) by simp
  then have "n \<le> 2 * (bit_cnt (used_map kp) + 10)" using kp(5) u(2) by simp
  ultimately show ?thesis by (simp add: n_def)
qed


subsection \<open>The page allocator is an allocator\<close>

interpretation pa: allocator palloc_inv "\<lambda>r. palloc_get_multiple (fst r) (snd r)"
    "\<lambda>b. palloc_free_multiple (fst b) (snd b div PGSIZE)" "\<lambda>m s. s\<lparr>memory := m\<rparr>" "\<lambda>r. PGSIZE * snd r"
    "\<lambda>_. True" "\<lambda>r e. e = Panic \<and> fst r AND PAL_ASSERT \<noteq> 0"
proof (unfold_locales, goal_cases)
  case (1 s B r)
  have "PGSIZE * j \<noteq> 0" if "0 < j" for j using that by simp
  then show ?case using palloc_get_law [OF 1(1), of "fst r" "snd r"] 1(1) by blast
next
  case (2 s B b)
  then have "page_block b" by (auto simp: palloc_inv_def)
  then obtain j n where "b = (PGSIZE * j, PGSIZE * n)" by (auto simp: page_block_def)
  then show ?case using palloc_free_law [of s B j n] 2 by auto
qed (simp_all add: palloc_inv_memory palloc_inv_apart)

text \<open>A pool without a block in use serves every request that fits.\<close>

lemma palloc_get_fresh:
  assumes inv: "palloc_inv s []" and n: "0 < n" "n \<le> bit_cnt (used_map (kernel_pool s))"
  shows "palloc_get_multiple 0 n s \<noteq> Inr (0, s)"
proof
  assume null: "palloc_get_multiple 0 n s = Inr (0, s)"
  let ?p = "kernel_pool s"
  have p: "pool_ok ?p" and e: "used_pages ?p = {}" using inv by (auto simp: palloc_inv_def)
  have "\<not> bits_of (used_map ?p) ! k" if "k < bit_cnt (used_map ?p)" for k
  proof -
    have "first_page ?p + k \<notin> used_pages ?p" using e by simp
    then show ?thesis using that by (simp add: used_pages_def del: nth_bits_of)
  qed
  then have "run_at (used_map ?p) n False 0" using n(2) by (simp add: run_at_def del: nth_bits_of)
  with pool_take [OF p, of n] obtain i b where b: "bitmap_scan_and_flip (used_map ?p) 0 n False = Inr (i, b)" "i \<noteq> BITMAP_ERROR"
    "i + n \<le> bit_cnt (used_map ?p)" by blast
  have "PGSIZE * (first_page ?p + i) < PGSIZE * 2 ^ 20" using pool_okD(4) [OF p] b(3) n(1) by simp
  then have lt: "PGSIZE * (first_page ?p + i) < 2 ^ 32" by (simp add: PGSIZE_def)
  then have "size_t (pool_base ?p + size_t (PGSIZE * i)) = PGSIZE * (first_page ?p + i)"
    using pool_okD(2) [OF p] by (simp add: distrib_left)
  then show False using null b(1,2) n(1) pool_okD(3) [OF p] by (simp add: palloc_get_multiple_def pool_of_def Let_def)
qed

text \<open>C10. Pages are never shared. However clients obtain, free and write to pages after start-up, the blocks
  they hold never overlap, each of them can be freed without failing an assertion, and the only
  call that can stop the kernel is one that asks for a panic when memory runs out.\<close>

theorem pages_never_shared:
  assumes "258 \<le> ram_pages" "ram_pages < 2 ^ 18" "0 < limit"
  shows "\<exists>s0. palloc_init ram_pages limit m = Inr s0 \<and>
    (case serve (\<lambda>r. palloc_get_multiple (fst r) (snd r)) (\<lambda>b. palloc_free_multiple (fst b) (snd b div PGSIZE))
        (\<lambda>m s. s\<lparr>memory := m\<rparr>) (\<lambda>r. PGSIZE * snd r) rs s0 [] of
      Inl e \<Rightarrow> e = Panic \<and> (\<exists>flags n. Get (flags, n) \<in> set rs \<and> flags AND PAL_ASSERT \<noteq> 0)
    | Inr (s, B) \<Rightarrow> sorted_wrt apart B \<and> (\<forall>b \<in> set B. \<exists>s'. palloc_free_multiple (fst b) (snd b div PGSIZE) s = Inr s'))"
proof -
  obtain s0 where s0: "palloc_init ram_pages limit m = Inr s0" "palloc_inv s0 []" using palloc_init_ok [OF assms] by blast
  have "list_all (asks (\<lambda>_. True)) rs" by (simp add: list_all_iff asks_def split: request.split)
  from pa.serve_safe [OF s0(2) this] show ?thesis using s0(1) by (auto split: sum.splits)
qed

theorem pages_never_shared_witness:
  "\<exists>s0. palloc_init 1024 512 (\<lambda>_. NUL) = Inr s0 \<and>
    (case serve (\<lambda>r. palloc_get_multiple (fst r) (snd r)) (\<lambda>b. palloc_free_multiple (fst b) (snd b div PGSIZE))
        (\<lambda>m s. s\<lparr>memory := m\<rparr>) (\<lambda>r. PGSIZE * snd r) [Get (0, 2), Get (PAL_USER, 3), Release 1, Get (PAL_ZERO, 1)] s0 [] of
      Inl e \<Rightarrow> False
    | Inr (s, B) \<Rightarrow> sorted_wrt apart B \<and> (\<forall>b \<in> set B. \<exists>s'. palloc_free_multiple (fst b) (snd b div PGSIZE) s = Inr s'))"
proof -
  define rs :: "(nat \<times> nat) request list" where "rs = [Get (0, 2), Get (PAL_USER, 3), Release 1, Get (PAL_ZERO, 1)]"
  have "\<not> (\<exists>flags n. Get (flags, n) \<in> set rs \<and> flags AND PAL_ASSERT \<noteq> 0)"
    by (auto simp: rs_def PAL_USER_def PAL_ZERO_def PAL_ASSERT_def)
  with pages_never_shared [of 1024 512 "\<lambda>_. NUL" rs] show ?thesis
    unfolding rs_def [symmetric] by (auto split: sum.splits)
qed

end
