(* ===== verification/Malloc.thy ===== *)
theory Malloc
  imports Palloc
begin

text \<open>
  The block allocator, \<^verbatim>\<open>threads/malloc.c\<close>. Requests up to 1 kB are served from arenas, pages divided into
  blocks of one size; larger ones get pages of their own. The arena headers are a map from the address of
  the arena to its structure, and the free lists are sequences of block addresses, so the links that
  lie in free blocks and the headers are not part of \<open>memory\<close>; that they never overlap with memory a
  client holds is what is proved. A page that holds no arena has no magic number. The lock of a descriptor is held over
  every change of its list, so a call is one step.
\<close>

subsection \<open>Descriptors and arenas\<close>

definition ARENA_MAGIC :: nat where "ARENA_MAGIC = 0x9a548eed"

record desc =
  desc_block_size :: nat
  blocks_per_arena :: nat
  free_list :: "nat list"

record arena =
  arena_magic :: nat
  arena_desc :: "nat option"
  free_cnt :: nat

record kernel_heap =
  page_alloc :: page_allocator
  descs :: "desc list"
  arenas :: "nat \<Rightarrow> arena option"

text \<open>The size of an arena's header.\<close>

definition sizeof_arena :: nat where "sizeof_arena = 12"

partial_function (option) desc_loop :: "nat \<Rightarrow> desc list \<Rightarrow> desc list result option" where
  "desc_loop block_size ds =
     (if block_size < PGSIZE div 2 then
        obind (c_assert (length ds + 1 \<le> 10)
          (Inr (ds @ [\<lparr>desc_block_size = block_size, blocks_per_arena = (PGSIZE - sizeof_arena) div block_size, free_list = []\<rparr>])))
          (\<lambda>ds. desc_loop (block_size * 2) ds)
      else Some (Inr ds))"

definition malloc_init :: "page_allocator \<Rightarrow> kernel_heap result" where
  "malloc_init s = rbind (returns (desc_loop 16 [])) (\<lambda>ds. Inr \<lparr>page_alloc = s, descs = ds, arenas = (\<lambda>_. None)\<rparr>)"

fun find_desc :: "nat \<Rightarrow> desc list \<Rightarrow> nat" where
  "find_desc sz [] = 0"
| "find_desc sz (d # ds) = (if desc_block_size d \<ge> sz then 0 else Suc (find_desc sz ds))"

definition block_to_arena :: "kernel_heap \<Rightarrow> nat \<Rightarrow> nat result" where
  "block_to_arena h b =
     (let a = pg_round_down b in c_assert (a \<noteq> 0)
        (case arenas h a of
           None \<Rightarrow> Inl Assertion_failed
         | Some ar \<Rightarrow> c_assert (arena_magic ar = ARENA_MAGIC)
             (case arena_desc ar of
                Some d \<Rightarrow> c_assert (size_t (pg_ofs b + 2 ^ 32 - sizeof_arena) mod desc_block_size (descs h ! d) = 0) (Inr a)
              | None \<Rightarrow> c_assert (pg_ofs b = sizeof_arena) (Inr a))))"

definition arena_to_block :: "kernel_heap \<Rightarrow> nat \<Rightarrow> nat \<Rightarrow> nat result" where
  "arena_to_block h a idx = c_assert (a \<noteq> 0)
     (case arenas h a of
        None \<Rightarrow> Inl Assertion_failed
      | Some ar \<Rightarrow> c_assert (arena_magic ar = ARENA_MAGIC)
          (case arena_desc ar of
             None \<Rightarrow> Inl Out_of_bounds
           | Some d \<Rightarrow> c_assert (idx < blocks_per_arena (descs h ! d))
               (Inr (size_t (a + sizeof_arena + idx * desc_block_size (descs h ! d))))))"

definition set_free :: "nat \<Rightarrow> nat list \<Rightarrow> kernel_heap \<Rightarrow> kernel_heap" where
  "set_free d bs h = h\<lparr>descs := (descs h)[d := (descs h ! d)\<lparr>free_list := bs\<rparr>]\<rparr>"


subsection \<open>Allocating\<close>

definition malloc_big :: "nat \<Rightarrow> kernel_heap \<Rightarrow> (nat \<times> kernel_heap) result" where
  "malloc_big sz h =
     (let page_cnt = DIV_ROUND_UP (size_t (sz + sizeof_arena)) PGSIZE in
      rbind (palloc_get_multiple 0 page_cnt (page_alloc h)) (\<lambda>(a, s).
        let h = h\<lparr>page_alloc := s\<rparr> in
        if a = 0 then Inr (0, h)
        else Inr (a + sizeof_arena,
                  h\<lparr>arenas := (arenas h)(a \<mapsto> \<lparr>arena_magic = ARENA_MAGIC, arena_desc = None, free_cnt = page_cnt\<rparr>)\<rparr>)))"

text \<open>A new arena for descriptor \<open>d\<close>, its blocks put on the free list; null when there is no page.\<close>

definition new_arena :: "nat \<Rightarrow> kernel_heap \<Rightarrow> (bool \<times> kernel_heap) result" where
  "new_arena d h =
     rbind (palloc_get_page 0 (page_alloc h)) (\<lambda>(a, s).
       let h = h\<lparr>page_alloc := s\<rparr> in
       if a = 0 then Inr (False, h)
       else
         let cnt = blocks_per_arena (descs h ! d);
             h = h\<lparr>arenas := (arenas h)(a \<mapsto> \<lparr>arena_magic = ARENA_MAGIC, arena_desc = Some d, free_cnt = cnt\<rparr>)\<rparr>
         in rbind (rfold (\<lambda>i h. rbind (arena_to_block h a i) (\<lambda>b. Inr (set_free d (free_list (descs h ! d) @ [b]) h))) [0..<cnt] h)
              (\<lambda>h. Inr (True, h)))"

text \<open>Taking the first block of a free list that is not empty.\<close>

definition take_block :: "nat \<Rightarrow> kernel_heap \<Rightarrow> (nat \<times> kernel_heap) result" where
  "take_block d h =
     (case free_list (descs h ! d) of
        [] \<Rightarrow> Inl Assertion_failed
      | b # bs \<Rightarrow>
          rbind (block_to_arena (set_free d bs h) b) (\<lambda>a.
            let h = set_free d bs h in
            (case arenas h a of
               None \<Rightarrow> Inl Out_of_bounds
             | Some ar \<Rightarrow> Inr (b, h\<lparr>arenas := (arenas h)(a \<mapsto> ar\<lparr>free_cnt := size_t (free_cnt ar + 2 ^ 32 - 1)\<rparr>)\<rparr>))))"

definition malloc :: "nat \<Rightarrow> kernel_heap \<Rightarrow> (nat \<times> kernel_heap) result" where
  "malloc sz h =
     (if sz = 0 then Inr (0, h)
      else
        let d = find_desc sz (descs h) in
        if d = length (descs h) then malloc_big sz h
        else if free_list (descs h ! d) = [] then
          rbind (new_arena d h) (\<lambda>(ok, h). if ok then take_block d h else Inr (0, h))
        else take_block d h)"

definition heap_memory :: "kernel_heap \<Rightarrow> mem" where
  "heap_memory h = memory (page_alloc h)"

definition set_heap_memory :: "mem \<Rightarrow> kernel_heap \<Rightarrow> kernel_heap" where
  "set_heap_memory m h = h\<lparr>page_alloc := (page_alloc h)\<lparr>memory := m\<rparr>\<rparr>"

definition calloc :: "nat \<Rightarrow> nat \<Rightarrow> kernel_heap \<Rightarrow> (nat \<times> kernel_heap) result" where
  "calloc a b h =
     (let sz = size_t (a * b) in
      if sz < a \<or> sz < b then Inr (0, h)
      else rbind (malloc sz h) (\<lambda>(p, h).
        if p \<noteq> 0 then rbind (memset (heap_memory h) p 0 sz) (\<lambda>(m, _). Inr (p, set_heap_memory m h))
        else Inr (p, h)))"


subsection \<open>Freeing\<close>

definition block_size :: "kernel_heap \<Rightarrow> nat \<Rightarrow> nat result" where
  "block_size h block =
     rbind (block_to_arena h block) (\<lambda>a. case arenas h a of
       None \<Rightarrow> Inl Out_of_bounds
     | Some ar \<Rightarrow> (case arena_desc ar of
         Some d \<Rightarrow> Inr (desc_block_size (descs h ! d))
       | None \<Rightarrow> Inr (size_t (PGSIZE * free_cnt ar + 2 ^ 32 - pg_ofs block))))"

definition remove_free :: "nat \<Rightarrow> nat \<Rightarrow> kernel_heap \<Rightarrow> kernel_heap result" where
  "remove_free d b h = c_assert (b \<in> set (free_list (descs h ! d))) (Inr (set_free d (remove1 b (free_list (descs h ! d))) h))"

definition release_arena :: "nat \<Rightarrow> nat \<Rightarrow> kernel_heap \<Rightarrow> kernel_heap result" where
  "release_arena d a h =
     rbind (rfold (\<lambda>i h. rbind (arena_to_block h a i) (\<lambda>b. remove_free d b h)) [0..<blocks_per_arena (descs h ! d)] h) (\<lambda>h.
     rbind (palloc_free_page a (page_alloc h)) (\<lambda>s.
       Inr (h\<lparr>page_alloc := s, arenas := (arenas h)(a := None)\<rparr>)))"

definition free_small :: "nat \<Rightarrow> nat \<Rightarrow> nat \<Rightarrow> arena \<Rightarrow> kernel_heap \<Rightarrow> kernel_heap result" where
  "free_small d b a ar h =
     rbind (memset (heap_memory h) b 0xcc (desc_block_size (descs h ! d))) (\<lambda>(m, _).
     let h = set_heap_memory m h;
         h = set_free d (b # free_list (descs h ! d)) h;
         cnt = size_t (free_cnt ar + 1);
         h = h\<lparr>arenas := (arenas h)(a \<mapsto> ar\<lparr>free_cnt := cnt\<rparr>)\<rparr>
     in if cnt \<ge> blocks_per_arena (descs h ! d)
        then c_assert (cnt = blocks_per_arena (descs h ! d)) (release_arena d a h)
        else Inr h)"

definition free_block :: "nat \<Rightarrow> kernel_heap \<Rightarrow> kernel_heap result" where
  "free_block p h =
     (if p \<noteq> 0 then
        rbind (block_to_arena h p) (\<lambda>a. case arenas h a of
          None \<Rightarrow> Inl Out_of_bounds
        | Some ar \<Rightarrow> (case arena_desc ar of
            Some d \<Rightarrow> free_small d p a ar h
          | None \<Rightarrow> rbind (palloc_free_multiple a (free_cnt ar) (page_alloc h)) (\<lambda>s.
              Inr (h\<lparr>page_alloc := s, arenas := (arenas h)(a := None)\<rparr>))))
      else Inr h)"

definition realloc :: "nat \<Rightarrow> nat \<Rightarrow> kernel_heap \<Rightarrow> (nat \<times> kernel_heap) result" where
  "realloc old_block new_size h =
     (if new_size = 0 then rbind (free_block old_block h) (\<lambda>h. Inr (0, h))
      else rbind (malloc new_size h) (\<lambda>(new_block, h).
        if old_block \<noteq> 0 \<and> new_block \<noteq> 0 then
          rbind (block_size h old_block) (\<lambda>old_size.
          let min_size = (if new_size < old_size then new_size else old_size) in
          rbind (memcpy (heap_memory h) new_block old_block min_size) (\<lambda>(m, _).
          rbind (free_block old_block (set_heap_memory m h)) (\<lambda>h. Inr (new_block, h))))
        else Inr (new_block, h)))"


subsection \<open>Blocks of an arena\<close>

text \<open>Block sizes and blocks per arena of the seven descriptors.\<close>

definition desc_sizes :: "(nat \<times> nat) list" where
  "desc_sizes = [(16, 255), (32, 127), (64, 63), (128, 31), (256, 15), (512, 7), (1024, 3)]"

abbreviation bsz :: "nat \<Rightarrow> nat" where "bsz d \<equiv> fst (desc_sizes ! d)"
abbreviation bpa :: "nat \<Rightarrow> nat" where "bpa d \<equiv> snd (desc_sizes ! d)"

definition blk :: "nat \<Rightarrow> nat \<Rightarrow> nat \<Rightarrow> nat" where
  "blk d a i = a + sizeof_arena + i * bsz d"

lemma desc_cases:
  assumes "d < 7" shows "(bsz d, bpa d) \<in> set desc_sizes"
  using assms nth_mem [of d desc_sizes] by (simp add: desc_sizes_def)

lemma desc_facts:
  assumes "d < 7" shows "16 \<le> bsz d" "bsz d \<le> 1024" "0 < bpa d" "bpa d < 256" "sizeof_arena + bpa d * bsz d \<le> PGSIZE"
  using desc_cases [OF assms] by (auto simp: desc_sizes_def sizeof_arena_def PGSIZE_def)

lemma blk_offset:
  assumes "d < 7" "i < bpa d"
  shows "sizeof_arena + i * bsz d + bsz d \<le> PGSIZE" "sizeof_arena + i * bsz d < PGSIZE"
proof -
  have "Suc i * bsz d \<le> bpa d * bsz d" using assms(2) by (intro mult_le_mono1) simp
  then show "sizeof_arena + i * bsz d + bsz d \<le> PGSIZE" using desc_facts(5) [OF assms(1)] by simp
  then show "sizeof_arena + i * bsz d < PGSIZE" using desc_facts(1) [OF assms(1)] by simp
qed

lemma blk_page:
  assumes "d < 7" "i < bpa d" "PGSIZE dvd a"
  shows "blk d a i div PGSIZE * PGSIZE = a" "blk d a i mod PGSIZE = sizeof_arena + i * bsz d"
  using blk_offset(2) [OF assms(1,2)] assms(3) by (auto simp: blk_def add.assoc elim!: dvdE)

lemma blk_inj:
  assumes "d < 7" "i < bpa d" "PGSIZE dvd a" "d' < 7" "i' < bpa d'" "PGSIZE dvd a'" "blk d a i = blk d' a' i'"
  shows "a = a'" "d = d' \<Longrightarrow> i = i'"
proof -
  show "a = a'" using blk_page(1) [OF assms(1-3)] blk_page(1) [OF assms(4-6)] assms(7) by simp
  assume "d = d'"
  then show "i = i'" using blk_page(2) [OF assms(1-3)] blk_page(2) [OF assms(4-6)] assms(7) desc_facts(1) [OF assms(1)] by simp
qed


subsection \<open>Free lists\<close>

type_synonym arena_map = "nat \<Rightarrow> arena option"

text \<open>The free blocks of an arena, by index.\<close>

definition free_idx :: "nat \<Rightarrow> nat \<Rightarrow> nat list \<Rightarrow> nat set" where
  "free_idx d a bs = {i. i < bpa d \<and> blk d a i \<in> set bs}"

definition arena_ok :: "(nat \<Rightarrow> nat list) \<Rightarrow> nat \<Rightarrow> arena \<Rightarrow> bool" where
  "arena_ok F a ar \<longleftrightarrow> PGSIZE dvd a \<and> 0 < a \<and> arena_magic ar = ARENA_MAGIC
     \<and> (\<forall>d. arena_desc ar = Some d \<longrightarrow> d < 7 \<and> free_cnt ar = card (free_idx d a (F d)))"

definition small :: "arena_map \<Rightarrow> nat \<Rightarrow> nat \<Rightarrow> bool" where
  "small A d b \<longleftrightarrow> (\<exists>a ar i. A a = Some ar \<and> arena_desc ar = Some d \<and> i < bpa d \<and> b = blk d a i)"

definition big :: "arena_map \<Rightarrow> nat \<Rightarrow> nat \<Rightarrow> bool" where
  "big A p n \<longleftrightarrow> (\<exists>a ar. A a = Some ar \<and> arena_desc ar = None \<and> p = a + sizeof_arena \<and> n + sizeof_arena \<le> PGSIZE * free_cnt ar)"

text \<open>A block a client holds: a block of an arena that is not on the free list, or one with pages of its own.\<close>

definition held :: "arena_map \<Rightarrow> (nat \<Rightarrow> nat list) \<Rightarrow> nat \<times> nat \<Rightarrow> bool" where
  "held A F u \<longleftrightarrow> 0 < snd u \<and> ((\<exists>d. small A d (fst u) \<and> snd u \<le> bsz d \<and> fst u \<notin> set (F d)) \<or> big A (fst u) (snd u))"

definition lists_inv :: "arena_map \<Rightarrow> (nat \<Rightarrow> nat list) \<Rightarrow> (nat \<times> nat) list \<Rightarrow> bool" where
  "lists_inv A F U \<longleftrightarrow> (\<forall>a ar. A a = Some ar \<longrightarrow> arena_ok F a ar)
     \<and> (\<forall>d<7. distinct (F d) \<and> (\<forall>b \<in> set (F d). small A d b))
     \<and> distinct (map fst U) \<and> (\<forall>u \<in> set U. held A F u)"

lemma lists_invD:
  assumes "lists_inv A F U"
  shows "A a = Some ar \<Longrightarrow> arena_ok F a ar" "d < 7 \<Longrightarrow> distinct (F d)" "d < 7 \<Longrightarrow> b \<in> set (F d) \<Longrightarrow> small A d b"
    "distinct (map fst U)" "u \<in> set U \<Longrightarrow> held A F u"
  using assms by (auto simp: lists_inv_def)

lemma finite_free_idx [simp]: "finite (free_idx d a bs)"
  by (simp add: free_idx_def)

lemma arena_okD: "arena_ok F a ar \<Longrightarrow> arena_desc ar = Some d \<Longrightarrow> PGSIZE dvd a \<and> d < 7 \<and> free_cnt ar = card (free_idx d a (F d))"
  by (simp add: arena_ok_def)

text \<open>Changing the list of one descriptor at one block of an arena leaves the other arenas alone.\<close>

lemma free_idx_other:
  assumes "d < 7" "PGSIZE dvd a" "PGSIZE dvd a'" "a \<noteq> a'" "i < bpa d" "set bs' = insert (blk d a i) (set bs)"
  shows "free_idx d a' bs' = free_idx d a' bs"
  using blk_inj(1) [OF assms(1) _ assms(3,1,5,2)] assms(4,6) by (auto simp: free_idx_def)

lemma free_idx_insert:
  assumes "d < 7" "PGSIZE dvd a" "i < bpa d" "set bs' = insert (blk d a i) (set bs)"
  shows "free_idx d a bs' = insert i (free_idx d a bs)"
  using blk_inj(2) [OF assms(1) _ assms(2,1,3,2)] assms(3,4) by (auto simp: free_idx_def)

text \<open>The arena and the descriptor of a block are determined by its address.\<close>

lemma arena_of:
  assumes "lists_inv A F U" "A a = Some ar" "arena_desc ar = Some d" "i < bpa d"
    and "A a' = Some ar'" "arena_desc ar' = Some d'" "i' < bpa d'" "blk d a i = blk d' a' i'"
  shows "a' = a \<and> d' = d \<and> i' = i"
proof -
  note k = arena_okD [OF lists_invD(1) [OF assms(1,2)] assms(3)] arena_okD [OF lists_invD(1) [OF assms(1,5)] assms(6)]
  have "a = a'" using blk_inj(1) [of d i a d' i' a'] k assms by blast
  moreover from this have "d = d'" using assms by simp
  moreover from this have "i = i'" using blk_inj(2) [of d i a d' i' a'] k assms by blast
  ultimately show ?thesis by simp
qed

lemma small_unique: "lists_inv A F U \<Longrightarrow> small A d b \<Longrightarrow> small A d' b \<Longrightarrow> d' = d"
  unfolding small_def using arena_of by blast

lemma big_page: "PGSIZE dvd a \<Longrightarrow> (a + sizeof_arena) div PGSIZE * PGSIZE = a"
  by (auto simp: sizeof_arena_def PGSIZE_def elim!: dvdE)

lemma small_not_big:
  assumes "lists_inv A F U" "small A d b" shows "\<not> big A b n"
proof
  assume "big A b n"
  then obtain a' ar' where b: "A a' = Some ar'" "arena_desc ar' = None" "b = a' + sizeof_arena" by (auto simp: big_def)
  obtain a ar i where s: "A a = Some ar" "arena_desc ar = Some d" "i < bpa d" "b = blk d a i" using assms(2) by (auto simp: small_def)
  have "PGSIZE dvd a'" using lists_invD(1) [OF assms(1) b(1)] by (simp add: arena_ok_def)
  then have "a' = a"
    using big_page [of a'] blk_page(1) [of d i a] arena_okD [OF lists_invD(1) [OF assms(1) s(1)] s(2)] b(3) s(3,4) by simp
  then show False using b s by simp
qed

lemma small_cnt [simp]:
  assumes "A a = Some ar" shows "small (A(a \<mapsto> ar\<lparr>free_cnt := n\<rparr>)) d b = small A d b"
proof -
  have "(\<exists>ar'. (A(a \<mapsto> ar\<lparr>free_cnt := n\<rparr>)) x = Some ar' \<and> arena_desc ar' = Some d)
      \<longleftrightarrow> (\<exists>ar'. A x = Some ar' \<and> arena_desc ar' = Some d)" for x using assms by (cases "x = a") simp_all
  then show ?thesis unfolding small_def by blast
qed

lemma big_cnt:
  assumes "A a = Some ar" "arena_desc ar = Some d" shows "big (A(a \<mapsto> ar\<lparr>free_cnt := n\<rparr>)) p k = big A p k"
proof -
  have "(\<exists>ar'. (A(a \<mapsto> ar\<lparr>free_cnt := n\<rparr>)) x = Some ar' \<and> arena_desc ar' = None \<and> k + sizeof_arena \<le> PGSIZE * free_cnt ar')
      \<longleftrightarrow> (\<exists>ar'. A x = Some ar' \<and> arena_desc ar' = None \<and> k + sizeof_arena \<le> PGSIZE * free_cnt ar')" for x
    using assms by (cases "x = a") simp_all
  then show ?thesis unfolding big_def by blast
qed

lemma held_mono:
  assumes "held A F u" "\<And>d. small A d (fst u) \<Longrightarrow> fst u \<notin> set (F d) \<Longrightarrow> small A' d (fst u) \<and> fst u \<notin> set (F' d)"
    "big A (fst u) (snd u) \<Longrightarrow> big A' (fst u) (snd u)"
  shows "held A' F' u"
  using assms unfolding held_def by blast

lemma arena_ok_list:
  assumes "lists_inv A F U" "A a = Some ar" "arena_desc ar = Some d" "i < bpa d"
    and bs: "set bs = insert (blk d a i) (set (F d)) \<or> insert (blk d a i) (set bs) = set (F d)"
    and a': "A a' = Some ar'" "a' \<noteq> a"
  shows "arena_ok (F(d := bs)) a' ar'"
proof -
  note k = arena_okD [OF lists_invD(1) [OF assms(1,2)] assms(3)]
  note k' = lists_invD(1) [OF assms(1) a'(1)]
  have "free_idx d a' bs = free_idx d a' (F d)"
    using free_idx_other [of d a a' i] k k' assms(4) a'(2) bs unfolding arena_ok_def by metis
  then show ?thesis using k' by (auto simp: arena_ok_def)
qed

text \<open>Taking a block from a free list.\<close>

lemma lists_take:
  assumes inv: "lists_inv A F U" and d: "d < 7" "F d = b # bs"
  shows "\<exists>a ar i. A a = Some ar \<and> arena_desc ar = Some d \<and> i < bpa d \<and> b = blk d a i \<and> 0 < free_cnt ar \<and> free_cnt ar \<le> bpa d
    \<and> (\<forall>n. 0 < n \<and> n \<le> bsz d \<longrightarrow> lists_inv (A(a \<mapsto> ar\<lparr>free_cnt := free_cnt ar - 1\<rparr>)) (F(d := bs)) ((b, n) # U))"
proof -
  obtain a ar i where s: "A a = Some ar" "arena_desc ar = Some d" "i < bpa d" "b = blk d a i"
    using lists_invD(3) [OF inv d(1)] d(2) by (force simp: small_def)
  note k = arena_okD [OF lists_invD(1) [OF inv s(1)] s(2)]
  have nb: "b \<notin> set bs" using lists_invD(2) [OF inv d(1)] d(2) by simp
  have ins: "free_idx d a (b # bs) = insert i (free_idx d a bs)" using k s by (intro free_idx_insert) simp_all
  have "i \<notin> free_idx d a bs" using nb s(4) by (simp add: free_idx_def)
  then have c: "free_cnt ar = Suc (card (free_idx d a bs))" using k ins d(2) by simp
  have "free_idx d a (F d) \<subseteq> {..<bpa d}" by (auto simp: free_idx_def)
  then have le: "free_cnt ar \<le> bpa d" using k card_mono [of "{..<bpa d}"] by simp
  have sb: "small A d b" using s by (auto simp: small_def)
  have new: "b \<notin> fst ` set U"
  proof
    assume "b \<in> fst ` set U"
    then obtain u where u: "u \<in> set U" "fst u = b" by auto
    then show False
      using lists_invD(5) [OF inv u(1)] small_unique [OF inv sb] small_not_big [OF inv sb] d(2) by (auto simp: held_def)
  qed
  have "lists_inv (A(a \<mapsto> ar\<lparr>free_cnt := free_cnt ar - 1\<rparr>)) (F(d := bs)) ((b, n) # U)" if n: "0 < n" "n \<le> bsz d" for n
    unfolding lists_inv_def
  proof (intro conjI allI impI ballI)
    fix a' ar' assume a': "(A(a \<mapsto> ar\<lparr>free_cnt := free_cnt ar - 1\<rparr>)) a' = Some ar'"
    show "arena_ok (F(d := bs)) a' ar'"
    proof (cases "a' = a")
      case True
      then show ?thesis using a' lists_invD(1) [OF inv s(1)] c k s(2) by (auto simp: arena_ok_def)
    next
      case False
      have "set (F d) = insert (blk d a i) (set bs)" using d(2) s(4) by simp
      then show ?thesis using arena_ok_list [OF inv s(1-3), of bs a' ar'] a' False by simp
    qed
  next
    fix d' :: nat assume "d' < 7"
    then show "distinct ((F(d := bs)) d')" using lists_invD(2) [OF inv, of d'] d by auto
    fix b' assume "b' \<in> set ((F(d := bs)) d')"
    then show "small (A(a \<mapsto> ar\<lparr>free_cnt := free_cnt ar - 1\<rparr>)) d' b'"
      using lists_invD(3) [OF inv \<open>d' < 7\<close>, of b'] d s(1) by (auto split: if_splits)
  next
    show "distinct (map fst ((b, n) # U))" using lists_invD(4) [OF inv] new by simp
  next
    fix u assume "u \<in> set ((b, n) # U)"
    then consider "u = (b, n)" | "held A F u" using lists_invD(5) [OF inv, of u] by auto
    then show "held (A(a \<mapsto> ar\<lparr>free_cnt := free_cnt ar - 1\<rparr>)) (F(d := bs)) u"
    proof cases
      case 1
      then show ?thesis using n nb sb s(1) by (auto simp: held_def intro!: exI [of _ d])
    next
      case 2
      then show ?thesis by (rule held_mono) (use s big_cnt d(2) in auto)
    qed
  qed
  then show ?thesis using s c le by (intro exI [of _ a] exI [of _ ar] exI [of _ i]) simp
qed

text \<open>Putting a block back.\<close>

lemma free_idx_card: "card (free_idx d a bs) \<le> bpa d"
proof -
  have "free_idx d a bs \<subseteq> {..<bpa d}" by (auto simp: free_idx_def)
  then show ?thesis using card_mono [of "{..<bpa d}"] by simp
qed

lemma distinct_fst_remove1:
  "distinct (map fst U) \<Longrightarrow> u \<in> set U \<Longrightarrow> v \<in> set (remove1 u U) \<Longrightarrow> v \<in> set U \<and> fst v \<noteq> fst u"
  by (induction U) (auto split: if_splits simp: image_iff)

lemma lists_put:
  assumes inv: "lists_inv A F U" and u: "u \<in> set U" and s: "A a = Some ar" "arena_desc ar = Some d" "i < bpa d" "fst u = blk d a i"
  shows "blk d a i \<notin> set (F d) \<and> free_cnt ar + 1 \<le> bpa d
    \<and> lists_inv (A(a \<mapsto> ar\<lparr>free_cnt := free_cnt ar + 1\<rparr>)) (F(d := blk d a i # F d)) (remove1 u U)"
proof -
  let ?b = "blk d a i"
  note k = arena_okD [OF lists_invD(1) [OF inv s(1)] s(2)]
  have sb: "small A d ?b" using s by (auto simp: small_def)
  have nb: "?b \<notin> set (F d)"
    using lists_invD(5) [OF inv u] small_unique [OF inv sb] small_not_big [OF inv sb] s(4) by (auto simp: held_def)
  have "free_idx d a (?b # F d) = insert i (free_idx d a (F d))" using k s by (intro free_idx_insert) simp_all
  moreover have "i \<notin> free_idx d a (F d)" using nb by (simp add: free_idx_def)
  ultimately have c: "card (free_idx d a (?b # F d)) = free_cnt ar + 1" using k by simp
  have "lists_inv (A(a \<mapsto> ar\<lparr>free_cnt := free_cnt ar + 1\<rparr>)) (F(d := ?b # F d)) (remove1 u U)"
    unfolding lists_inv_def
  proof (intro conjI allI impI ballI)
    fix a' ar' assume a': "(A(a \<mapsto> ar\<lparr>free_cnt := free_cnt ar + 1\<rparr>)) a' = Some ar'"
    show "arena_ok (F(d := ?b # F d)) a' ar'"
    proof (cases "a' = a")
      case True
      then show ?thesis using a' lists_invD(1) [OF inv s(1)] c k s(2) by (auto simp: arena_ok_def)
    next
      case False
      then show ?thesis using arena_ok_list [OF inv s(1-3), of "?b # F d" a' ar'] a' by simp
    qed
  next
    fix d' :: nat assume "d' < 7"
    then show "distinct ((F(d := ?b # F d)) d')" using lists_invD(2) [OF inv, of d'] nb by auto
    fix b' assume "b' \<in> set ((F(d := ?b # F d)) d')"
    then show "small (A(a \<mapsto> ar\<lparr>free_cnt := free_cnt ar + 1\<rparr>)) d' b'"
      using lists_invD(3) [OF inv \<open>d' < 7\<close>, of b'] sb s(1) by (auto split: if_splits)
  next
    show "distinct (map fst (remove1 u U))" using lists_invD(4) [OF inv] by (simp add: distinct_map distinct_remove1 inj_on_def)
  next
    fix v assume "v \<in> set (remove1 u U)"
    then have v: "v \<in> set U" "fst v \<noteq> ?b" using distinct_fst_remove1 [OF lists_invD(4) [OF inv] u] s(4) by auto
    from lists_invD(5) [OF inv v(1)] show "held (A(a \<mapsto> ar\<lparr>free_cnt := free_cnt ar + 1\<rparr>)) (F(d := ?b # F d)) v"
      by (rule held_mono) (use s v(2) big_cnt in auto)
  qed
  then show ?thesis using nb c free_idx_card [of d a "?b # F d"] by simp
qed

text \<open>A new arena, all of whose blocks are free.\<close>

lemma lists_new:
  assumes inv: "lists_inv A F U" and d: "d < 7" and a: "A a = None" "PGSIZE dvd a" "0 < a"
  shows "lists_inv (A(a \<mapsto> \<lparr>arena_magic = ARENA_MAGIC, arena_desc = Some d, free_cnt = bpa d\<rparr>))
    (F(d := F d @ map (blk d a) [0..<bpa d])) U"
proof -
  let ?ar = "\<lparr>arena_magic = ARENA_MAGIC, arena_desc = Some d, free_cnt = bpa d\<rparr>"
  let ?A = "A(a \<mapsto> ?ar)" and ?F = "F(d := F d @ map (blk d a) [0..<bpa d])"
  have old: "b \<noteq> blk d a i" if sb: "small A e b" and i: "i < bpa d" for e b i
  proof
    assume b: "b = blk d a i"
    obtain a' ar' i' where s: "A a' = Some ar'" "arena_desc ar' = Some e" "i' < bpa e" "b = blk e a' i'" using sb by (auto simp: small_def)
    from arena_okD [OF lists_invD(1) [OF inv s(1)] s(2)] have "a' = a" using blk_inj(1) [of e i' a' d i a] s b d a(2) i by simp
    then show False using s a by simp
  qed
  have up: "A x = Some y \<Longrightarrow> ?A x = Some y" for x y using a(1) by auto
  have sm: "small A e b \<Longrightarrow> small ?A e b" "big A b n \<Longrightarrow> big ?A b n" for e b n
    using up unfolding small_def big_def by blast+
  have inj: "inj_on (blk d a) {0..<bpa d}" using blk_inj(2) [OF d _ a(2) d _ a(2)] by (auto simp: inj_on_def)
  show ?thesis
    unfolding lists_inv_def
  proof (intro conjI allI impI ballI)
    fix a' ar' assume a': "?A a' = Some ar'"
    show "arena_ok ?F a' ar'"
    proof (cases "a' = a")
      case True
      have "free_idx d a (F d @ map (blk d a) [0..<bpa d]) = {..<bpa d}" by (auto simp: free_idx_def)
      then have "card (free_idx d a (F d @ map (blk d a) [0..<bpa d])) = bpa d" by simp
      moreover have "ar' = ?ar" using True a' by simp
      ultimately show ?thesis using a d unfolding arena_ok_def True by simp
    next
      case False
      then have "arena_ok F a' ar'" using a' lists_invD(1) [OF inv] by simp
      moreover have "free_idx d a' (?F d) = free_idx d a' (F d)" if al: "PGSIZE dvd a'"
      proof -
        have "\<forall>i<bpa d. blk d a' i \<notin> blk d a ` {0..<bpa d}" using blk_inj(1) [OF d _ al d _ a(2)] False by fastforce
        then show ?thesis by (auto simp: free_idx_def)
      qed
      ultimately show ?thesis by (auto simp: arena_ok_def)
    qed
  next
    fix d' :: nat assume d': "d' < 7"
    have "set (F d) \<inter> blk d a ` {0..<bpa d} = {}" using old [OF lists_invD(3) [OF inv d]] by fastforce
    then show "distinct (?F d')" using lists_invD(2) [OF inv d'] inj by (auto simp: distinct_map)
    fix b' assume "b' \<in> set (?F d')"
    then consider "b' \<in> set (F d')" | i where "d' = d" "i < bpa d" "b' = blk d a i" by (auto split: if_splits)
    then show "small ?A d' b'"
    proof cases
      case 1
      then show ?thesis using lists_invD(3) [OF inv d'] sm by blast
    next
      case 2
      then show ?thesis by (auto simp: small_def)
    qed
  next
    show "distinct (map fst U)" by (rule lists_invD(4) [OF inv])
  next
    fix u assume "u \<in> set U"
    from lists_invD(5) [OF inv this] show "held ?A ?F u"
    proof (rule held_mono)
      fix e assume e: "small A e (fst u)" "fst u \<notin> set (F e)"
      then have "fst u \<notin> set (map (blk d a) [0..<bpa d])" using old [OF e(1)] by fastforce
      then show "small ?A e (fst u) \<and> fst u \<notin> set (?F e)" using sm(1) [OF e(1)] e(2) by auto
    qed (rule sm)
  qed
qed

text \<open>An arena whose blocks are all free is given back.\<close>

lemma lists_drop:
  assumes inv: "lists_inv A F U" and s: "A a = Some ar" "arena_desc ar = Some d" "free_cnt ar = bpa d"
  shows "(\<forall>i<bpa d. blk d a i \<in> set (F d))
    \<and> lists_inv (A(a := None)) (F(d := filter (\<lambda>b. b \<notin> blk d a ` {..<bpa d}) (F d))) U"
proof -
  let ?A = "A(a := None)" and ?F = "F(d := filter (\<lambda>b. b \<notin> blk d a ` {..<bpa d}) (F d))"
  note k = arena_okD [OF lists_invD(1) [OF inv s(1)] s(2)]
  have "free_idx d a (F d) = {..<bpa d}"
    using k s(3) by (intro card_subset_eq) (auto simp: free_idx_def)
  then have all: "\<forall>i<bpa d. blk d a i \<in> set (F d)" by (auto simp: free_idx_def)
  have sm: "small ?A e b" if sb: "small A e b" and nb: "e = d \<Longrightarrow> b \<notin> blk d a ` {..<bpa d}" for e b
  proof -
    obtain a' ar' i' where s': "A a' = Some ar'" "arena_desc ar' = Some e" "i' < bpa e" "b = blk e a' i'" using sb by (auto simp: small_def)
    have "a' \<noteq> a" using s s' nb by auto
    then show ?thesis using s' by (auto simp: small_def)
  qed
  have bg: "big A p n \<Longrightarrow> big ?A p n" for p n using s unfolding big_def by fastforce
  have "lists_inv ?A ?F U"
    unfolding lists_inv_def
  proof (intro conjI allI impI ballI)
    fix a' ar' assume a': "?A a' = Some ar'"
    then have ne: "a' \<noteq> a" and ok: "arena_ok F a' ar'" using lists_invD(1) [OF inv] by (auto split: if_splits)
    have "free_idx d a' (?F d) = free_idx d a' (F d)" if "PGSIZE dvd a'"
      using blk_inj(1) [OF _ _ that, of d _ d _ a] k ne by (auto simp: free_idx_def)
    then show "arena_ok ?F a' ar'" using ok by (auto simp: arena_ok_def)
  next
    fix d' :: nat assume d': "d' < 7"
    then show "distinct (?F d')" using lists_invD(2) [OF inv d'] by auto
    fix b' assume b': "b' \<in> set (?F d')"
    then have "small A d' b'" "d' = d \<Longrightarrow> b' \<notin> blk d a ` {..<bpa d}" using lists_invD(3) [OF inv d', of b'] by (auto split: if_splits)
    then show "small ?A d' b'" by (rule sm)
  next
    show "distinct (map fst U)" by (rule lists_invD(4) [OF inv])
  next
    fix u assume "u \<in> set U"
    from lists_invD(5) [OF inv this] show "held ?A ?F u"
    proof (rule held_mono)
      fix e assume e: "small A e (fst u)" "fst u \<notin> set (F e)"
      then have "e = d \<Longrightarrow> fst u \<notin> blk d a ` {..<bpa d}" using all by auto
      then show "small ?A e (fst u) \<and> fst u \<notin> set (?F e)" using sm [OF e(1)] e(2) by auto
    qed (rule bg)
  qed
  then show ?thesis using all by blast
qed

text \<open>Blocks with pages of their own.\<close>

lemma lists_new_big:
  assumes inv: "lists_inv A F U" and a: "A a = None" "PGSIZE dvd a" "0 < a" and n: "0 < n" "n + sizeof_arena \<le> PGSIZE * k"
  shows "lists_inv (A(a \<mapsto> \<lparr>arena_magic = ARENA_MAGIC, arena_desc = None, free_cnt = k\<rparr>)) F ((a + sizeof_arena, n) # U)"
proof -
  let ?A = "A(a \<mapsto> \<lparr>arena_magic = ARENA_MAGIC, arena_desc = None, free_cnt = k\<rparr>)"
  have up: "A x = Some y \<Longrightarrow> ?A x = Some y" for x y using a(1) by auto
  have sm: "small A e b \<Longrightarrow> small ?A e b" "big A b m \<Longrightarrow> big ?A b m" for e b m
    using up unfolding small_def big_def by blast+
  have new: "a + sizeof_arena \<noteq> fst u" if u: "held A F u" for u
  proof
    assume e: "a + sizeof_arena = fst u"
    from u consider d a' ar' i where "A a' = Some ar'" "arena_desc ar' = Some d" "i < bpa d" "fst u = blk d a' i"
      | a' ar' where "A a' = Some ar'" "fst u = a' + sizeof_arena" by (auto simp: held_def small_def big_def)
    then show False
    proof cases
      case 1
      then have "a' = a" using blk_page(1) [of d i a'] arena_okD [OF lists_invD(1) [OF inv 1(1)] 1(2)] big_page [OF a(2)] e by simp
      then show False using 1 a by simp
    next
      case 2
      then show False using e a by simp
    qed
  qed
  show ?thesis
    unfolding lists_inv_def
  proof (intro conjI allI impI ballI)
    fix a' ar' assume "?A a' = Some ar'"
    then show "arena_ok F a' ar'" using lists_invD(1) [OF inv, of a' ar'] a by (auto simp: arena_ok_def split: if_splits)
  next
    fix d' :: nat assume d': "d' < 7"
    then show "distinct (F d')" by (rule lists_invD(2) [OF inv])
    fix b' assume "b' \<in> set (F d')"
    then show "small ?A d' b'" using lists_invD(3) [OF inv d'] sm by blast
  next
    show "distinct (map fst ((a + sizeof_arena, n) # U))" using lists_invD(4) [OF inv] new lists_invD(5) [OF inv] by auto
  next
    fix u assume "u \<in> set ((a + sizeof_arena, n) # U)"
    then consider "u = (a + sizeof_arena, n)" | "held A F u" using lists_invD(5) [OF inv, of u] by auto
    then show "held ?A F u"
    proof cases
      case 1
      then show ?thesis using n by (auto simp: held_def big_def)
    next
      case 2
      then show ?thesis by (rule held_mono) (use sm in auto)
    qed
  qed
qed

lemma lists_drop_big:
  assumes inv: "lists_inv A F U" and s: "A a = Some ar" "arena_desc ar = None" and u: "u \<in> set U" "fst u = a + sizeof_arena"
  shows "lists_inv (A(a := None)) F (remove1 u U)"
proof -
  have sm: "small (A(a := None)) e b" if sb: "small A e b" for e b
  proof -
    obtain a' ar' i' where s': "A a' = Some ar'" "arena_desc ar' = Some e" "i' < bpa e" "b = blk e a' i'" using sb by (auto simp: small_def)
    then have "a' \<noteq> a" using s by auto
    then show ?thesis using s' by (auto simp: small_def)
  qed
  show ?thesis
    unfolding lists_inv_def
  proof (intro conjI allI impI ballI)
    fix a' ar' assume "(A(a := None)) a' = Some ar'"
    then show "arena_ok F a' ar'" using lists_invD(1) [OF inv] by (auto split: if_splits)
  next
    fix d' :: nat assume d': "d' < 7"
    then show "distinct (F d')" by (rule lists_invD(2) [OF inv])
    fix b' assume "b' \<in> set (F d')"
    then show "small (A(a := None)) d' b'" using lists_invD(3) [OF inv d'] sm by blast
  next
    show "distinct (map fst (remove1 u U))" using lists_invD(4) [OF inv] by (simp add: distinct_map distinct_remove1 inj_on_def)
  next
    fix v assume "v \<in> set (remove1 u U)"
    then have v: "v \<in> set U" "fst v \<noteq> a + sizeof_arena" using distinct_fst_remove1 [OF lists_invD(4) [OF inv] u(1)] u(2) by auto
    from lists_invD(5) [OF inv v(1)] show "held (A(a := None)) F v"
      by (rule held_mono) (use sm v(2) in \<open>auto simp: big_def\<close>)
  qed
qed


subsection \<open>Arenas and pages\<close>

definition arena_bytes :: "arena \<Rightarrow> nat" where
  "arena_bytes ar = PGSIZE * (case arena_desc ar of None \<Rightarrow> free_cnt ar | Some d \<Rightarrow> 1)"

text \<open>The blocks of pages obtained from the page allocator are the arenas.\<close>

definition pages_inv :: "page_allocator \<Rightarrow> arena_map \<Rightarrow> bool" where
  "pages_inv s A \<longleftrightarrow> (\<exists>B. palloc_inv s B \<and> (\<forall>a n. (a, n) \<in> set B \<longleftrightarrow> (\<exists>ar. A a = Some ar \<and> n = arena_bytes ar)))"

lemma used_page_bound: "x \<in> used_pages p \<Longrightarrow> pool_ok p \<Longrightarrow> x < 2 ^ 20"
  using subsetD [OF used_pages_range, of x p] pool_okD(4) [of p] by simp

lemma palloc_block:
  assumes "palloc_inv s B" "(a, n) \<in> set B"
  shows "\<exists>j k. a = PGSIZE * j \<and> n = PGSIZE * k \<and> 0 < j \<and> 0 < k \<and> j + k \<le> 2 ^ 20"
proof -
  note i = assms(1) [unfolded palloc_inv_def]
  obtain j k where b: "a = PGSIZE * j" "n = PGSIZE * k" "0 < j" "0 < k" using i assms(2) by (auto simp: page_block_def)
  have "block_pages (a, n) \<subseteq> used_pages (kernel_pool s) \<union> used_pages (user_pool s)" using i assms(2) by blast
  moreover have "j + k - 1 \<in> block_pages (a, n)" using b by simp
  ultimately have "j + k - 1 \<in> used_pages (kernel_pool s) \<or> j + k - 1 \<in> used_pages (user_pool s)" by blast
  then have "j + k - 1 < 2 ^ 20"
    using used_page_bound [OF _ conjunct1 [OF i]] used_page_bound [OF _ conjunct1 [OF conjunct2 [OF i]]] by blast
  then show ?thesis using b by (intro exI [of _ j] exI [of _ k]) simp
qed

lemma pages_arena:
  assumes "pages_inv s A" "A a = Some ar"
  shows "\<exists>j k. a = PGSIZE * j \<and> arena_bytes ar = PGSIZE * k \<and> 0 < j \<and> 0 < k \<and> j + k \<le> 2 ^ 20"
proof -
  obtain B where B: "palloc_inv s B" "(a, arena_bytes ar) \<in> set B" using assms by (auto simp: pages_inv_def)
  show ?thesis by (rule palloc_block [OF B])
qed

lemma sorted_wrt_pair: "sorted_wrt R xs \<Longrightarrow> x \<in> set xs \<Longrightarrow> y \<in> set xs \<Longrightarrow> x \<noteq> y \<Longrightarrow> R x y \<or> R y x"
  by (induction xs) auto

lemma pages_apart:
  assumes "pages_inv s A" "A a = Some ar" "A a' = Some ar'" "a \<noteq> a'"
  shows "apart (a, arena_bytes ar) (a', arena_bytes ar')"
proof -
  obtain B where B: "palloc_inv s B" "(a, arena_bytes ar) \<in> set B" "(a', arena_bytes ar') \<in> set B" using assms by (auto simp: pages_inv_def)
  have "apart (a, arena_bytes ar) (a', arena_bytes ar') \<or> apart (a', arena_bytes ar') (a, arena_bytes ar)"
    using sorted_wrt_pair [OF palloc_inv_apart [OF B(1)] B(2,3)] assms(4) by simp
  then show ?thesis by (auto simp: apart_def)
qed

lemma pages_cnt: "pages_inv s A \<Longrightarrow> A a = Some ar \<Longrightarrow> arena_desc ar = Some d \<Longrightarrow> pages_inv s (A(a \<mapsto> ar\<lparr>free_cnt := n\<rparr>))"
  unfolding pages_inv_def by (erule ex_forward) (auto simp: arena_bytes_def)

lemma pages_memory: "pages_inv (s\<lparr>memory := m\<rparr>) A = pages_inv s A"
  by (simp add: pages_inv_def palloc_inv_memory)

lemma pages_get:
  assumes inv: "pages_inv s A"
  shows "palloc_get_multiple 0 n s = Inr (0, s)
    \<or> (\<exists>j s'. 0 < j \<and> 0 < n \<and> j + n \<le> 2 ^ 20 \<and> palloc_get_multiple 0 n s = Inr (PGSIZE * j, s') \<and> A (PGSIZE * j) = None \<and> memory s' = memory s
        \<and> (\<forall>ar. arena_bytes ar = PGSIZE * n \<longrightarrow> pages_inv s' (A(PGSIZE * j \<mapsto> ar))))"
proof -
  obtain B where B: "palloc_inv s B" "\<forall>a n. (a, n) \<in> set B \<longleftrightarrow> (\<exists>ar. A a = Some ar \<and> n = arena_bytes ar)"
    using inv by (auto simp: pages_inv_def)
  from palloc_get_law [OF B(1), of 0 n] consider "palloc_get_multiple 0 n s = Inr (0, s)"
    | j s' where "0 < j" "0 < n" "j + n \<le> 2 ^ 20" "palloc_get_multiple 0 n s = Inr (PGSIZE * j, s')" "palloc_inv s' ((PGSIZE * j, PGSIZE * n) # B)" "memory s' = memory s"
    by auto
  then show ?thesis
  proof cases
    case 2
    have "A (PGSIZE * j) = None"
    proof (rule ccontr)
      assume "A (PGSIZE * j) \<noteq> None"
      then obtain ar where "A (PGSIZE * j) = Some ar" by auto
      with B(2) have b: "(PGSIZE * j, arena_bytes ar) \<in> set B" by blast
      obtain k where k: "arena_bytes ar = PGSIZE * k" "0 < k" using palloc_block [OF B(1) b] by auto
      have "{j..<j + n} \<inter> {j..<j + k} = {}" using 2(5) b k by (auto simp: palloc_inv_def)
      then show False using 2(2) k(2) by auto
    qed
    then have "pages_inv s' (A(PGSIZE * j \<mapsto> ar))" if "arena_bytes ar = PGSIZE * n" for ar
      unfolding pages_inv_def using 2(5) B(2) that by (intro exI [of _ "(PGSIZE * j, PGSIZE * n) # B"]) auto
    then show ?thesis using 2 \<open>A (PGSIZE * j) = None\<close> by blast
  qed simp
qed

lemma pages_free:
  assumes inv: "pages_inv s A" and a: "A a = Some ar"
  shows "\<exists>s'. palloc_free_multiple a (arena_bytes ar div PGSIZE) s = Inr s' \<and> pages_inv s' (A(a := None))
    \<and> (\<forall>x. x < a \<or> a + arena_bytes ar \<le> x \<longrightarrow> memory s' x = memory s x)"
proof -
  obtain B where B: "palloc_inv s B" "\<forall>a n. (a, n) \<in> set B \<longleftrightarrow> (\<exists>ar. A a = Some ar \<and> n = arena_bytes ar)"
    using inv by (auto simp: pages_inv_def)
  obtain j k where jk: "a = PGSIZE * j" "arena_bytes ar = PGSIZE * k" using pages_arena [OF assms] by blast
  have b: "(PGSIZE * j, PGSIZE * k) \<in> set B" using B(2) a jk by metis
  from palloc_free_law [OF B(1) b] obtain s' where s': "palloc_free_multiple (PGSIZE * j) k s = Inr s'"
    "palloc_inv s' (remove1 (PGSIZE * j, PGSIZE * k) B)"
    "memory s' = (\<lambda>x. if PGSIZE * j \<le> x \<and> x < PGSIZE * (j + k) then to_char 0xcc else memory s x)" by blast
  have "distinct B"
  proof -
    have "sorted_wrt (\<lambda>b c. block_pages b \<inter> block_pages c = {}) B" "\<forall>b \<in> set B. block_pages b \<noteq> {}"
      using B(1) by (auto simp: palloc_inv_def page_block_def)
    then show ?thesis by (induction B) auto
  qed
  then have "set (remove1 (PGSIZE * j, PGSIZE * k) B) = set B - {(PGSIZE * j, PGSIZE * k)}" by simp
  then have "pages_inv s' (A(a := None))"
    unfolding pages_inv_def using s'(2) B(2) a jk by (intro exI [of _ "remove1 (PGSIZE * j, PGSIZE * k) B"]) auto
  then show ?thesis using s'(1,3) jk by (simp add: distrib_left)
qed


subsection \<open>The invariant of the heap\<close>

definition descs_ok :: "desc list \<Rightarrow> bool" where
  "descs_ok ds \<longleftrightarrow> map (\<lambda>d. (desc_block_size d, blocks_per_arena d)) ds = desc_sizes"

definition fl :: "kernel_heap \<Rightarrow> nat \<Rightarrow> nat list" where
  "fl h d = free_list (descs h ! d)"

definition heap_inv :: "kernel_heap \<Rightarrow> (nat \<times> nat) list \<Rightarrow> bool" where
  "heap_inv h U \<longleftrightarrow> descs_ok (descs h) \<and> pages_inv (page_alloc h) (arenas h) \<and> lists_inv (arenas h) (fl h) U"

lemma descs_okD:
  assumes "descs_ok ds"
  shows "length ds = 7" "d < 7 \<Longrightarrow> desc_block_size (ds ! d) = bsz d" "d < 7 \<Longrightarrow> blocks_per_arena (ds ! d) = bpa d"
proof -
  have m: "map (\<lambda>d. (desc_block_size d, blocks_per_arena d)) ds = desc_sizes" using assms by (simp add: descs_ok_def)
  then have l: "length ds = length desc_sizes" by (metis length_map)
  then show l7: "length ds = 7" by (simp add: desc_sizes_def)
  have "d < 7 \<Longrightarrow> (desc_block_size (ds ! d), blocks_per_arena (ds ! d)) = desc_sizes ! d"
    using m l7 by (metis (no_types, lifting) nth_map)
  then show "d < 7 \<Longrightarrow> desc_block_size (ds ! d) = bsz d" "d < 7 \<Longrightarrow> blocks_per_arena (ds ! d) = bpa d"
    by (metis fst_conv) (metis \<open>d < 7 \<Longrightarrow> (desc_block_size (ds ! d), blocks_per_arena (ds ! d)) = desc_sizes ! d\<close> snd_conv)
qed

lemma set_free_simps [simp]:
  "arenas (set_free d bs h) = arenas h" "page_alloc (set_free d bs h) = page_alloc h"
  "set_free d bs (set_free d cs h) = set_free d bs h"
  by (simp_all add: set_free_def) (cases "d < length (descs h)"; simp add: list_update_beyond)

lemma set_free_ok:
  assumes "descs_ok (descs h)" "d < 7"
  shows "descs_ok (descs (set_free d bs h))" "fl (set_free d bs h) = (fl h)(d := bs)"
proof -
  show "descs_ok (descs (set_free d bs h))"
    using assms descs_okD(1) [OF assms(1)] unfolding descs_ok_def set_free_def
    by (simp add: map_update) (metis (no_types, lifting) list_update_id nth_map)
  show "fl (set_free d bs h) = (fl h)(d := bs)"
    using assms(2) descs_okD(1) [OF assms(1)] by (auto simp: fl_def set_free_def fun_eq_iff nth_list_update)
qed

lemma set_free_id: "set_free d (fl h d) h = h"
  by (simp add: set_free_def fl_def)

lemma heap_invD:
  assumes "heap_inv h U"
  shows "descs_ok (descs h)" "pages_inv (page_alloc h) (arenas h)" "lists_inv (arenas h) (fl h) U"
  using assms by (simp_all add: heap_inv_def)

text \<open>Where arenas and blocks are.\<close>

lemma arena_range:
  assumes "pages_inv s A" "A a = Some ar"
  shows "PGSIZE dvd a" "0 < a" "a + PGSIZE \<le> 2 ^ 32" "PGSIZE \<le> arena_bytes ar" "a + arena_bytes ar \<le> 2 ^ 32" "arena_bytes ar < 2 ^ 32"
proof -
  obtain j k where jk: "a = PGSIZE * j" "arena_bytes ar = PGSIZE * k" "0 < j" "0 < k" "j + k \<le> 2 ^ 20"
    using pages_arena [OF assms] by blast
  then show "PGSIZE dvd a" "0 < a" "PGSIZE \<le> arena_bytes ar" by auto
  have "PGSIZE * (j + 1) \<le> PGSIZE * 2 ^ 20" "PGSIZE * (j + k) \<le> PGSIZE * 2 ^ 20" "PGSIZE * k < PGSIZE * 2 ^ 20" using jk by simp_all
  then show "a + PGSIZE \<le> 2 ^ 32" "a + arena_bytes ar \<le> 2 ^ 32" "arena_bytes ar < 2 ^ 32" using jk by (simp_all add: PGSIZE_def)
qed

lemma small_arena:
  assumes p: "pages_inv (page_alloc h) (arenas h)" and ok: "descs_ok (descs h)" and l: "arena_ok F a ar"
    and s: "arenas h a = Some ar" "arena_desc ar = Some d" "i < bpa d"
  shows "block_to_arena h (blk d a i) = Inr a" "arena_to_block h a i = Inr (blk d a i)" "blk d a i \<noteq> 0"
proof -
  note r = arena_range [OF p s(1)]
  have d: "d < 7" and m: "arena_magic ar = ARENA_MAGIC" using l s(2) by (auto simp: arena_ok_def)
  note o = blk_offset [OF d s(3)] and pg = blk_page [OF d s(3) r(1)] and ds = descs_okD(2,3) [OF ok d]
  have lt: "blk d a i < 2 ^ 32" using o(2) r(3) by (simp add: blk_def)
  have rd: "pg_round_down (blk d a i) = a" using pg(1) lt by (simp add: pg_round_down_def clear_ofs_eq)
  have "size_t (pg_ofs (blk d a i) + 2 ^ 32 - sizeof_arena) = i * bsz d"
    using pg(2) o by (simp add: pg_ofs_mod size_t_def PGSIZE_def)
  then show "block_to_arena h (blk d a i) = Inr a" using rd r(2) s m ds by (simp add: block_to_arena_def Let_def)
  show "arena_to_block h a i = Inr (blk d a i)" using r(2) s m ds lt by (simp add: arena_to_block_def) (simp add: blk_def)
  show "blk d a i \<noteq> 0" using r(2) by (simp add: blk_def)
qed

lemma big_arena:
  assumes p: "pages_inv (page_alloc h) (arenas h)" and l: "arena_ok F a ar" and s: "arenas h a = Some ar" "arena_desc ar = None"
  shows "block_to_arena h (a + sizeof_arena) = Inr a"
proof -
  note r = arena_range [OF p s(1)]
  have "pg_round_down (a + sizeof_arena) = a"
    using big_page [OF r(1)] r(3) by (simp add: pg_round_down_def clear_ofs_eq PGSIZE_def sizeof_arena_def)
  moreover have "pg_ofs (a + sizeof_arena) = sizeof_arena" using r(1) by (auto simp: pg_ofs_mod sizeof_arena_def PGSIZE_def elim!: dvdE)
  ultimately show ?thesis using r(2) s l by (simp add: block_to_arena_def arena_ok_def)
qed


subsection \<open>Allocation keeps the invariant\<close>

lemma size_t_dec: "0 < n \<Longrightarrow> n < 2 ^ 32 \<Longrightarrow> size_t (n + 2 ^ 32 - 1) = n - 1"
  by (cases n) (simp_all add: size_t_def)

lemma take_block_law:
  assumes inv: "heap_inv h U" and d: "d < 7" "fl h d \<noteq> []" and n: "0 < n" "n \<le> bsz d"
  shows "\<exists>b h'. take_block d h = Inr (b, h') \<and> b \<noteq> 0 \<and> heap_inv h' ((b, n) # U) \<and> heap_memory h' = heap_memory h"
proof -
  note i = heap_invD [OF inv]
  obtain b bs where f: "fl h d = b # bs" using d(2) by (cases "fl h d") auto
  obtain a ar i where s: "arenas h a = Some ar" "arena_desc ar = Some d" "i < bpa d" "b = blk d a i" "0 < free_cnt ar" "free_cnt ar \<le> bpa d"
    and l: "lists_inv ((arenas h)(a \<mapsto> ar\<lparr>free_cnt := free_cnt ar - 1\<rparr>)) ((fl h)(d := bs)) ((b, n) # U)"
    using lists_take [OF i(3) d(1) f] n by blast
  let ?h = "set_free d bs h"
  note sf = set_free_ok [OF i(1) d(1), of bs]
  have "block_to_arena ?h b = Inr a" "b \<noteq> 0"
    using small_arena [of ?h "fl h" a ar d i] i(2) sf(1) lists_invD(1) [OF i(3) s(1)] s by simp_all
  moreover have "size_t (free_cnt ar + 2 ^ 32 - 1) = free_cnt ar - 1"
    using s(5,6) desc_facts(4) [OF d(1)] by (intro size_t_dec) simp_all
  ultimately have "take_block d h = Inr (b, ?h\<lparr>arenas := (arenas h)(a \<mapsto> ar\<lparr>free_cnt := free_cnt ar - 1\<rparr>)\<rparr>)"
    using f s(1) by (simp add: take_block_def fl_def Let_def)
  moreover have "heap_inv (?h\<lparr>arenas := (arenas h)(a \<mapsto> ar\<lparr>free_cnt := free_cnt ar - 1\<rparr>)\<rparr>) ((b, n) # U)"
    using sf l pages_cnt [OF i(2) s(1,2)] by (simp add: heap_inv_def fl_def [abs_def])
  ultimately show ?thesis using \<open>b \<noteq> 0\<close> by (simp add: heap_memory_def)
qed

lemma push_blocks:
  assumes "pages_inv (page_alloc h) (arenas h)" "descs_ok (descs h)" "arena_ok F a ar" "arenas h a = Some ar" "arena_desc ar = Some d" "n \<le> bpa d"
  shows "rfold (\<lambda>i h. rbind (arena_to_block h a i) (\<lambda>b. Inr (set_free d (free_list (descs h ! d) @ [b]) h))) [0..<n] h
    = Inr (set_free d (fl h d @ map (blk d a) [0..<n]) h)"
  using assms(6)
proof (induction n)
  case 0
  then show ?case by (simp add: set_free_id)
next
  case (Suc n)
  have d: "d < 7" using assms(3,5) by (simp add: arena_ok_def)
  let ?h = "set_free d (fl h d @ map (blk d a) [0..<n]) h"
  note sf = set_free_ok [OF assms(2) d, of "fl h d @ map (blk d a) [0..<n]"]
  have "arena_to_block ?h a n = Inr (blk d a n)"
    using small_arena(2) [of ?h F a ar d n] assms sf(1) Suc.prems by simp
  moreover have "free_list (descs ?h ! d) = fl h d @ map (blk d a) [0..<n]" using fun_cong [OF sf(2), of d] by (simp add: fl_def)
  ultimately show ?case using Suc by (simp add: rfold_append)
qed

lemma new_arena_law:
  assumes inv: "heap_inv h U" and d: "d < 7"
  shows "new_arena d h = Inr (False, h)
    \<or> (\<exists>h'. new_arena d h = Inr (True, h') \<and> heap_inv h' U \<and> fl h' d \<noteq> [] \<and> heap_memory h' = heap_memory h)"
proof -
  note i = heap_invD [OF inv]
  have same: "h\<lparr>page_alloc := page_alloc h\<rparr> = h" by simp
  from pages_get [OF i(2), of 1] consider "palloc_get_multiple 0 1 (page_alloc h) = Inr (0, page_alloc h)"
    | j s' where "0 < j" "palloc_get_multiple 0 1 (page_alloc h) = Inr (PGSIZE * j, s')" "arenas h (PGSIZE * j) = None"
      "memory s' = memory (page_alloc h)" "\<forall>ar. arena_bytes ar = PGSIZE * 1 \<longrightarrow> pages_inv s' ((arenas h)(PGSIZE * j \<mapsto> ar))" by blast
  then show ?thesis
  proof cases
    case 1
    then show ?thesis by (simp add: new_arena_def palloc_get_page_def)
  next
    case 2
    let ?a = "PGSIZE * j" and ?ar = "\<lparr>arena_magic = ARENA_MAGIC, arena_desc = Some d, free_cnt = bpa d\<rparr>"
    let ?h = "h\<lparr>page_alloc := s', arenas := (arenas h)(?a \<mapsto> ?ar)\<rparr>"
    have pg: "pages_inv s' ((arenas h)(?a \<mapsto> ?ar))" using 2(5) by (simp add: arena_bytes_def)
    have fl: "fl ?h = fl h" by (simp add: fl_def fun_eq_iff)
    have l: "lists_inv ((arenas h)(?a \<mapsto> ?ar)) ((fl h)(d := fl h d @ map (blk d ?a) [0..<bpa d])) U"
      using 2(1,3) by (intro lists_new [OF i(3) d]) simp_all
    have "arena_ok ((fl h)(d := fl h d @ map (blk d ?a) [0..<bpa d])) ?a ?ar" by (rule lists_invD(1) [OF l]) simp
    then have "rfold (\<lambda>i h. rbind (arena_to_block h ?a i) (\<lambda>b. Inr (set_free d (free_list (descs h ! d) @ [b]) h))) [0..<bpa d] ?h
        = Inr (set_free d (fl h d @ map (blk d ?a) [0..<bpa d]) ?h)"
      using push_blocks [of ?h _ ?a ?ar d "bpa d"] pg i(1) fl by simp
    then have "new_arena d h = Inr (True, set_free d (fl h d @ map (blk d ?a) [0..<bpa d]) ?h)"
      using 2(1,2) descs_okD(3) [OF i(1) d] by (simp add: new_arena_def palloc_get_page_def Let_def)
    moreover have "heap_inv (set_free d (fl h d @ map (blk d ?a) [0..<bpa d]) ?h) U"
      using l pg set_free_ok [of ?h d] i(1) d fl by (simp add: heap_inv_def)
    moreover have "fl (set_free d (fl h d @ map (blk d ?a) [0..<bpa d]) ?h) d \<noteq> []"
      using set_free_ok(2) [of ?h d] i(1) d desc_facts(3) [OF d] by simp
    ultimately show ?thesis using 2(4) by (simp add: heap_memory_def)
  qed
qed

lemma malloc_big_law:
  assumes inv: "heap_inv h U" and n: "0 < n" "n \<le> 2 ^ 32 - 4108"
  shows "malloc_big n h = Inr (0, h)
    \<or> (\<exists>p h'. malloc_big n h = Inr (p, h') \<and> p \<noteq> 0 \<and> heap_inv h' ((p, n) # U) \<and> heap_memory h' = heap_memory h)"
proof -
  note i = heap_invD [OF inv]
  define k where "k = DIV_ROUND_UP (size_t (n + sizeof_arena)) PGSIZE"
  have "k = (n + 12 + 4095) div 4096" using n by (simp add: k_def sizeof_arena_def PGSIZE_def DIV_ROUND_UP_def)
  then have k: "n + sizeof_arena \<le> PGSIZE * k" by (simp add: sizeof_arena_def PGSIZE_def)
  from pages_get [OF i(2), of k] consider "palloc_get_multiple 0 k (page_alloc h) = Inr (0, page_alloc h)"
    | j s' where "0 < j" "palloc_get_multiple 0 k (page_alloc h) = Inr (PGSIZE * j, s')" "arenas h (PGSIZE * j) = None"
      "memory s' = memory (page_alloc h)" "\<forall>ar. arena_bytes ar = PGSIZE * k \<longrightarrow> pages_inv s' ((arenas h)(PGSIZE * j \<mapsto> ar))" by blast
  then show ?thesis
  proof cases
    case 1
    then show ?thesis by (simp add: malloc_big_def k_def [symmetric])
  next
    case 2
    let ?a = "PGSIZE * j" and ?ar = "\<lparr>arena_magic = ARENA_MAGIC, arena_desc = None, free_cnt = k\<rparr>"
    let ?h = "h\<lparr>page_alloc := s', arenas := (arenas h)(?a \<mapsto> ?ar)\<rparr>"
    have "lists_inv ((arenas h)(?a \<mapsto> ?ar)) (fl h) ((?a + sizeof_arena, n) # U)"
      using 2(1,3) n(1) k by (intro lists_new_big [OF i(3)]) simp_all
    moreover have "pages_inv s' ((arenas h)(?a \<mapsto> ?ar))" using 2(5) by (simp add: arena_bytes_def)
    moreover have "fl ?h = fl h" by (simp add: fl_def fun_eq_iff)
    ultimately have "heap_inv ?h ((?a + sizeof_arena, n) # U)" using i(1) by (simp add: heap_inv_def)
    then show ?thesis using 2(1,2,4) by (simp add: malloc_big_def k_def [symmetric] Let_def heap_memory_def)
  qed
qed

lemma find_desc_less: "find_desc n ds < length ds \<Longrightarrow> n \<le> desc_block_size (ds ! find_desc n ds)"
  by (induction ds) auto

lemma find_desc_le: "find_desc n ds \<le> length ds"
  by (induction ds) auto

lemma malloc_law:
  assumes inv: "heap_inv h U" and n: "n \<le> 2 ^ 32 - 4108"
  shows "malloc n h = Inr (0, h)
    \<or> (\<exists>p h'. malloc n h = Inr (p, h') \<and> p \<noteq> 0 \<and> heap_inv h' ((p, n) # U) \<and> heap_memory h' = heap_memory h)"
proof (cases "n = 0")
  case True
  then show ?thesis by (simp add: malloc_def)
next
  case False
  note ok = heap_invD(1) [OF inv]
  let ?d = "find_desc n (descs h)"
  show ?thesis
  proof (cases "?d = length (descs h)")
    case True
    then show ?thesis using malloc_big_law [OF inv _ n] False by (simp add: malloc_def Let_def)
  next
    case sm: False
    then have d: "?d < 7" "n \<le> bsz ?d"
      using find_desc_le [of n "descs h"] find_desc_less [of n "descs h"] descs_okD [OF ok] by auto
    show ?thesis
    proof (cases "fl h ?d = []")
      case True
      then show ?thesis
        using new_arena_law [OF inv d(1)] take_block_law [OF _ d(1) _ _ d(2)] False sm by (fastforce simp: malloc_def Let_def fl_def)
    next
      case full: False
      then show ?thesis
        using take_block_law [OF inv d(1) _ _ d(2)] False sm by (fastforce simp: malloc_def Let_def fl_def)
    qed
  qed
qed


subsection \<open>Held blocks do not overlap\<close>

lemma held_cases:
  assumes "held A F v"
  obtains (Small) a ar d i where "A a = Some ar" "arena_desc ar = Some d" "i < bpa d" "fst v = blk d a i" "snd v \<le> bsz d"
  | (Big) a ar where "A a = Some ar" "arena_desc ar = None" "fst v = a + sizeof_arena" "snd v + sizeof_arena \<le> arena_bytes ar"
  using assms by (auto simp: held_def small_def big_def arena_bytes_def)

lemma blk_in_arena:
  assumes "pages_inv s A" "lists_inv A F U" "A a = Some ar" "arena_desc ar = Some d" "i < bpa d"
  shows "a \<le> blk d a i" "blk d a i + bsz d \<le> a + arena_bytes ar"
proof -
  have "d < 7" using arena_okD [OF lists_invD(1) [OF assms(2,3)] assms(4)] by blast
  from blk_offset(1) [OF this assms(5)] arena_range(4) [OF assms(1,3)]
  show "a \<le> blk d a i" "blk d a i + bsz d \<le> a + arena_bytes ar" by (simp_all add: blk_def)
qed

text \<open>A held block lies in its arena, and in no other.\<close>

lemma held_arena:
  assumes "pages_inv s A" "lists_inv A F U" "held A F v"
  shows "\<exists>a ar. A a = Some ar \<and> a \<le> fst v \<and> fst v + snd v \<le> a + arena_bytes ar
    \<and> (\<forall>a' ar'. A a' = Some ar' \<and> a' \<noteq> a \<longrightarrow> apart v (a', arena_bytes ar'))"
proof -
  have "\<exists>a ar. A a = Some ar \<and> a \<le> fst v \<and> fst v + snd v \<le> a + arena_bytes ar"
    using assms(3)
  proof (cases rule: held_cases)
    case (Small a ar d i)
    then show ?thesis using blk_in_arena [OF assms(1,2) Small(1-3)] by (intro exI [of _ a] exI [of _ ar]) simp
  next
    case (Big a ar)
    then show ?thesis by (intro exI [of _ a] exI [of _ ar]) simp
  qed
  then obtain a ar where a: "A a = Some ar" "a \<le> fst v" "fst v + snd v \<le> a + arena_bytes ar" by blast
  have "apart v (a', arena_bytes ar')" if "A a' = Some ar'" "a' \<noteq> a" for a' ar'
    using pages_apart [OF assms(1) a(1) that(1)] that(2) a(2,3) by (auto simp: apart_def)
  then show ?thesis using a by blast
qed

lemma blk_apart:
  assumes "i \<noteq> i'" shows "apart (blk d a i, bsz d) (blk d a i', bsz d)"
proof -
  have "Suc i * bsz d \<le> i' * bsz d \<or> Suc i' * bsz d \<le> i * bsz d"
    using assms by (intro disj_forward [OF _ mult_le_mono1 mult_le_mono1]) auto
  then show ?thesis by (auto simp: apart_def blk_def)
qed

lemma held_apart_block:
  assumes p: "pages_inv s A" and l: "lists_inv A F U" and v: "held A F v"
    and b: "A a = Some ar" "arena_desc ar = Some d" "i < bpa d" "fst v \<noteq> blk d a i"
  shows "apart v (blk d a i, bsz d)"
proof (cases "\<exists>i'. i' < bpa d \<and> fst v = blk d a i' \<and> snd v \<le> bsz d")
  case True
  then obtain i' where i': "fst v = blk d a i'" "snd v \<le> bsz d" by blast
  then have "apart (blk d a i', bsz d) (blk d a i, bsz d)" using b(4) by (intro blk_apart) auto
  then show ?thesis using i' by (auto simp: apart_def)
next
  case False
  obtain a' ar' where a': "A a' = Some ar'" "a' \<noteq> a" "a' \<le> fst v" "fst v + snd v \<le> a' + arena_bytes ar'"
    using v
  proof (cases rule: held_cases)
    case (Small a' ar' d' i')
    have "a' \<noteq> a" using Small b False by auto
    then show ?thesis using that [of a' ar'] Small blk_in_arena [OF p l Small(1-3)] by simp
  next
    case (Big a' ar')
    have "a' \<noteq> a" using Big b by auto
    then show ?thesis using that [of a' ar'] Big by simp
  qed
  from pages_apart [OF p a'(1) b(1) a'(2)] blk_in_arena [OF p l b(1-3)] a'(3,4) show ?thesis by (auto simp: apart_def)
qed

lemma held_apart:
  assumes p: "pages_inv s A" and l: "lists_inv A F U" and u: "held A F u" and v: "held A F v" and ne: "fst u \<noteq> fst v"
  shows "apart u v"
  using u
proof (cases rule: held_cases)
  case (Small a ar d i)
  from held_apart_block [OF p l v Small(1-3)] ne Small(4,5) show ?thesis by (auto simp: apart_def)
next
  case (Big a ar)
  obtain a' ar' where a': "A a' = Some ar'" "a' \<noteq> a" "a' \<le> fst v" "fst v + snd v \<le> a' + arena_bytes ar'"
    using v
  proof (cases rule: held_cases)
    case (Small a' ar' d' i')
    have "a' \<noteq> a" using Small Big by auto
    then show ?thesis using that [of a' ar'] Small blk_in_arena [OF p l Small(1-3)] by simp
  next
    case Big': (Big a' ar')
    have "a' \<noteq> a" using Big Big' ne by auto
    then show ?thesis using that [of a' ar'] Big' by simp
  qed
  from pages_apart [OF p Big(1) a'(1)] a' Big show ?thesis by (auto simp: apart_def)
qed

lemma heap_inv_apart:
  assumes "heap_inv h U" shows "sorted_wrt apart U"
proof -
  note i = heap_invD [OF assms]
  have "\<forall>u \<in> set U. \<forall>v \<in> set U. fst u \<noteq> fst v \<longrightarrow> apart u v"
    using held_apart [OF i(2,3)] lists_invD(5) [OF i(3)] by blast
  then show ?thesis using lists_invD(4) [OF i(3)] by (induction U) auto
qed


subsection \<open>Freeing keeps the invariant\<close>

lemma remove_blocks:
  assumes "pages_inv (page_alloc h) (arenas h)" "descs_ok (descs h)" "arena_ok F a ar" "arenas h a = Some ar" "arena_desc ar = Some d"
    and "distinct (fl h d)" "\<forall>i<bpa d. blk d a i \<in> set (fl h d)" "n \<le> bpa d"
  shows "rfold (\<lambda>i h. rbind (arena_to_block h a i) (\<lambda>b. remove_free d b h)) [0..<n] h
    = Inr (set_free d (filter (\<lambda>b. b \<notin> blk d a ` {..<n}) (fl h d)) h)"
  using assms(8)
proof (induction n)
  case 0
  then show ?case by (simp add: set_free_id)
next
  case (Suc n)
  have d: "d < 7" and al: "PGSIZE dvd a" using assms(3,5) by (simp_all add: arena_ok_def)
  let ?bs = "filter (\<lambda>b. b \<notin> blk d a ` {..<n}) (fl h d)"
  let ?h = "set_free d ?bs h"
  note sf = set_free_ok [OF assms(2) d, of ?bs]
  have f: "free_list (descs ?h ! d) = ?bs" using fun_cong [OF sf(2), of d] by (simp add: fl_def)
  have "arena_to_block ?h a n = Inr (blk d a n)" using small_arena(2) [of ?h F a ar d n] assms sf(1) Suc.prems by simp
  moreover have "blk d a n \<noteq> blk d a k" if "k < n" for k using blk_inj(2) [OF d _ al d _ al, of n k] that Suc.prems by auto
  then have "blk d a n \<notin> blk d a ` {..<n}" by blast
  then have "blk d a n \<in> set ?bs" using assms(7) Suc.prems by simp
  moreover have "remove1 (blk d a n) ?bs = filter (\<lambda>b. b \<notin> blk d a ` {..<Suc n}) (fl h d)"
    using assms(6) by (simp add: distinct_remove1_removeAll lessThan_Suc removeAll_filter_not_eq conj_commute) (metis (lifting))
  ultimately show ?case using Suc f by (simp add: rfold_append remove_free_def)
qed

lemma release_arena_law:
  assumes inv: "heap_inv h U" and s: "arenas h a = Some ar" "arena_desc ar = Some d" "free_cnt ar = bpa d"
  shows "\<exists>h'. release_arena d a h = Inr h' \<and> heap_inv h' U
    \<and> (\<forall>x. x < a \<or> a + arena_bytes ar \<le> x \<longrightarrow> heap_memory h' x = heap_memory h x) \<and> arenas h' = (arenas h)(a := None)"
proof -
  note i = heap_invD [OF inv]
  have ok: "arena_ok (fl h) a ar" by (rule lists_invD(1) [OF i(3) s(1)])
  then have d: "d < 7" using s(2) by (simp add: arena_ok_def)
  note dr = lists_drop [OF i(3) s]
  let ?bs = "filter (\<lambda>b. b \<notin> blk d a ` {..<bpa d}) (fl h d)"
  have "rfold (\<lambda>i h. rbind (arena_to_block h a i) (\<lambda>b. remove_free d b h)) [0..<bpa d] h = Inr (set_free d ?bs h)"
    using remove_blocks [OF i(2,1) ok s(1,2) lists_invD(2) [OF i(3) d] conjunct1 [OF dr]] by simp
  moreover obtain s' where s': "palloc_free_page a (page_alloc h) = Inr s'" "pages_inv s' ((arenas h)(a := None))"
    "\<forall>x. x < a \<or> a + arena_bytes ar \<le> x \<longrightarrow> memory s' x = memory (page_alloc h) x"
    using pages_free [OF i(2) s(1)] s(2) by (auto simp: palloc_free_page_def arena_bytes_def)
  ultimately have "release_arena d a h = Inr ((set_free d ?bs h)\<lparr>page_alloc := s', arenas := (arenas h)(a := None)\<rparr>)"
    using descs_okD(3) [OF i(1) d] by (simp add: release_arena_def)
  moreover have "heap_inv ((set_free d ?bs h)\<lparr>page_alloc := s', arenas := (arenas h)(a := None)\<rparr>) U"
    using set_free_ok [OF i(1) d, of ?bs] s'(2) conjunct2 [OF dr] by (simp add: heap_inv_def fl_def [abs_def])
  ultimately show ?thesis using s'(3) by (simp add: heap_memory_def)
qed

definition keeps :: "mem \<Rightarrow> mem \<Rightarrow> (nat \<times> nat) list \<Rightarrow> bool" where
  "keeps m m' U \<longleftrightarrow> (\<forall>v \<in> set U. \<forall>x. fst v \<le> x \<and> x < fst v + snd v \<longrightarrow> m' x = m x)"

lemma free_small_law:
  assumes inv: "heap_inv h U" and u: "u \<in> set U" and s: "arenas h a = Some ar" "arena_desc ar = Some d" "i < bpa d" "fst u = blk d a i"
  shows "\<exists>h'. free_small d (blk d a i) a ar h = Inr h' \<and> heap_inv h' (remove1 u U) \<and> keeps (heap_memory h) (heap_memory h') (remove1 u U)"
proof -
  note i = heap_invD [OF inv]
  let ?b = "blk d a i" and ?n = "free_cnt ar + 1" and ?U = "remove1 u U"
  let ?A = "(arenas h)(a \<mapsto> ar\<lparr>free_cnt := ?n\<rparr>)"
  have ok: "arena_ok (fl h) a ar" by (rule lists_invD(1) [OF i(3) s(1)])
  then have d: "d < 7" using s(2) by (simp add: arena_ok_def)
  note put = lists_put [OF i(3) u s]
  define m where "m = (\<lambda>x. if ?b \<le> x \<and> x < ?b + bsz d then to_char 0xcc else heap_memory h x)"
  define h1 where "h1 = (set_free d (?b # fl h d) (set_heap_memory m h))\<lparr>arenas := ?A\<rparr>"
  have sz: "size_t (free_cnt ar + 1) = ?n" using put desc_facts(4) [OF d] by simp
  have ms: "memset (heap_memory h) ?b 0xcc (desc_block_size (descs h ! d)) = Inr (m, ?b)"
    using small_arena(3) [OF i(2,1) ok s(1-3)] descs_okD(2) [OF i(1) d] by (simp add: memset_eq m_def)
  have ok1: "descs_ok (descs (set_heap_memory m h))" "fl (set_heap_memory m h) = fl h" "arenas (set_heap_memory m h) = arenas h"
    using i(1) by (simp_all add: set_heap_memory_def fl_def fun_eq_iff)
  have bpa1: "blocks_per_arena (descs h1 ! d) = bpa d"
    using descs_okD(3) [OF set_free_ok(1) [OF ok1(1) d] d] by (simp add: h1_def)
  have fs: "free_small d ?b a ar h = (if ?n \<ge> bpa d then c_assert (?n = bpa d) (release_arena d a h1) else Inr h1)"
    using ms sz bpa1 ok1(2,3) unfolding free_small_def h1_def by (simp add: Let_def fl_def) (simp add: set_heap_memory_def)
  have mem1: "heap_memory h1 = m" by (simp add: h1_def heap_memory_def set_heap_memory_def)
  have "heap_inv h1 ?U"
    unfolding heap_inv_def
  proof (intro conjI)
    show "descs_ok (descs h1)" using set_free_ok(1) [OF ok1(1) d] by (simp add: h1_def)
    show "pages_inv (page_alloc h1) (arenas h1)"
      using pages_cnt [OF i(2) s(1,2)] by (simp add: h1_def set_heap_memory_def pages_memory)
    have "fl h1 = (fl h)(d := ?b # fl h d)" using set_free_ok(2) [OF ok1(1) d] ok1(2) by (simp add: h1_def fl_def fun_eq_iff)
    then show "lists_inv (arenas h1) (fl h1) ?U" using put by (simp add: h1_def)
  qed
  note inv1 = this
  have keep1: "keeps (heap_memory h) m ?U"
    unfolding keeps_def
  proof (intro ballI allI impI)
    fix v x assume v: "v \<in> set ?U" and x: "fst v \<le> x \<and> x < fst v + snd v"
    have "v \<in> set U" "fst v \<noteq> ?b" using distinct_fst_remove1 [OF lists_invD(4) [OF i(3)] u v] s(4) by auto
    then have "apart v (?b, bsz d)" using held_apart_block [OF i(2,3) lists_invD(5) [OF i(3)] s(1-3)] by blast
    then show "m x = heap_memory h x" using x by (auto simp: m_def apart_def)
  qed
  show ?thesis
  proof (cases "?n \<ge> bpa d")
    case True
    then have n: "?n = bpa d" using put by simp
    have s1: "arenas h1 a = Some (ar\<lparr>free_cnt := ?n\<rparr>)" by (simp add: h1_def)
    obtain h' where h': "release_arena d a h1 = Inr h'" "heap_inv h' ?U" "arenas h' = (arenas h1)(a := None)"
      "\<forall>x. x < a \<or> a + arena_bytes (ar\<lparr>free_cnt := ?n\<rparr>) \<le> x \<longrightarrow> heap_memory h' x = heap_memory h1 x"
      using release_arena_law [OF inv1 s1] s(2) n by auto
    have "heap_memory h' x = heap_memory h x" if v: "v \<in> set ?U" and x: "fst v \<le> x" "x < fst v + snd v" for v x
    proof -
      note i' = heap_invD [OF h'(2)]
      obtain a' ar' where a': "arenas h' a' = Some ar'" "a' \<le> fst v" "fst v + snd v \<le> a' + arena_bytes ar'"
        using held_arena [OF i'(2,3) lists_invD(5) [OF i'(3) v]] by blast
      then have "a' \<noteq> a" "arenas h1 a' = Some ar'" using h'(3) by (auto split: if_splits)
      then have "apart (a', arena_bytes ar') (a, arena_bytes (ar\<lparr>free_cnt := ?n\<rparr>))"
        using pages_apart [OF heap_invD(2) [OF inv1] _ s1] by blast
      then have "heap_memory h' x = m x" using h'(4) mem1 a'(2,3) x by (auto simp: apart_def)
      then show ?thesis using keep1 v x by (simp add: keeps_def)
    qed
    then show ?thesis using fs n h'(1,2) True by (auto simp: keeps_def)
  next
    case False
    then show ?thesis using fs inv1 keep1 mem1 by simp
  qed
qed

lemma free_law:
  assumes inv: "heap_inv h U" and u: "u \<in> set U"
  shows "\<exists>h'. free_block (fst u) h = Inr h' \<and> heap_inv h' (remove1 u U) \<and> keeps (heap_memory h) (heap_memory h') (remove1 u U)"
proof -
  note i = heap_invD [OF inv]
  from lists_invD(5) [OF i(3) u] show ?thesis
  proof (cases rule: held_cases)
    case (Small a ar d i)
    note ar = small_arena [OF i(2,1) lists_invD(1) [OF i(3) Small(1)] Small(1-3)]
    then have "free_block (fst u) h = free_small d (blk d a i) a ar h" using Small by (simp add: free_block_def)
    then show ?thesis using free_small_law [OF inv u Small(1-4)] by simp
  next
    case (Big a ar)
    note ar = big_arena [OF i(2) lists_invD(1) [OF i(3) Big(1)] Big(1,2)]
    obtain s' where s': "palloc_free_multiple a (arena_bytes ar div PGSIZE) (page_alloc h) = Inr s'" "pages_inv s' ((arenas h)(a := None))"
      "\<forall>x. x < a \<or> a + arena_bytes ar \<le> x \<longrightarrow> memory s' x = memory (page_alloc h) x" using pages_free [OF i(2) Big(1)] by blast
    let ?h = "h\<lparr>page_alloc := s', arenas := (arenas h)(a := None)\<rparr>"
    have "arena_bytes ar div PGSIZE = free_cnt ar" using Big(2) by (simp add: arena_bytes_def)
    then have "free_block (fst u) h = Inr ?h" using Big ar s'(1) by (simp add: free_block_def sizeof_arena_def)
    moreover have "fl ?h = fl h" by (simp add: fl_def fun_eq_iff)
    then have inv': "heap_inv ?h (remove1 u U)"
      using i(1) s'(2) lists_drop_big [OF i(3) Big(1,2) u Big(3)] by (simp add: heap_inv_def)
    moreover have "keeps (heap_memory h) (heap_memory ?h) (remove1 u U)"
      unfolding keeps_def
    proof (intro ballI allI impI)
      fix v x assume v: "v \<in> set (remove1 u U)" and x: "fst v \<le> x \<and> x < fst v + snd v"
      note i' = heap_invD [OF inv']
      obtain a' ar' where a': "arenas ?h a' = Some ar'" "a' \<le> fst v" "fst v + snd v \<le> a' + arena_bytes ar'"
        using held_arena [OF i'(2,3) lists_invD(5) [OF i'(3) v]] by blast
      then have "a' \<noteq> a" "arenas h a' = Some ar'" by (auto split: if_splits)
      then have "apart (a', arena_bytes ar') (a, arena_bytes ar)" using pages_apart [OF i(2) _ Big(1)] by blast
      then show "heap_memory ?h x = heap_memory h x" using s'(3) a'(2,3) x by (auto simp: apart_def heap_memory_def)
    qed
    ultimately show ?thesis by blast
  qed
qed


subsection \<open>The block allocator is an allocator\<close>

lemma desc_loop_start: "\<exists>ds. desc_loop 16 [] = Some (Inr ds) \<and> descs_ok ds \<and> (\<forall>d<7. free_list (ds ! d) = [])"
proof -
  have s: "desc_loop n ds = (if n < 2048 then (if length ds + 1 \<le> 10 then desc_loop (n * 2)
      (ds @ [\<lparr>desc_block_size = n, blocks_per_arena = 4084 div n, free_list = []\<rparr>]) else Some (Inl Assertion_failed)) else Some (Inr ds))" for n ds
    by (subst desc_loop.simps) (simp add: PGSIZE_def sizeof_arena_def c_assert_def)
  let ?mk = "\<lambda>p. \<lparr>desc_block_size = fst p, blocks_per_arena = snd p, free_list = []\<rparr>"
  have "desc_loop 16 [] = Some (Inr (map ?mk desc_sizes))" by (simp add: s desc_sizes_def)
  moreover have "descs_ok (map ?mk desc_sizes)" by (simp add: descs_ok_def comp_def)
  moreover have "\<forall>d<7. free_list (map ?mk desc_sizes ! d) = []" by (auto simp: desc_sizes_def less_Suc_eq numeral_eq_Suc)
  ultimately show ?thesis by blast
qed

lemma malloc_init_law:
  assumes "palloc_inv s []" shows "\<exists>h. malloc_init s = Inr h \<and> heap_inv h [] \<and> heap_memory h = memory s"
proof -
  obtain ds where ds: "desc_loop 16 [] = Some (Inr ds)" "descs_ok ds" "\<forall>d<7. free_list (ds ! d) = []" using desc_loop_start by blast
  have "pages_inv s (\<lambda>_. None)" unfolding pages_inv_def using assms by (intro exI [of _ "[]"]) simp
  moreover have "lists_inv (\<lambda>_. None) F []" if "\<forall>d<7. F d = []" for F using that by (simp add: lists_inv_def)
  ultimately show ?thesis using ds by (simp add: malloc_init_def heap_inv_def heap_memory_def fl_def)
qed

lemma heap_inv_memory: "heap_inv (set_heap_memory m h) U = heap_inv h U"
proof -
  have "fl (set_heap_memory m h) = fl h" by (simp add: fl_def fun_eq_iff set_heap_memory_def)
  then show ?thesis by (simp add: heap_inv_def set_heap_memory_def pages_memory)
qed

interpretation ma: allocator heap_inv malloc "\<lambda>b. free_block (fst b)" set_heap_memory "\<lambda>n. n" "\<lambda>n. n \<le> 2 ^ 32 - 4108" "\<lambda>_ _. False"
proof (unfold_locales, goal_cases)
  case (1 s B r)
  then show ?case using malloc_law [OF 1] by blast
next
  case (2 s B b)
  then show ?case using free_law [OF 2] by blast
qed (simp_all add: heap_inv_memory heap_inv_apart)

text \<open>C9. Blocks are never shared. However clients allocate, free and write after start-up, no call
  fails an assertion, the blocks they hold, with the full length they asked for, never overlap, and each of
  them can be freed.\<close>

theorem blocks_never_shared:
  assumes "258 \<le> ram_pages" "ram_pages < 2 ^ 18" "0 < limit" "list_all (asks (\<lambda>n. n \<le> 2 ^ 32 - 4108)) rs"
  shows "\<exists>s0 h0 h B. palloc_init ram_pages limit m = Inr s0 \<and> malloc_init s0 = Inr h0
    \<and> serve malloc (\<lambda>b. free_block (fst b)) set_heap_memory (\<lambda>n. n) rs h0 [] = Inr (h, B)
    \<and> sorted_wrt apart B \<and> (\<forall>b \<in> set B. \<exists>h'. free_block (fst b) h = Inr h')"
proof -
  obtain s0 where s0: "palloc_init ram_pages limit m = Inr s0" "palloc_inv s0 []" using palloc_init_ok [OF assms(1-3)] by blast
  obtain h0 where h0: "malloc_init s0 = Inr h0" "heap_inv h0 []" using malloc_init_law [OF s0(2)] by blast
  from ma.serve_safe [OF h0(2) assms(4)] show ?thesis using s0(1) h0(1) by (auto split: sum.splits)
qed

theorem blocks_never_shared_witness:
  "\<exists>s0 h0 h B. palloc_init 1024 512 (\<lambda>_. NUL) = Inr s0 \<and> malloc_init s0 = Inr h0
    \<and> serve malloc (\<lambda>b. free_block (fst b)) set_heap_memory (\<lambda>n. n) [Get 24, Get 5000, Release 0, Get 32] h0 [] = Inr (h, B)
    \<and> sorted_wrt apart B"
  using blocks_never_shared [of 1024 512 "[Get 24, Get 5000, Release 0, Get 32]" "\<lambda>_. NUL"] by (fastforce simp: asks_def)


subsection \<open>Resizing\<close>

lemma block_size_law:
  assumes inv: "heap_inv h U" and u: "u \<in> set U"
  shows "\<exists>k. block_size h (fst u) = Inr k \<and> snd u \<le> k
    \<and> (\<forall>v. held (arenas h) (fl h) v \<and> fst v \<noteq> fst u \<longrightarrow> apart v (fst u, k))"
proof -
  note i = heap_invD [OF inv]
  from lists_invD(5) [OF i(3) u] show ?thesis
  proof (cases rule: held_cases)
    case (Small a ar d i)
    note ok = lists_invD(1) [OF i(3) Small(1)]
    have "d < 7" using ok Small(2) by (simp add: arena_ok_def)
    then have "block_size h (fst u) = Inr (bsz d)"
      using small_arena(1) [OF i(2,1) ok Small(1-3)] Small descs_okD(2) [OF i(1)] by (simp add: block_size_def)
    then show ?thesis using Small(4,5) held_apart_block [OF i(2,3) _ Small(1-3)] by auto
  next
    case (Big a ar)
    note ok = lists_invD(1) [OF i(3) Big(1)] and r = arena_range [OF i(2) Big(1)]
    have ofs: "pg_ofs (a + sizeof_arena) = sizeof_arena" using r(1) by (auto simp: pg_ofs_mod sizeof_arena_def PGSIZE_def elim!: dvdE)
    have sz: "sizeof_arena < PGSIZE" by (simp add: sizeof_arena_def PGSIZE_def)
    have bytes: "PGSIZE * free_cnt ar = arena_bytes ar" using Big(2) by (simp add: arena_bytes_def)
    have "size_t (arena_bytes ar + 2 ^ 32 - sizeof_arena) = arena_bytes ar - sizeof_arena"
      using r(4,6) by (simp add: size_t_def sizeof_arena_def PGSIZE_def mod_if)
    then have "block_size h (fst u) = Inr (arena_bytes ar - sizeof_arena)"
      using big_arena [OF i(2) ok Big(1,2)] Big ofs bytes by (simp add: block_size_def)
    moreover have "apart v (fst u, arena_bytes ar - sizeof_arena)" if v: "held (arenas h) (fl h) v" "fst v \<noteq> fst u" for v
    proof -
      have "held (arenas h) (fl h) (fst u, arena_bytes ar - sizeof_arena)"
        unfolding held_def big_def using Big r(4) bytes less_le_trans [OF sz r(4)] by auto
      then show ?thesis using held_apart [OF i(2,3) v(1)] v(2) by simp
    qed
    ultimately show ?thesis using Big(4) by auto
  qed
qed


text \<open>After start-up a request that fits the memory is served.\<close>

lemma malloc_start:
  assumes s: "palloc_inv s []" and h: "malloc_init s = Inr h" and n: "0 < n" "n \<le> 2 ^ 32 - 4108" "n + 4107 < PGSIZE * (bit_cnt (used_map (kernel_pool s)) + 1)"
  shows "\<exists>p h'. malloc n h = Inr (p, h') \<and> p \<noteq> 0 \<and> heap_inv h' [(p, n)]"
proof -
  have inv: "heap_inv h []" using malloc_init_law [OF s] h by auto
  have hs: "page_alloc h = s" using h by (auto simp: malloc_init_def rbind_eq_Inr)
  have c: "0 < bit_cnt (used_map (kernel_pool s))" using n(3) by (cases "bit_cnt (used_map (kernel_pool s))") (simp_all add: PGSIZE_def)
  have big: "malloc_big n h \<noteq> Inr (0, h)"
  proof
    assume null: "malloc_big n h = Inr (0, h)"
    define k where "k = DIV_ROUND_UP (size_t (n + sizeof_arena)) PGSIZE"
    have kk: "k = (n + 4107) div 4096" using n(2) by (simp add: k_def sizeof_arena_def PGSIZE_def DIV_ROUND_UP_def)
    then have k: "0 < k" "k \<le> bit_cnt (used_map (kernel_pool s))" using n(1,3) by (simp_all add: PGSIZE_def div_greater_zero_iff less_mult_imp_div_less flip: less_Suc_eq_le)
    obtain j s' where "0 < j" "palloc_get_multiple 0 k (page_alloc h) = Inr (PGSIZE * j, s')"
      using pages_get [OF heap_invD(2) [OF inv], of k] palloc_get_fresh [OF s k] hs by auto
    then show False using null by (simp add: malloc_big_def k_def [symmetric] Let_def)
  qed
  have new: "new_arena d h \<noteq> Inr (False, h)" for d
    using pages_get [OF heap_invD(2) [OF inv], of 1] palloc_get_fresh [OF s, of 1] c hs
    by (auto simp: new_arena_def palloc_get_page_def Let_def rbind_eq_Inr)
  have "malloc n h \<noteq> Inr (0, h)"
  proof
    assume null: "malloc n h = Inr (0, h)"
    let ?d = "find_desc n (descs h)"
    have lt: "?d \<noteq> length (descs h)" using null big n(1) by (auto simp: malloc_def)
    then have d: "?d < 7" "n \<le> bsz ?d"
      using find_desc_le [of n "descs h"] find_desc_less [of n "descs h"] descs_okD [OF heap_invD(1) [OF inv]] by auto
    show False
    proof (cases "fl h ?d = []")
      case True
      then obtain h1 where h1: "new_arena ?d h = Inr (True, h1)" "heap_inv h1 []" "fl h1 ?d \<noteq> []"
        using new_arena_law [OF inv d(1)] new by blast
      then show False using take_block_law [OF h1(2) d(1) h1(3) n(1) d(2)] null lt n(1) True by (auto simp: malloc_def fl_def Let_def)
    next
      case False
      then show False using take_block_law [OF inv d(1) False n(1) d(2)] null lt n(1) by (auto simp: malloc_def fl_def Let_def)
    qed
  qed
  then show ?thesis using malloc_law [OF inv n(2)] by blast
qed

lemma started:
  "\<exists>s0 h0. palloc_init 1024 512 (\<lambda>_. NUL) = Inr s0 \<and> palloc_inv s0 [] \<and> malloc_init s0 = Inr h0 \<and> heap_inv h0 []
    \<and> 374 \<le> bit_cnt (used_map (kernel_pool s0))"
proof -
  obtain s0 where s0: "palloc_init 1024 512 (\<lambda>_. NUL) = Inr s0" "palloc_inv s0 []" "768 \<le> 2 * (bit_cnt (used_map (kernel_pool s0)) + 10)"
    using palloc_init_ok [of 1024 512 "\<lambda>_. NUL"] by auto
  obtain h0 where h0: "malloc_init s0 = Inr h0" "heap_inv h0 []" using malloc_init_law [OF s0(2)] by blast
  show ?thesis using s0 h0 by auto
qed


text \<open>C36. Sizes are not checked for overflow: adding the header to a request of almost 4 GB wraps around, and the caller gets the
  block of a request of 4084 bytes; and \<^verbatim>\<open>calloc\<close>, which means to refuse a product that does not fit, accepts
  65537 times 65537 and returns a block of 131073 bytes.\<close>

theorem huge_requests_wrap:
  assumes "heap_inv h U" "2 ^ 32 - 11 \<le> n" "n < 2 ^ 32"
  shows "malloc n h = malloc 4084 h \<and> calloc 65537 65537 h = calloc 1 131073 h"
proof
  have none: "find_desc k (descs h) = length (descs h)" if "1024 < k" for k
  proof (rule ccontr)
    assume "find_desc k (descs h) \<noteq> length (descs h)"
    then have "find_desc k (descs h) < 7" "k \<le> bsz (find_desc k (descs h))"
      using find_desc_le [of k "descs h"] find_desc_less [of k "descs h"] descs_okD [OF heap_invD(1) [OF assms(1)]] by auto
    then show False using desc_facts(2) [of "find_desc k (descs h)"] that by simp
  qed
  have "size_t (n + sizeof_arena) = n + 12 - 2 ^ 32" using assms(2,3) by (simp add: size_t_def sizeof_arena_def mod_if)
  then have "DIV_ROUND_UP (size_t (n + sizeof_arena)) PGSIZE = DIV_ROUND_UP (size_t (4084 + sizeof_arena)) PGSIZE"
    using assms(2,3) by (simp add: DIV_ROUND_UP_def sizeof_arena_def PGSIZE_def)
  then show "malloc n h = malloc 4084 h" using none [of n] none [of 4084] assms(2) by (simp add: malloc_def malloc_big_def)
  show "calloc 65537 65537 h = calloc 1 131073 h" by (simp add: calloc_def size_t_def)
qed

theorem huge_requests_wrap_witness:
  "\<exists>s0 h0 p h. palloc_init 1024 512 (\<lambda>_. NUL) = Inr s0 \<and> malloc_init s0 = Inr h0 \<and> malloc (2 ^ 32 - 1) h0 = Inr (p, h) \<and> p \<noteq> 0
    \<and> malloc 4084 h0 = Inr (p, h)"
proof -
  obtain s0 h0 where s: "palloc_init 1024 512 (\<lambda>_. NUL) = Inr s0" "palloc_inv s0 []" "malloc_init s0 = Inr h0" "heap_inv h0 []"
    "374 \<le> bit_cnt (used_map (kernel_pool s0))"
    using started by blast
  obtain p h where p: "malloc 4084 h0 = Inr (p, h)" "p \<noteq> 0"
    using malloc_start [OF s(2,3), of 4084] s(5) by (auto simp: PGSIZE_def)
  show ?thesis using huge_requests_wrap [OF s(4), of "2 ^ 32 - 1"] s(1,3) p by auto
qed

end
