(* ===== verification/Spec2Isabelle.thy ===== *)
theory Spec2Isabelle
  imports Warehouse_Properties String_Properties Sort List_Sort Thread_Properties Bitmap Arithmetic Printf Hash Malloc
begin

text \<open>
  The program is a Pintos kernel that runs an automated warehouse: robots, each a kernel thread, fetch
  items from shelves and bring them to docks, under the direction of a central control thread. The
  build (\<^verbatim>\<open>src/threads/Make.vars\<close>) contains the directories \<^verbatim>\<open>threads\<close>, \<^verbatim>\<open>devices\<close>, \<^verbatim>\<open>lib\<close>, \<^verbatim>\<open>lib/kernel\<close> and
  \<^verbatim>\<open>projects/automated_warehouse\<close>, and neither \<^verbatim>\<open>USERPROG\<close> nor \<^verbatim>\<open>FILESYS\<close>.

  \<^bold>\<open>How the parts interact.\<close> \<^verbatim>\<open>run_automated_warehouse\<close> reads the number of robots (\<^verbatim>\<open>atoi\<close>) and the tasks
  (\<^verbatim>\<open>strtok_r\<close>, \<^verbatim>\<open>strlcpy\<close>), creates the message boxes and starts one thread per robot and one for the central
  control. A robot reports its state in its box and blocks; when all have reported, the central control
  collects the states, prints the map, plans a step for every robot, sends the commands and unblocks the
  robots. The threads, locks and the timer of the kernel carry this; kernel lists carry the threads; the
  library supplies strings, formatted output, sorting, hash tables, bitmaps and 64-bit division.

  \<^bold>\<open>Conventions.\<close> (Theory \<open>Prelude\<close>) A call that can fail returns \<open>c_error + 'a\<close>; failed assertions, panics,
  accesses out of bounds, overflows of signed arithmetic and calls that do not return are the
  errors. A loop that need not end is a partial function into options, and where the code relies on its
  ending, that is proved. \<^verbatim>\<open>int\<close> values are integers with explicit overflow, \<^verbatim>\<open>size_t\<close> values are numbers
  reduced modulo \<open>2 ^ 32\<close>, and words are used where the code works on bits. Memory is a function from
  addresses to bytes wherever the code works on raw memory. Functions passed as arguments (comparisons,
  hash functions, output routines) are arguments of the model, with the laws the code's documentation asks
  of them as hypotheses.

  \<^bold>\<open>The warehouse\<close> (\<^verbatim>\<open>src/projects/automated_warehouse\<close>).
  \<^item> \<open>Warehouse_Map\<close> (\<^verbatim>\<open>aw_manager.c\<close>): the floor plan. \<open>Robot\<close> (\<^verbatim>\<open>robot.c\<close>): robots and their tasks.
  \<^item> \<open>Messages\<close> (\<^verbatim>\<open>aw_message.c\<close>): the two banks of boxes, as instances of the interface \<open>mailbox\<close>.
  \<^item> \<open>Navigation\<close> and \<open>Shortest_Path\<close> (\<^verbatim>\<open>is_blocked_cell\<close> to \<^verbatim>\<open>get_next_position\<close> of \<^verbatim>\<open>automated_warehouse.c\<close>):
    breadth-first search ends and finds the first step of a shortest way, or heads for the closest
    reachable cell. The search is proved for any floor with finitely many free cells (\<open>floor\<close>).
  \<^item> \<open>Control\<close>, \<open>Safe_Moves\<close>, \<open>Progress\<close> (\<^verbatim>\<open>central_control_thread\<close> and its helpers): one iteration, stage by
    stage; the batch of commands is safe in any order of execution, the longest waiting robot is
    served, and nobody is sent only if nobody can move.
  \<^item> \<open>Robot_Thread\<close>, \<open>System\<close> (\<^verbatim>\<open>robot_thread\<close>): every interleaving of the preemptible steps of the robots with the
    central control. No two robots ever share a cell that is not a shared place, none stands on a wall,
    the system never gets stuck, and it shuts down only when all is delivered.
  \<^item> \<open>Simulation\<close>, \<open>Lone_Robot\<close>: runs round by round; a robot alone finishes each of the twenty-one tasks.
    The bound of nineteen rounds is the longest route of the floor plan, to a shelf, on to a dock, and
    the final report.
  \<^item> \<open>Warehouse_Properties\<close>: the refinement of an abstract floor and the remaining promises.

  \<^bold>\<open>The kernel\<close> (\<^verbatim>\<open>src/threads\<close>, \<^verbatim>\<open>src/devices/timer.c\<close>, \<^verbatim>\<open>aw_thread.c\<close>).
  \<^item> \<open>Threads\<close>: threads, scheduler, semaphores, locks, condition variables, the interrupt level, sleeping and
    ticks, over one record for the kernel's globals. What a thread has left to do in a kernel call is a stack of frames,
    so that a blocking call is resumed where it stopped; a timer interrupt can come between frames.
  \<^item> \<open>Thread_Invariant\<close>, \<open>Thread_Steps\<close>, \<open>Thread_Properties\<close>: the invariant, its preservation by every operation, and
    the properties of every run from boot on: no assertion fails, locks exclude each other,
    the lists of threads are disjoint and agree with the states, ready threads run in order, sleepers are
    woken on time. The two overflows that remain, of the tick counter and of the thread identifiers,
    are reported as such and not assumed away.
  \<^item> \<open>Vaddr\<close> (\<^verbatim>\<open>vaddr.h\<close>): pages and addresses.
  \<^item> \<open>Allocator\<close>: the contract of an allocator (\<open>allocator\<close>) and what it gives for every sequence of requests.
    \<open>Palloc\<close> (\<^verbatim>\<open>palloc.c\<close>): pools of pages, from start-up on. \<open>Malloc\<close> (\<^verbatim>\<open>malloc.c\<close>): descriptors, arenas, blocks. Both
    fulfil the contract: blocks that are held never overlap and can always be freed; \<^verbatim>\<open>realloc\<close> keeps contents. The
    machine has between 258 pages and 1 GB of memory, and requests stay 4108 bytes below 4 GB, beyond
    which the code's sums wrap around, as is shown.

  \<^bold>\<open>The library\<close> (\<^verbatim>\<open>src/lib\<close>, \<^verbatim>\<open>src/lib/kernel\<close>).
  \<^item> \<open>C_String\<close>, \<open>Stdlib\<close>, \<open>String_Properties\<close> (\<^verbatim>\<open>string.c\<close>, \<^verbatim>\<open>ctype.h\<close>, \<^verbatim>\<open>atoi\<close>): every string function over memory.
  \<^item> \<open>Sort\<close> (\<^verbatim>\<open>stdlib.c\<close>): heap sort over an array of elements of any size; binary search.
  \<^item> \<open>Kernel_List\<close>, \<open>List_Sort\<close> (\<^verbatim>\<open>list.c\<close>): doubly linked lists as links in a heap, which represent sequences; the
    interface \<open>deque\<close>; merge sort in place is a stable sort that ends.
  \<^item> \<open>Hash\<close> (\<^verbatim>\<open>hash.c\<close>): hash tables implement the interface \<open>dictionary\<close>, whatever allocations fail.
  \<^item> \<open>Bitmap\<close> (\<^verbatim>\<open>bitmap.c\<close>): bitmaps are arrays of bits; the first run is found and claimed.
  \<^item> \<open>Arithmetic\<close> (\<^verbatim>\<open>arithmetic.c\<close>): 64-bit division out of 32-bit divisions.
  \<^item> \<open>Stdio\<close>, \<open>Printf\<close> (\<^verbatim>\<open>stdio.c\<close>): parsing and execution of format strings; the buffers are never overrun.

  \<^bold>\<open>Abstractions.\<close> The warehouse model (\<open>System\<close>) has its own steps for blocking and waking the robots; the
  kernel operations behind them are modelled and proved in \<open>Threads\<close>. Lists of threads, the chains of a
  hash table and lists of free blocks are sequences there; that the linked lists behave as sequences is proved in \<open>Kernel_List\<close>.
  A semaphore's value and the numbers of elements of tables are unbounded numbers where the code never gets near the width.

  \<^bold>\<open>Not modelled.\<close> Device drivers (\<^verbatim>\<open>devices\<close> except sleeping and ticks) and the console are port input and
  output. \<^verbatim>\<open>init.c\<close>, \<^verbatim>\<open>start.S\<close>, \<^verbatim>\<open>loader.S\<close>, \<^verbatim>\<open>switch.S\<close> and \<^verbatim>\<open>intr-stubs.S\<close> set up the machine and switch stacks:
  the frames of \<open>Threads\<close> represent what they achieve. The text that \<^verbatim>\<open>print_map\<close> prints is represented by the
  data it is printed from. \<^verbatim>\<open>filesys\<close>, \<^verbatim>\<open>userprog\<close>, \<^verbatim>\<open>vm\<close>, \<^verbatim>\<open>lib/user\<close> and \<^verbatim>\<open>examples\<close> are not part of this kernel, and \<^verbatim>\<open>utils\<close> runs on the host.
  The random numbers, \<^verbatim>\<open>ustar.c\<close>, \<^verbatim>\<open>intq.c\<close> and \<^verbatim>\<open>hex_dump\<close> are left out.
\<close>

end
